(* ===== verification/Prelude.thy ===== *)
theory Prelude
  imports Main "HOL-Library.Word" "HOL-Library.Signed_Division"
begin

unbundle bit_operations_syntax

text \<open>
  Shared vocabulary of the development: the machine integers of
  \<^verbatim>\<open>kernel/types.h\<close>, the result type of kernel code (a value, or a call of
  \<^verbatim>\<open>panic\<close>), little-endian encoding of machine words, and generic facts on
  words and lists that the component theories use.
\<close>

section \<open>Machine integers\<close>

type_synonym u8 = "8 word"
type_synonym u16 = "16 word"
type_synonym u32 = "32 word"
type_synonym u64 = "64 word"

text \<open>
  Collections the component theories extend: \<open>res_simps\<close> unfolds sequencing of
  fallible code, \<open>mem_simps\<close> resolves loads over stores.
\<close>

named_theorems res_simps
named_theorems mem_simps

section \<open>Kernel code that may panic\<close>

text \<open>
  \<^verbatim>\<open>panic\<close> does not return, so a kernel function yields its result or the message of the
  panic it ran into.  \<open>Block\<close> is the outcome of code that goes to sleep because a sleep lock is
  held or log space is missing: nothing later in the function happens before another process
  runs.  \<open>rbind\<close> is the sequencing of two statements.
\<close>

datatype 'a res = OK (ok_val: 'a) | Panic (panic_msg: string) | Block

fun rbind :: "'a res \<Rightarrow> ('a \<Rightarrow> 'b res) \<Rightarrow> 'b res" where
  "rbind (OK x) f = f x"
| "rbind (Panic e) f = Panic e"
| "rbind Block f = Block"

definition is_ok :: "'a res \<Rightarrow> bool" where
  "is_ok r = (case r of OK _ \<Rightarrow> True | _ \<Rightarrow> False)"

lemma is_ok_simps [simp]:
  "is_ok (OK x)" "\<not> is_ok (Panic e)" "\<not> is_ok Block"
  by (simp_all add: is_ok_def)

lemma rbind_cong [fundef_cong]:
  "m = m' \<Longrightarrow> (\<And>x. m' = OK x \<Longrightarrow> f x = g x) \<Longrightarrow> rbind m f = rbind m' g"
  by (cases m') auto

lemma rbind_eq_OK [res_simps]:
  "rbind m f = OK y \<longleftrightarrow> (\<exists>x. m = OK x \<and> f x = OK y)"
  by (cases m) auto

lemma rbind_eq_Panic [res_simps]:
  "rbind m f = Panic e \<longleftrightarrow> m = Panic e \<or> (\<exists>x. m = OK x \<and> f x = Panic e)"
  by (cases m) auto

lemma rbind_eq_Block [res_simps]:
  "rbind m f = Block \<longleftrightarrow> m = Block \<or> (\<exists>x. m = OK x \<and> f x = Block)"
  by (cases m) auto

lemma rbind_assoc: "rbind (rbind m f) g = rbind m (\<lambda>x. rbind (f x) g)"
  by (cases m) auto

lemma rbind_OK_right [simp]: "rbind m OK = m"
  by (cases m) auto

section \<open>C integers\<close>

text \<open>
  Values of the C types \<^verbatim>\<open>int\<close> and \<^verbatim>\<open>uint\<close> are kept as integers; \<open>i32\<close> and \<open>ui32\<close>
  are the conversions into those types, with their wrap-around.
\<close>

definition i32 :: "int \<Rightarrow> int" where
  "i32 x = signed_take_bit 31 x"

definition ui32 :: "int \<Rightarrow> int" where
  "ui32 x = take_bit 32 x"

lemma i32_id: "- (2 ^ 31) \<le> x \<Longrightarrow> x < 2 ^ 31 \<Longrightarrow> i32 x = x"
  by (simp add: i32_def signed_take_bit_int_eq_self)

lemma i32_range: "- (2 ^ 31) \<le> i32 x" "i32 x < 2 ^ 31"
  unfolding i32_def
  by (rule signed_take_bit_int_greater_eq_minus_exp, rule signed_take_bit_int_less_exp)

lemma ui32_id: "0 \<le> x \<Longrightarrow> x < 2 ^ 32 \<Longrightarrow> ui32 x = x"
  by (simp add: ui32_def take_bit_int_eq_self)

lemma ui32_range: "0 \<le> ui32 x" "ui32 x < 2 ^ 32"
  unfolding ui32_def by (rule take_bit_nonnegative, rule take_bit_int_less_exp)

section \<open>Arrays scanned from the front\<close>

text \<open>The index at which a loop over a table stops: the first entry with the property.\<close>

fun first_index :: "('a \<Rightarrow> bool) \<Rightarrow> 'a list \<Rightarrow> nat option" where
  "first_index P [] = None"
| "first_index P (x # xs) = (if P x then Some 0 else map_option Suc (first_index P xs))"

lemma first_index_None: "first_index P xs = None \<longleftrightarrow> (\<forall>x \<in> set xs. \<not> P x)"
  by (induction xs) auto

lemma first_index_Some:
  "first_index P xs = Some i \<longleftrightarrow> i < length xs \<and> P (xs ! i) \<and> (\<forall>j < i. \<not> P (xs ! j))"
proof (induction xs arbitrary: i)
  case (Cons x xs)
  then show ?case by (cases i) (auto simp: nth_Cons' gr0_conv_Suc less_Suc_eq_0_disj)
qed simp

lemma first_index_cong:
  "(\<And>x. x \<in> set xs \<Longrightarrow> P x \<longleftrightarrow> Q x) \<Longrightarrow> first_index P xs = first_index Q xs"
  by (induction xs) auto

lemma first_index_SomeD:
  assumes "first_index P xs = Some i"
  shows "i < length xs" "P (xs ! i)" "j < i \<Longrightarrow> \<not> P (xs ! j)"
  using assms by (auto simp: first_index_Some)

section \<open>Little-endian encoding of machine words\<close>

text \<open>
  RISC-V and the on-disk format both store multi-byte integers with the least
  significant byte first.
\<close>

fun le_word :: "u8 list \<Rightarrow> 'a::len word" where
  "le_word [] = 0"
| "le_word (b # bs) = ucast b OR push_bit 8 (le_word bs)"

definition le_bytes :: "nat \<Rightarrow> 'a::len word \<Rightarrow> u8 list" where
  "le_bytes n w = map (\<lambda>i. ucast (drop_bit (8 * i) w)) [0..<n]"

lemma length_le_bytes [simp]: "length (le_bytes n w) = n"
  by (simp add: le_bytes_def)

lemma nth_le_bytes [simp]: "i < n \<Longrightarrow> le_bytes n w ! i = ucast (drop_bit (8 * i) w)"
  by (simp add: le_bytes_def)

lemma bit_le_word:
  "bit (le_word bs :: 'a::len word) k \<longleftrightarrow>
     k < LENGTH('a) \<and> k div 8 < length bs \<and> bit (bs ! (k div 8)) (k mod 8)"
proof (induction bs arbitrary: k)
  case Nil
  then show ?case by simp
next
  case (Cons b bs)
  show ?case
  proof (cases "k < 8")
    case True
    then show ?thesis
      by (auto simp: bit_or_iff bit_push_bit_iff bit_ucast_iff)
  next
    case False
    then have "k div 8 = Suc ((k - 8) div 8)" and "(k - 8) mod 8 = k mod 8"
      by (simp_all add: le_div_geq le_mod_geq)
    moreover have "\<not> bit b k"
      using False bit_imp_le_length [of b k] by auto
    ultimately show ?thesis
      using False Cons.IH [of "k - 8"]
      by (auto simp: bit_or_iff bit_push_bit_iff bit_ucast_iff)
  qed
qed

lemma le_word_le_bytes:
  assumes "LENGTH('a) \<le> 8 * n"
  shows "le_word (le_bytes n w) = (w :: 'a::len word)"
proof (rule bit_word_eqI)
  fix k assume k: "k < LENGTH('a)"
  then have "k div 8 < n" using assms by auto
  moreover have "8 * (k div 8) + k mod 8 = k" by simp
  ultimately show "bit (le_word (le_bytes n w) :: 'a word) k \<longleftrightarrow> bit w k"
    using k by (simp add: bit_le_word bit_ucast_iff bit_drop_bit_eq)
qed

lemma le_bytes_le_word:
  assumes "8 * length bs \<le> LENGTH('a)"
  shows "le_bytes (length bs) (le_word bs :: 'a::len word) = bs"
proof (rule nth_equalityI)
  fix i assume "i < length (le_bytes (length bs) (le_word bs :: 'a word))"
  then have i: "i < length bs" by simp
  show "le_bytes (length bs) (le_word bs :: 'a word) ! i = bs ! i"
  proof (rule bit_word_eqI)
    fix k assume k: "k < LENGTH(8)"
    have "(8 * i + k) div 8 = i" "(8 * i + k) mod 8 = k" using k by auto
    moreover have "8 * i + k < LENGTH('a)" using i k assms by simp
    ultimately show "bit (le_bytes (length bs) (le_word bs :: 'a word) ! i) k \<longleftrightarrow> bit (bs ! i) k"
      using i k by (simp add: bit_ucast_iff bit_drop_bit_eq bit_le_word)
  qed
qed simp

section \<open>Records inside byte buffers\<close>

text \<open>
  A C structure laid over a buffer is read and written at byte offsets: \<open>splice\<close> overwrites a
  part of a buffer, \<open>get32\<close> and \<open>put32\<close> access a 32-bit field.
\<close>

definition slice :: "nat \<Rightarrow> nat \<Rightarrow> 'a list \<Rightarrow> 'a list" where
  "slice off n d = take n (drop off d)"

definition splice :: "nat \<Rightarrow> 'a list \<Rightarrow> 'a list \<Rightarrow> 'a list" where
  "splice off bs d = take off d @ bs @ drop (off + length bs) d"

definition get32 :: "nat \<Rightarrow> u8 list \<Rightarrow> u32" where
  "get32 off d = le_word (slice off 4 d)"

definition put32 :: "nat \<Rightarrow> u32 \<Rightarrow> u8 list \<Rightarrow> u8 list" where
  "put32 off v d = splice off (le_bytes 4 v) d"

definition get16 :: "nat \<Rightarrow> u8 list \<Rightarrow> u16" where
  "get16 off d = le_word (slice off 2 d)"

definition put16 :: "nat \<Rightarrow> u16 \<Rightarrow> u8 list \<Rightarrow> u8 list" where
  "put16 off v d = splice off (le_bytes 2 v) d"

lemma length_splice [simp]: "off + length bs \<le> length d \<Longrightarrow> length (splice off bs d) = length d"
  by (simp add: splice_def)

lemma length_put [simp]:
  "off + 4 \<le> length d \<Longrightarrow> length (put32 off v d) = length d"
  "off + 2 \<le> length d \<Longrightarrow> length (put16 off w d) = length d"
  by (simp_all add: put32_def put16_def)

lemma slice_splice_same: "off + length bs \<le> length d \<Longrightarrow> slice off (length bs) (splice off bs d) = bs"
  by (simp add: slice_def splice_def)

lemma nth_splice:
  "off + length bs \<le> length d \<Longrightarrow> i < length d \<Longrightarrow>
     splice off bs d ! i = (if off \<le> i \<and> i < off + length bs then bs ! (i - off) else d ! i)"
  by (auto simp: splice_def nth_append min_def)

lemma slice_splice_other:
  assumes "off + length bs \<le> length d" "o2 + n \<le> length d" "o2 + n \<le> off \<or> off + length bs \<le> o2"
  shows "slice o2 n (splice off bs d) = slice o2 n d"
proof (rule nth_equalityI)
  show "length (slice o2 n (splice off bs d)) = length (slice o2 n d)"
    using assms by (simp add: slice_def)
  fix i assume "i < length (slice o2 n (splice off bs d))"
  then have "i < n" by (simp add: slice_def)
  then show "slice o2 n (splice off bs d) ! i = slice o2 n d ! i"
    using assms by (auto simp: slice_def nth_splice)
qed

lemma get32_put32_same: "off + 4 \<le> length d \<Longrightarrow> get32 off (put32 off v d) = v"
  using slice_splice_same [of off "le_bytes 4 v" d]
  by (simp add: get32_def put32_def le_word_le_bytes)

lemma get16_put16_same: "off + 2 \<le> length d \<Longrightarrow> get16 off (put16 off v d) = v"
  using slice_splice_same [of off "le_bytes 2 v" d]
  by (simp add: get16_def put16_def le_word_le_bytes)

lemma get32_put32_other:
  "off + 4 \<le> length d \<Longrightarrow> o2 + 4 \<le> length d \<Longrightarrow> o2 + 4 \<le> off \<or> off + 4 \<le> o2 \<Longrightarrow>
     get32 o2 (put32 off v d) = get32 o2 d"
  by (simp add: get32_def put32_def slice_splice_other)

end
