(* ===== verification/Memory.thy ===== *)
theory Memory
  imports Prelude
begin

text \<open>
  Physical memory as the kernel sees it (the kernel page table maps RAM one to one, so a
  kernel pointer is a physical address), loads and stores of bytes and 64-bit words, and
  the memory and string routines of \<^verbatim>\<open>kernel/string.c\<close>.  Pointers are 64-bit
  words, pointer arithmetic wraps, and each C loop is a recursion that performs the same
  byte accesses in the same order.
\<close>

type_synonym memory = "u64 \<Rightarrow> u8"

section \<open>Ranges, loads and stores\<close>

definition in_range :: "u64 \<Rightarrow> nat \<Rightarrow> u64 \<Rightarrow> bool" where
  "in_range a n x \<longleftrightarrow> unat (x - a) < n"

fun load_bytes :: "memory \<Rightarrow> u64 \<Rightarrow> nat \<Rightarrow> u8 list" where
  "load_bytes m a 0 = []"
| "load_bytes m a (Suc n) = m a # load_bytes m (a + 1) n"

fun store_bytes :: "memory \<Rightarrow> u64 \<Rightarrow> u8 list \<Rightarrow> memory" where
  "store_bytes m a [] = m"
| "store_bytes m a (b # bs) = store_bytes (m(a := b)) (a + 1) bs"

definition load64 :: "memory \<Rightarrow> u64 \<Rightarrow> u64" where
  "load64 m a = le_word (load_bytes m a 8)"

definition store64 :: "memory \<Rightarrow> u64 \<Rightarrow> u64 \<Rightarrow> memory" where
  "store64 m a v = store_bytes m a (le_bytes 8 v)"

section \<open>kernel/string.c\<close>

text \<open>\<^verbatim>\<open>memset\<close>: the loop writes \<open>dst[i]\<close> for the \<open>k\<close> indices from \<open>i\<close> on.\<close>

fun memset_from :: "u64 \<Rightarrow> u8 \<Rightarrow> u64 \<Rightarrow> nat \<Rightarrow> memory \<Rightarrow> memory" where
  "memset_from dst c i 0 m = m"
| "memset_from dst c i (Suc k) m = memset_from dst c (i + 1) k (m(dst + i := c))"

definition memset :: "u64 \<Rightarrow> u8 \<Rightarrow> nat \<Rightarrow> memory \<Rightarrow> memory" where
  "memset dst c n m = memset_from dst c 0 n m"

fun memcmp :: "memory \<Rightarrow> u64 \<Rightarrow> u64 \<Rightarrow> nat \<Rightarrow> int" where
  "memcmp m s1 s2 0 = 0"
| "memcmp m s1 s2 (Suc n) =
     (if m s1 \<noteq> m s2 then uint (m s1) - uint (m s2) else memcmp m (s1 + 1) (s2 + 1) n)"

fun move_down :: "u64 \<Rightarrow> u64 \<Rightarrow> nat \<Rightarrow> memory \<Rightarrow> memory" where
  "move_down d s 0 m = m"
| "move_down d s (Suc n) m = move_down (d - 1) (s - 1) n (m(d - 1 := m (s - 1)))"

fun move_up :: "u64 \<Rightarrow> u64 \<Rightarrow> nat \<Rightarrow> memory \<Rightarrow> memory" where
  "move_up d s 0 m = m"
| "move_up d s (Suc n) m = move_up (d + 1) (s + 1) n (m(d := m s))"

definition memmove :: "u64 \<Rightarrow> u64 \<Rightarrow> nat \<Rightarrow> memory \<Rightarrow> memory" where
  "memmove dst src n m =
     (if n = 0 then m
      else if src < dst \<and> src + of_nat n > dst
      then move_down (dst + of_nat n) (src + of_nat n) n m
      else move_up dst src n m)"

definition memcpy :: "u64 \<Rightarrow> u64 \<Rightarrow> nat \<Rightarrow> memory \<Rightarrow> memory" where
  "memcpy dst src n m = memmove dst src n m"

text \<open>
  \<^verbatim>\<open>strncmp\<close>: the loop stops at \<open>n = 0\<close>, at a NUL of \<open>p\<close> or at the first
  difference; the result is the difference of the two bytes read as \<^verbatim>\<open>uchar\<close>.
\<close>

fun strncmp :: "memory \<Rightarrow> u64 \<Rightarrow> u64 \<Rightarrow> nat \<Rightarrow> int" where
  "strncmp m p q 0 = 0"
| "strncmp m p q (Suc n) =
     (if m p \<noteq> 0 \<and> m p = m q then strncmp m (p + 1) (q + 1) n
      else uint (m p) - uint (m q))"

fun zero_fill :: "u64 \<Rightarrow> nat \<Rightarrow> memory \<Rightarrow> memory" where
  "zero_fill s 0 m = m"
| "zero_fill s (Suc n) m = zero_fill (s + 1) n (m(s := 0))"

text \<open>
  \<^verbatim>\<open>strncpy(s, t, n)\<close>: the first loop copies up to and including a NUL, the second
  pads with NULs; a non-positive \<open>n\<close> writes nothing.
\<close>

fun strncpy_loop :: "u64 \<Rightarrow> u64 \<Rightarrow> nat \<Rightarrow> memory \<Rightarrow> memory" where
  "strncpy_loop s t 0 m = m"
| "strncpy_loop s t (Suc n) m =
     (let c = m t; m' = m(s := c)
      in if c \<noteq> 0 then strncpy_loop (s + 1) (t + 1) n m' else zero_fill (s + 1) n m')"

definition strncpy :: "u64 \<Rightarrow> u64 \<Rightarrow> int \<Rightarrow> memory \<Rightarrow> memory" where
  "strncpy s t n m = strncpy_loop s t (nat n) m"

text \<open>
  \<^verbatim>\<open>safestrcpy(s, t, n)\<close>: at most \<open>n - 1\<close> bytes are copied; the final store
  terminates the string (after a copied NUL it writes one byte further).
\<close>

fun safestrcpy_loop :: "u64 \<Rightarrow> u64 \<Rightarrow> nat \<Rightarrow> memory \<Rightarrow> memory" where
  "safestrcpy_loop s t 0 m = m(s := 0)"
| "safestrcpy_loop s t (Suc n) m =
     (let c = m t; m' = m(s := c)
      in if c \<noteq> 0 then safestrcpy_loop (s + 1) (t + 1) n m' else m'(s + 1 := 0))"

definition safestrcpy :: "u64 \<Rightarrow> u64 \<Rightarrow> int \<Rightarrow> memory \<Rightarrow> memory" where
  "safestrcpy s t n m = (if n \<le> 0 then m else safestrcpy_loop s t (nat (n - 1)) m)"

text \<open>\<^verbatim>\<open>strlen\<close> runs until it meets a NUL; on a memory without one it never returns.\<close>

partial_function (option) strlen_from :: "memory \<Rightarrow> u64 \<Rightarrow> nat \<Rightarrow> nat option" where
  "strlen_from m s n = (if m (s + of_nat n) = 0 then Some n else strlen_from m s (Suc n))"

definition strlen :: "memory \<Rightarrow> u64 \<Rightarrow> nat option" where
  "strlen m s = strlen_from m s 0"

section \<open>Facts on ranges, loads and stores\<close>

lemma unat_minus_one_Suc:
  "x \<noteq> a \<Longrightarrow> unat (x - a) = Suc (unat (x - (a + 1)))" for x a :: "'a::len word"
proof -
  assume "x \<noteq> a"
  then have "x - a \<noteq> 0" by simp
  then have "unat (x - a - 1) = unat (x - a) - 1" by (rule unat_minus_one)
  moreover have "0 < unat (x - a)" using \<open>x - a \<noteq> 0\<close> by (simp add: unat_gt_0)
  ultimately show ?thesis by (simp add: algebra_simps)
qed

lemma in_range_0 [simp]: "\<not> in_range a 0 x"
  by (simp add: in_range_def)

lemma in_range_Suc:
  assumes "n < 2 ^ 64"
  shows "in_range a (Suc n) x \<longleftrightarrow> x = a \<or> in_range (a + 1) n x"
proof (cases "x = a")
  case False
  then show ?thesis using unat_minus_one_Suc [OF False] by (simp add: in_range_def)
qed (simp add: in_range_def)

lemma not_in_range_before: "n < 2 ^ 64 \<Longrightarrow> \<not> in_range (a + 1) n a"
  by (simp add: in_range_def unsigned_minus_1_eq_mask mask_eq_exp_minus_1)

lemma store_bytes_apply [mem_simps]:
  "length bs \<le> 2 ^ 64 \<Longrightarrow>
     store_bytes m a bs x = (if in_range a (length bs) x then bs ! unat (x - a) else m x)"
proof (induction bs arbitrary: m a)
  case Nil
  then show ?case by simp
next
  case (Cons b bs)
  then have len: "length bs < 2 ^ 64" by simp
  show ?case
  proof (cases "x = a")
    case True
    then show ?thesis
      using Cons len not_in_range_before [OF len, of a] by (simp add: in_range_Suc)
  next
    case False
    then show ?thesis
      using Cons len unat_minus_one_Suc [OF False] by (simp add: in_range_Suc)
  qed
qed

lemma load_bytes_conv: "load_bytes m a n = map (\<lambda>i. m (a + of_nat i)) [0..<n]"
proof (induction n arbitrary: a)
  case (Suc n)
  have "[0..<Suc n] = 0 # map Suc [0..<n]" by (simp add: map_Suc_upt upt_conv_Cons)
  then show ?case using Suc by (simp add: algebra_simps o_def)
qed simp

lemma length_load_bytes [simp]: "length (load_bytes m a n) = n"
  by (simp add: load_bytes_conv)

lemma nth_load_bytes [simp]: "i < n \<Longrightarrow> load_bytes m a n ! i = m (a + of_nat i)"
  by (simp add: load_bytes_conv)

lemma in_range_offset:
  "i < n \<Longrightarrow> n \<le> 2 ^ 64 \<Longrightarrow> in_range a n (a + of_nat i)"
  by (simp add: in_range_def unat_of_nat take_bit_nat_eq_self)

lemma load_bytes_cong:
  "(\<And>x. in_range a n x \<Longrightarrow> m x = m' x) \<Longrightarrow> n \<le> 2 ^ 64 \<Longrightarrow> load_bytes m a n = load_bytes m' a n"
  by (auto simp: load_bytes_conv in_range_offset)

lemma load_store_bytes:
  "length bs \<le> 2 ^ 64 \<Longrightarrow> load_bytes (store_bytes m a bs) a (length bs) = bs"
  by (rule nth_equalityI)
     (simp_all add: store_bytes_apply in_range_offset unat_of_nat take_bit_nat_eq_self)

lemma store_load_bytes:
  "n \<le> 2 ^ 64 \<Longrightarrow> store_bytes m a (load_bytes m a n) = m"
  by (rule ext) (auto simp: store_bytes_apply in_range_def)

definition ranges_disjoint :: "u64 \<Rightarrow> nat \<Rightarrow> u64 \<Rightarrow> nat \<Rightarrow> bool" where
  "ranges_disjoint a n b k \<longleftrightarrow> (\<forall>x. \<not> (in_range a n x \<and> in_range b k x))"

lemma load64_store64_same [mem_simps]: "load64 (store64 m a v) a = v"
proof -
  have "load_bytes (store_bytes m a (le_bytes 8 v)) a (length (le_bytes 8 v)) = le_bytes 8 v"
    by (rule load_store_bytes) simp
  then show ?thesis
    unfolding load64_def store64_def by (simp add: le_word_le_bytes)
qed

lemma load64_cong:
  "(\<And>x. in_range a 8 x \<Longrightarrow> m x = m' x) \<Longrightarrow> load64 m a = load64 m' a"
  unfolding load64_def by (simp add: load_bytes_cong [of a 8 m m'])

lemma store64_other [mem_simps]: "\<not> in_range a 8 x \<Longrightarrow> store64 m a v x = m x"
  by (simp add: store64_def store_bytes_apply)

lemma load64_store64_disjoint:
  "ranges_disjoint a 8 b 8 \<Longrightarrow> load64 (store64 m a v) b = load64 m b"
  by (rule load64_cong, rule store64_other) (auto simp: ranges_disjoint_def)

subsection \<open>Aligned blocks\<close>

definition aligned :: "nat \<Rightarrow> u64 \<Rightarrow> bool" where
  "aligned k a \<longleftrightarrow> a AND mask k = 0"

lemma word_split_mask: "x = (x AND NOT (mask k)) + (x AND mask k)" for x :: "'a::len word"
proof -
  have "(x AND NOT (mask k)) + (x AND mask k) = (x AND NOT (mask k)) OR (x AND mask k)"
    by (rule disjunctive_add_eq_or) (auto intro!: bit_word_eqI simp: bit_simps)
  also have "\<dots> = x" by (auto intro!: bit_word_eqI simp: bit_simps)
  finally show ?thesis by simp
qed

lemma take_bit_small_unat: "unat y < 2 ^ k \<Longrightarrow> take_bit k y = y" for y :: "'a::len word"
  by (rule word_unat_eq_iff [THEN iffD2]) (simp add: unsigned_take_bit_eq take_bit_nat_eq_self)

lemma bit_below_unat: "unat y < 2 ^ k \<Longrightarrow> bit y n \<Longrightarrow> n < k" for y :: "'a::len word"
  using take_bit_small_unat [of y k] by (metis bit_take_bit_iff)

lemma aligned_low_bit: "aligned k a \<Longrightarrow> n < k \<Longrightarrow> \<not> bit a n"
proof
  assume "aligned k a" "n < k" "bit a n"
  then have "bit (a AND mask k) n"
    using bit_imp_le_length [of a n] by (simp add: bit_simps)
  then show False using \<open>aligned k a\<close> by (simp add: aligned_def)
qed

lemma in_range_aligned:
  assumes "aligned k a"
  shows "in_range a (2 ^ k) x \<longleftrightarrow> x AND NOT (mask k) = a"
proof
  assume "x AND NOT (mask k) = a"
  then have "x - a = x AND mask k"
    using word_split_mask [of x k] by (metis add_diff_cancel_left')
  then have "x - a = take_bit k x" by (simp add: take_bit_eq_mask)
  then show "in_range a (2 ^ k) x"
    by (simp add: in_range_def unsigned_take_bit_eq)
next
  assume "in_range a (2 ^ k) x"
  define y where "y = x - a"
  have "unat y < 2 ^ k" using \<open>in_range a (2 ^ k) x\<close> by (simp add: in_range_def y_def)
  then have y: "take_bit k y = y" by (rule take_bit_small_unat)
  have a: "\<And>n. n < k \<Longrightarrow> \<not> bit a n" using assms by (rule aligned_low_bit)
  have yb: "\<And>n. bit y n \<Longrightarrow> n < k" using y by (metis bit_take_bit_iff)
  have "a AND y = 0" using a yb by (auto intro!: bit_word_eqI simp: bit_simps)
  then have "x = a OR y"
    using disjunctive_add_eq_or [of a y] by (simp add: y_def)
  then show "x AND NOT (mask k) = a"
    using a yb by (auto intro!: bit_word_eqI simp: bit_simps)
qed
section \<open>Correctness of the string routines\<close>

lemma memset_from_apply:
  "n \<le> 2 ^ 64 \<Longrightarrow>
     memset_from dst c i n m x = (if in_range (dst + i) n x then c else m x)"
proof (induction n arbitrary: i m)
  case (Suc n)
  then show ?case
    using not_in_range_before [of n "dst + i"]
    by (auto simp: in_range_Suc add.assoc)
qed simp

lemma memset_apply [mem_simps]:
  "n \<le> 2 ^ 64 \<Longrightarrow> memset dst c n m x = (if in_range dst n x then c else m x)"
  by (simp add: memset_def memset_from_apply)

lemma move_up_apply:
  "n < 2 ^ 64 \<Longrightarrow> d = s \<or> n \<le> unat (d - s) \<Longrightarrow>
     move_up d s n m x = (if in_range d n x then m (s + (x - d)) else m x)"
proof (induction n arbitrary: d s m)
  case (Suc n)
  let ?m = "m(d := m s)"
  have n: "n < 2 ^ 64" using Suc.prems by simp
  have addr: "s + 1 + (x - (d + 1)) = s + (x - d)" by simp
  have "d + 1 = s + 1 \<or> n \<le> unat ((d + 1) - (s + 1))" using Suc.prems by auto
  then have IH: "move_up (d + 1) (s + 1) n ?m x =
      (if in_range (d + 1) n x then ?m (s + (x - d)) else ?m x)"
    using Suc.IH [OF n, of "d + 1" "s + 1" ?m] addr by (simp only:)
  have "s + (x - d) \<noteq> d" if r: "in_range (d + 1) n x"
  proof
    assume eq: "s + (x - d) = d"
    have ne: "x \<noteq> d" using r not_in_range_before [OF n, of d] by auto
    have "x - d = d - s" using eq by (metis add_diff_cancel_left')
    moreover have "unat (x - d) \<le> n"
      using r unat_minus_one_Suc [OF ne] by (simp add: in_range_def)
    ultimately show False using Suc.prems ne by auto
  qed
  then show ?case
    using IH not_in_range_before [OF n, of d] in_range_Suc [OF n, of d x] by auto
qed simp

lemma in_range_Suc_end:
  assumes "n < 2 ^ 64"
  shows "in_range (e - 1 - of_nat n) (Suc n) x \<longleftrightarrow> x = e - 1 \<or> in_range (e - 1 - of_nat n) n x"
proof -
  let ?a = "e - 1 - of_nat n"
  have "unat (of_nat n :: u64) = n"
    using assms by (simp add: unat_of_nat take_bit_nat_eq_self)
  then have "unat (x - ?a) = n \<longleftrightarrow> x - ?a = of_nat n"
    by (metis word_unat_eq_iff)
  also have "\<dots> \<longleftrightarrow> x = e - 1" by (auto simp: algebra_simps)
  finally show ?thesis by (auto simp: in_range_def less_Suc_eq)
qed

lemma move_down_apply:
  "n < 2 ^ 64 \<Longrightarrow> d = s \<or> n \<le> unat (s - d) \<Longrightarrow>
     move_down d s n m x = (if in_range (d - of_nat n) n x then m (s + (x - d)) else m x)"
proof (induction n arbitrary: d s m)
  case (Suc n)
  let ?m = "m(d - 1 := m (s - 1))" and ?a = "d - 1 - of_nat n"
  have n: "n < 2 ^ 64" using Suc.prems by simp
  have addr: "s - 1 + (x - (d - 1)) = s + (x - d)" by simp
  have "d - 1 = s - 1 \<or> n \<le> unat ((s - 1) - (d - 1))" using Suc.prems by auto
  then have IH: "move_down (d - 1) (s - 1) n ?m x =
      (if in_range ?a n x then ?m (s + (x - d)) else ?m x)"
    using Suc.IH [OF n, of "d - 1" "s - 1" ?m] addr by (simp only:)
  have out: "\<not> in_range ?a n (d - 1)"
    using n by (simp add: in_range_def unat_of_nat take_bit_nat_eq_self)
  have "s + (x - d) \<noteq> d - 1" if r: "in_range ?a n x"
  proof
    assume eq: "s + (x - d) = d - 1"
    have ne: "x \<noteq> d - 1" using r out by auto
    define k where "k = unat (x - ?a)"
    have k: "k < n" using r by (simp add: k_def in_range_def)
    have "x = ?a + of_nat k" by (simp add: k_def)
    moreover have "s = d - 1 - (x - d)" using eq by (simp add: algebra_simps)
    ultimately have "s - d = of_nat n - of_nat k" by simp
    then have "s - d = of_nat (n - k)" using k by (simp add: of_nat_diff)
    then have "unat (s - d) = n - k"
      using n by (simp add: unat_of_nat take_bit_nat_eq_self)
    then show False using Suc.prems k by auto
  qed
  moreover have "in_range (d - of_nat (Suc n)) (Suc n) x \<longleftrightarrow> x = d - 1 \<or> in_range ?a n x"
    using in_range_Suc_end [OF n, of d x] by (simp add: algebra_simps)
  moreover have "s + (d - 1 - d) = s - 1" by simp
  ultimately show ?case using IH out by auto
qed simp
lemma memmove_apply:
  assumes s: "unat src + n < 2 ^ 64" and d: "unat dst + n < 2 ^ 64"
  shows "memmove dst src n m x = (if in_range dst n x then m (src + (x - dst)) else m x)"
proof -
  have n: "n < 2 ^ 64" using s by simp
  have add: "unat (src + of_nat n) = unat src + n"
    using s by (simp add: unat_word_ariths unat_of_nat take_bit_nat_eq_self n)
  have diff: "unat (a - b) = unat a - unat b" if "b \<le> a" for a b :: u64
    using that by (simp add: unat_sub)
  have wrap: "unat (a - b) = 2 ^ 64 + unat a - unat b" if "a < b" for a b :: u64
    using that by (simp add: unat_sub_if_size word_less_nat_alt word_size)
  show ?thesis
  proof (cases "src < dst \<and> src + of_nat n > dst")
    case True
    then have "n \<le> unat ((src + of_nat n) - (dst + of_nat n))"
      using wrap [of src dst] d by (simp add: word_less_nat_alt)
    then show ?thesis
      using True move_down_apply [OF n, of "dst + of_nat n" "src + of_nat n" m x]
      by (auto simp: memmove_def)
  next
    case False
    then consider "dst \<le> src" | "src < dst" "src + of_nat n \<le> dst" by force
    then have "dst = src \<or> n \<le> unat (dst - src)"
    proof cases
      case 1
      then show ?thesis using wrap [of dst src] s order_le_imp_less_or_eq [of dst src] by auto
    next
      case 2
      then show ?thesis using diff [of src dst] add by (auto simp: word_le_nat_alt)
    qed
    then show ?thesis
      using False move_up_apply [OF n, of dst src m x] by (auto simp: memmove_def)
  qed
qed


lemma memmove_load:
  assumes "unat src + n < 2 ^ 64" "unat dst + n < 2 ^ 64"
  shows "load_bytes (memmove dst src n m) dst n = load_bytes m src n"
proof -
  have "n \<le> 2 ^ 64" using assms by simp
  then show ?thesis
    by (intro nth_equalityI) (simp_all add: memmove_apply [OF assms] in_range_offset)
qed

text \<open>The C string at \<open>p\<close>, cut off at \<open>n\<close> bytes.\<close>

fun cstr :: "memory \<Rightarrow> u64 \<Rightarrow> nat \<Rightarrow> u8 list" where
  "cstr m p 0 = []"
| "cstr m p (Suc n) = (if m p = 0 then [] else m p # cstr m (p + 1) n)"

lemma length_cstr: "length (cstr m p n) \<le> n"
  by (induction n arbitrary: p) auto

lemma strncmp_zero_iff: "strncmp m p q n = 0 \<longleftrightarrow> cstr m p n = cstr m q n"
proof (induction n arbitrary: p q)
  case (Suc n)
  have "uint (m p) = uint (m q) \<longleftrightarrow> m p = m q" by (simp add: word_uint_eq_iff)
  then show ?case using Suc.IH [of "p + 1" "q + 1"] by auto
qed simp

lemma memcmp_zero_iff: "memcmp m p q n = 0 \<longleftrightarrow> load_bytes m p n = load_bytes m q n"
proof (induction n arbitrary: p q)
  case (Suc n)
  have "uint (m p) = uint (m q) \<longleftrightarrow> m p = m q" by (simp add: word_uint_eq_iff)
  then show ?case using Suc.IH [of "p + 1" "q + 1"] by auto
qed simp

lemma strlen_from_found:
  "m (s + of_nat (n + k)) = 0 \<Longrightarrow> (\<And>j. j < k \<Longrightarrow> m (s + of_nat (n + j)) \<noteq> 0) \<Longrightarrow>
     strlen_from m s n = Some (n + k)"
proof (induction k arbitrary: n)
  case 0
  then show ?case by (simp add: strlen_from.simps [of m s n])
next
  case (Suc k)
  have ne: "m (s + of_nat n) \<noteq> 0" using Suc.prems(2) [of 0] by simp
  have "strlen_from m s (Suc n) = Some (Suc n + k)"
  proof (rule Suc.IH)
    show "m (s + of_nat (Suc n + k)) = 0" using Suc.prems(1) by simp
    show "m (s + of_nat (Suc n + j)) \<noteq> 0" if "j < k" for j
      using Suc.prems(2) [of "Suc j"] that by simp
  qed
  then show ?case using ne by (simp add: strlen_from.simps [of m s n])
qed

lemma strlen_least:
  assumes "m (s + of_nat n) = 0"
  shows "strlen m s = Some (LEAST k. m (s + of_nat k) = 0)"
proof -
  let ?k = "LEAST k. m (s + of_nat k) = 0"
  have "m (s + of_nat ?k) = 0" using assms by (rule LeastI)
  moreover have "\<And>j. j < ?k \<Longrightarrow> m (s + of_nat j) \<noteq> 0" by (rule not_less_Least)
  ultimately show ?thesis
    using strlen_from_found [of m s 0 ?k] by (simp add: strlen_def)
qed

lemma zero_fill_apply:
  "n \<le> 2 ^ 64 \<Longrightarrow> zero_fill s n m x = (if in_range s n x then 0 else m x)"
proof (induction n arbitrary: s m)
  case (Suc n)
  then show ?case using in_range_Suc [of n s x] not_in_range_before [of n s] by auto
qed simp

lemma safestrcpy_loop_spec:
  assumes "n < 2 ^ 32" "ranges_disjoint s (Suc n) t n"
  shows "\<exists>k \<le> n. safestrcpy_loop s t n m (s + of_nat k) = 0
     \<and> (\<forall>i < k. safestrcpy_loop s t n m (s + of_nat i) = m (t + of_nat i) \<and> m (t + of_nat i) \<noteq> 0)
     \<and> (k < n \<longrightarrow> m (t + of_nat k) = 0)
     \<and> (\<forall>x. \<not> in_range s (Suc n) x \<longrightarrow> safestrcpy_loop s t n m x = m x)"
  using assms
proof (induction n arbitrary: s t m)
  case 0
  then show ?case by (auto simp: in_range_def)
next
  case (Suc n)
  let ?m = "m(s := m t)"
  have n: "n < 2 ^ 64" "Suc n < 2 ^ 64" "n < 2 ^ 32" using Suc.prems by auto
  have R: "in_range s (Suc (Suc n)) x \<longleftrightarrow> x = s \<or> in_range (s + 1) (Suc n) x" for x
    using n(2) by (rule in_range_Suc)
  have Rt: "in_range t (Suc n) x \<longleftrightarrow> x = t \<or> in_range (t + 1) n x" for x
    using n(1) by (rule in_range_Suc)
  have s_out: "\<not> in_range (s + 1) (Suc n) s" using n(2) by (rule not_in_range_before)
  show ?case
  proof (cases "m t = 0")
    case True
    have one: "in_range (s + 1) (Suc n) (s + 1)" by (simp add: in_range_def)
    have "safestrcpy_loop s t (Suc n) m = ?m(s + 1 := 0)" using True by (simp add: Let_def)
    then show ?thesis using True R one by (intro exI [of _ 0]) auto
  next
    case False
    have dis: "ranges_disjoint (s + 1) (Suc n) (t + 1) n"
      using Suc.prems(2) R Rt by (auto simp: ranges_disjoint_def)
    obtain k where k: "k \<le> n" "safestrcpy_loop (s + 1) (t + 1) n ?m (s + 1 + of_nat k) = 0"
      "\<And>i. i < k \<Longrightarrow> safestrcpy_loop (s + 1) (t + 1) n ?m (s + 1 + of_nat i) = ?m (t + 1 + of_nat i)
          \<and> ?m (t + 1 + of_nat i) \<noteq> 0"
      "k < n \<Longrightarrow> ?m (t + 1 + of_nat k) = 0"
      "\<And>x. \<not> in_range (s + 1) (Suc n) x \<Longrightarrow> safestrcpy_loop (s + 1) (t + 1) n ?m x = ?m x"
      using Suc.IH [OF n(3) dis, of ?m] by blast
    have eq: "safestrcpy_loop s t (Suc n) m = safestrcpy_loop (s + 1) (t + 1) n ?m"
      using False by (simp add: Let_def)
    have sep: "?m (t + 1 + of_nat i) = m (t + 1 + of_nat i)" if "i < n" for i
    proof -
      have "in_range (t + 1) n (t + 1 + of_nat i)" using that n by (simp add: in_range_offset)
      then have "t + 1 + of_nat i \<noteq> s"
        using Suc.prems(2) R Rt by (auto simp: ranges_disjoint_def)
      then show ?thesis by simp
    qed
    have "safestrcpy_loop s t (Suc n) m s = m t" using eq k(5) [OF s_out] by simp
    then have each: "safestrcpy_loop s t (Suc n) m (s + of_nat i) = m (t + of_nat i) \<and> m (t + of_nat i) \<noteq> 0"
      if "i < Suc k" for i
      using that False k(1) k(3) [of "i - 1"] sep [of "i - 1"] eq
      by (cases i) (auto simp: add.assoc)
    show ?thesis
      using k each sep [of k] eq R by (intro exI [of _ "Suc k"]) (auto simp: add.assoc)
  qed
qed


lemma load_bytes_numeral:
  "load_bytes m a (numeral k) = m a # load_bytes m (a + 1) (pred_numeral k)"
  by (simp add: numeral_eq_Suc)

section \<open>Properties\<close>

text \<open>
  C14 (overlapping moves). \<^verbatim>\<open>memmove\<close> leaves at the destination exactly the bytes the
  source range held before the call, however the two ranges overlap, and changes no byte
  outside the destination; the ranges only must not run past the end of the address space.
\<close>

theorem memmove_correct:
  assumes "unat src + n < 2 ^ 64" "unat dst + n < 2 ^ 64"
  shows "load_bytes (memmove dst src n m) dst n = load_bytes m src n
    \<and> (\<forall>x. \<not> in_range dst n x \<longrightarrow> memmove dst src n m x = m x)"
  using memmove_load [OF assms] memmove_apply [OF assms] by simp

theorem memmove_correct_witness:
  "load_bytes (memmove 0x102 0x100 4 (\<lambda>x. ucast x)) 0x102 4 = [0, 1, 2, 3]"
proof -
  have "load_bytes (\<lambda>x. ucast x) 0x100 4 = [0, 1, 2, 3]"
    by (simp add: load_bytes_numeral)
  then show ?thesis using memmove_correct [of "0x100" 4 "0x102" "\<lambda>x. ucast x"] by simp
qed

text \<open>
  C15 (safe string copy). With a positive size and disjoint buffers, \<^verbatim>\<open>safestrcpy\<close>
  writes at most \<open>n\<close> bytes, the destination then holds a NUL within its \<open>n\<close> bytes, the bytes
  before it are the non-NUL bytes of the source, and the copy is cut short only when the
  source does not fit.
\<close>

theorem safestrcpy_terminated:
  assumes "0 < n" "n \<le> 2 ^ 31 - 1" "ranges_disjoint s (nat n) t (nat n)"
  shows "\<exists>k < nat n. safestrcpy s t n m (s + of_nat k) = 0
    \<and> (\<forall>i < k. safestrcpy s t n m (s + of_nat i) = m (t + of_nat i) \<and> m (t + of_nat i) \<noteq> 0)
    \<and> (k < nat n - 1 \<longrightarrow> m (t + of_nat k) = 0)
    \<and> (\<forall>x. \<not> in_range s (nat n) x \<longrightarrow> safestrcpy s t n m x = m x)"
proof -
  define k where "k = nat (n - 1)"
  have k: "nat n = Suc k" "k < 2 ^ 32" using assms(1,2) by (auto simp: k_def)
  have "ranges_disjoint s (Suc k) t k"
    using assms(3) by (auto simp: ranges_disjoint_def in_range_def k(1))
  moreover have "safestrcpy s t n m = safestrcpy_loop s t k m"
    using assms(1) by (simp add: safestrcpy_def k_def)
  ultimately show ?thesis
    using safestrcpy_loop_spec [OF k(2), of s t m] by (simp add: k(1) less_Suc_eq_le)
qed

theorem safestrcpy_terminated_witness:
  "\<exists>k < 16. safestrcpy 0x100 0x200 16 (\<lambda>x. if x < 0x203 then 0x61 else 0) (0x100 + of_nat k) = 0"
proof -
  have "\<not> unat (x - 0x200) < 16" if "unat (x - 0x100) < 16" for x :: u64
    using that unat_sub_if_size [of "x - 0x100" "0x100"] by (simp add: word_size)
  then have "ranges_disjoint 0x100 (nat 16) 0x200 (nat 16)"
    by (auto simp: ranges_disjoint_def in_range_def)
  then show ?thesis
    using safestrcpy_terminated [of 16 "0x100" "0x200" "\<lambda>x. if x < 0x203 then 0x61 else 0"] by auto
qed

end
