(* ===== verification/Riscv.thy ===== *)
theory Riscv
  imports Memory
begin

text \<open>
  The constants and macros of \<^verbatim>\<open>kernel/riscv.h\<close>, \<^verbatim>\<open>kernel/memlayout.h\<close>
  and \<^verbatim>\<open>kernel/param.h\<close> that the kernel's own code computes with: page rounding,
  page-table entries, page-table indices and the memory layout.
\<close>

section \<open>Limits (param.h)\<close>

abbreviation (input) NPROC :: nat where "NPROC \<equiv> 64"
abbreviation (input) NCPU :: nat where "NCPU \<equiv> 8"
abbreviation (input) NOFILE :: nat where "NOFILE \<equiv> 16"
abbreviation (input) NFILE :: nat where "NFILE \<equiv> 100"
abbreviation (input) NINODE :: nat where "NINODE \<equiv> 50"
abbreviation (input) NDEV :: nat where "NDEV \<equiv> 10"
abbreviation (input) ROOTDEV :: u32 where "ROOTDEV \<equiv> 1"
abbreviation (input) MAXARG :: nat where "MAXARG \<equiv> 32"
abbreviation (input) MAXOPBLOCKS :: nat where "MAXOPBLOCKS \<equiv> 10"
abbreviation (input) LOGSIZE :: nat where "LOGSIZE \<equiv> MAXOPBLOCKS * 3"
abbreviation (input) NBUF :: nat where "NBUF \<equiv> MAXOPBLOCKS * 3"
abbreviation (input) FSSIZE :: nat where "FSSIZE \<equiv> 2000"
abbreviation (input) MAXPATH :: nat where "MAXPATH \<equiv> 128"
abbreviation (input) NQUEUE :: int where "NQUEUE \<equiv> 5"

section \<open>Pages and page-table entries (riscv.h)\<close>

abbreviation (input) PGSIZE :: u64 where "PGSIZE \<equiv> 4096"
abbreviation (input) PGSHIFT :: nat where "PGSHIFT \<equiv> 12"

definition PGROUNDUP :: "u64 \<Rightarrow> u64" where
  "PGROUNDUP sz = (sz + PGSIZE - 1) AND NOT (PGSIZE - 1)"

definition PGROUNDDOWN :: "u64 \<Rightarrow> u64" where
  "PGROUNDDOWN a = a AND NOT (PGSIZE - 1)"

abbreviation (input) PTE_V :: u64 where "PTE_V \<equiv> 1"
abbreviation (input) PTE_R :: u64 where "PTE_R \<equiv> 2"
abbreviation (input) PTE_W :: u64 where "PTE_W \<equiv> 4"
abbreviation (input) PTE_X :: u64 where "PTE_X \<equiv> 8"
abbreviation (input) PTE_U :: u64 where "PTE_U \<equiv> 16"
abbreviation (input) PTE_C :: u64 where "PTE_C \<equiv> 32"

definition PA2PTE :: "u64 \<Rightarrow> u64" where
  "PA2PTE pa = push_bit 10 (drop_bit 12 pa)"

definition PTE2PA :: "u64 \<Rightarrow> u64" where
  "PTE2PA pte = push_bit 12 (drop_bit 10 pte)"

definition PTE_FLAGS :: "u64 \<Rightarrow> u64" where
  "PTE_FLAGS pte = pte AND 0x3FF"

definition PXSHIFT :: "nat \<Rightarrow> nat" where
  "PXSHIFT level = PGSHIFT + 9 * level"

definition PX :: "nat \<Rightarrow> u64 \<Rightarrow> u64" where
  "PX level va = drop_bit (PXSHIFT level) va AND 0x1FF"

abbreviation (input) MAXVA :: u64 where "MAXVA \<equiv> 0x4000000000"

definition MAKE_SATP :: "u64 \<Rightarrow> u64" where
  "MAKE_SATP pagetable = push_bit 60 8 OR drop_bit 12 pagetable"

section \<open>Memory layout (memlayout.h)\<close>

abbreviation (input) KERNBASE :: u64 where "KERNBASE \<equiv> 0x80000000"
abbreviation (input) PHYSTOP :: u64 where "PHYSTOP \<equiv> 0x88000000"
abbreviation (input) TRAMPOLINE :: u64 where "TRAMPOLINE \<equiv> MAXVA - PGSIZE"
abbreviation (input) TRAPFRAME :: u64 where "TRAPFRAME \<equiv> TRAMPOLINE - PGSIZE"
abbreviation (input) UART0 :: u64 where "UART0 \<equiv> 0x10000000"
abbreviation (input) VIRTIO0 :: u64 where "VIRTIO0 \<equiv> 0x10001000"
abbreviation (input) PLIC :: u64 where "PLIC \<equiv> 0x0c000000"

definition KSTACK :: "nat \<Rightarrow> u64" where
  "KSTACK p = TRAMPOLINE - (of_nat p + 1) * 2 * PGSIZE"

section \<open>Facts on pages\<close>

abbreviation page_aligned :: "u64 \<Rightarrow> bool" where
  "page_aligned a \<equiv> aligned 12 a"

lemma mask_12: "(mask 12 :: u64) = 4095"
  by (simp add: mask_eq_exp_minus_1)

lemma page_aligned_iff_mod: "page_aligned a \<longleftrightarrow> a mod PGSIZE = 0"
  unfolding aligned_def using take_bit_eq_mod [of 12 a] by (simp add: take_bit_eq_mask)

lemma PGROUNDDOWN_mask: "PGROUNDDOWN a = a AND NOT (mask 12)"
  by (simp add: PGROUNDDOWN_def mask_12)

lemma PGROUNDDOWN_aligned [simp]: "page_aligned (PGROUNDDOWN a)"
  unfolding PGROUNDDOWN_mask aligned_def by (auto intro!: bit_word_eqI simp: bit_simps)

lemma PGROUNDDOWN_id: "page_aligned a \<Longrightarrow> PGROUNDDOWN a = a"
  using in_range_aligned [of 12 a a] by (simp add: PGROUNDDOWN_mask in_range_def)

lemma PGROUNDUP_aligned [simp]: "page_aligned (PGROUNDUP a)"
  using PGROUNDDOWN_aligned [of "a + 4096 - 1"] unfolding PGROUNDUP_def PGROUNDDOWN_def .

lemma in_page: "page_aligned p \<Longrightarrow> in_range p 4096 x \<longleftrightarrow> PGROUNDDOWN x = p"
  using in_range_aligned [of 12 p x] by (simp add: PGROUNDDOWN_mask)

lemma pages_disjoint:
  "page_aligned p \<Longrightarrow> page_aligned q \<Longrightarrow> p \<noteq> q \<Longrightarrow> in_range p 4096 x \<Longrightarrow> \<not> in_range q 4096 x"
  by (simp add: in_page)

lemma in_range_mono: "n \<le> k \<Longrightarrow> in_range p n x \<Longrightarrow> in_range p k x"
  by (simp add: in_range_def)

lemma PGROUNDDOWN_le: "PGROUNDDOWN a \<le> a"
  unfolding PGROUNDDOWN_mask by (simp add: word_and_le2)

lemma PTE2PA_PA2PTE:
  assumes "page_aligned pa" "pa < 2 ^ 56" "f < 1024"
  shows "PTE2PA (PA2PTE pa OR f) = pa"
proof (rule bit_word_eqI)
  fix n assume n: "n < LENGTH(64)"
  have low: "n < 12 \<Longrightarrow> \<not> bit pa n" using assms(1) by (rule aligned_low_bit)
  have pb: "bit pa k \<Longrightarrow> k < 56" for k
    by (rule bit_below_unat) (use assms(2) in \<open>simp_all add: word_less_nat_alt\<close>)
  have fb: "bit f k \<Longrightarrow> k < 10" for k
    by (rule bit_below_unat) (use assms(3) in \<open>simp_all add: word_less_nat_alt\<close>)
  show "bit (PTE2PA (PA2PTE pa OR f)) n \<longleftrightarrow> bit pa n"
  proof (cases "n < 12")
    case True
    then show ?thesis using low by (simp add: PTE2PA_def bit_simps)
  next
    case False
    then have "10 + (n - 12) = n - 2" "12 + (n - 12) = n" by simp_all
    then show ?thesis
      using False n pb [of n] fb [of "n - 2"] by (auto simp: PTE2PA_def PA2PTE_def bit_simps)
  qed
qed

lemma PTE_FLAGS_PA2PTE:
  assumes "f < 1024"
  shows "PTE_FLAGS (PA2PTE pa OR f) = f"
proof (rule bit_word_eqI)
  fix n assume n: "n < LENGTH(64)"
  have fb: "bit f n \<Longrightarrow> n < 10"
    by (rule bit_below_unat) (use assms in \<open>simp_all add: word_less_nat_alt\<close>)
  have m: "(0x3FF :: u64) = mask 10" by (simp add: mask_eq_exp_minus_1)
  show "bit (PTE_FLAGS (PA2PTE pa OR f)) n \<longleftrightarrow> bit f n"
    using n fb by (auto simp: PTE_FLAGS_def PA2PTE_def m bit_simps)
qed

lemma PX_less: "unat (PX level va) < 512"
proof -
  have "PX level va \<le> 0x1FF" unfolding PX_def by (rule word_and_le1)
  then show ?thesis by (simp add: word_le_nat_alt)
qed

text \<open>The three indices determine a page-aligned address below \<^term>\<open>MAXVA\<close>.\<close>

lemma PX_inject:
  assumes "page_aligned a" "page_aligned b" "a < 2 ^ 39" "b < 2 ^ 39"
    and "PX 0 a = PX 0 b" "PX 1 a = PX 1 b" "PX 2 a = PX 2 b"
  shows "a = b"
proof (rule bit_word_eqI)
  fix n assume n: "n < LENGTH(64)"
  have m: "(0x1FF :: u64) = mask 9" by (simp add: mask_eq_exp_minus_1)
  have px: "bit (PX l c) k \<longleftrightarrow> k < 9 \<and> bit c (12 + 9 * l + k)" for l c k
    using bit_imp_le_length [of c "12 + 9 * l + k"]
    by (auto simp: PX_def PXSHIFT_def m bit_simps)
  have hi: "bit c k \<Longrightarrow> k < 39" if "c < 2 ^ 39" for c :: u64 and k
    by (rule bit_below_unat) (use that in \<open>simp_all add: word_less_nat_alt\<close>)
  consider "n < 12" | "12 \<le> n" "n < 21" | "21 \<le> n" "n < 30" | "30 \<le> n" "n < 39" | "39 \<le> n"
    by linarith
  then show "bit a n \<longleftrightarrow> bit b n"
  proof cases
    case 1
    then show ?thesis using aligned_low_bit assms(1,2) by blast
  next
    case 2
    then show ?thesis using px [of 0 a "n - 12"] px [of 0 b "n - 12"] assms(5) by auto
  next
    case 3
    then show ?thesis using px [of 1 a "n - 21"] px [of 1 b "n - 21"] assms(6) by auto
  next
    case 4
    then show ?thesis using px [of 2 a "n - 30"] px [of 2 b "n - 30"] assms(7) by auto
  next
    case 5
    then show ?thesis using hi assms(3,4) by (meson leD)
  qed
qed

lemma unat_PGROUNDDOWN: "unat (PGROUNDDOWN a) = unat a - unat a mod 4096"
proof -
  have "a = PGROUNDDOWN a + a mod 4096"
    using word_split_mask [of a 12] take_bit_eq_mod [of 12 a]
    by (simp add: PGROUNDDOWN_mask take_bit_eq_mask)
  then have "PGROUNDDOWN a = a - a mod 4096" by (metis add_diff_cancel_right')
  moreover have "a mod 4096 \<le> a" by (simp add: word_le_nat_alt unat_mod)
  ultimately show ?thesis by (simp add: unat_sub unat_mod)
qed

lemma unat_PGROUNDUP:
  assumes "unat a + 4095 < 2 ^ 64"
  shows "unat (PGROUNDUP a) = (unat a + 4095) - (unat a + 4095) mod 4096"
proof -
  have "PGROUNDUP a = PGROUNDDOWN (a + 4095)"
    by (simp add: PGROUNDUP_def PGROUNDDOWN_def add.commute)
  moreover have "unat (a + 4095) = unat a + 4095"
    using assms by (simp add: unat_word_ariths)
  ultimately show ?thesis by (simp add: unat_PGROUNDDOWN)
qed

lemma page_aligned_unat: "page_aligned a \<longleftrightarrow> unat a mod 4096 = 0"
  unfolding page_aligned_iff_mod by (simp add: word_unat_eq_iff unat_mod)

lemma PGROUNDUP_ge: "unat a + 4095 < 2 ^ 64 \<Longrightarrow> a \<le> PGROUNDUP a"
  by (simp add: word_le_nat_alt unat_PGROUNDUP)

lemma PGROUNDUP_least:
  assumes "page_aligned b" "a \<le> b" "unat a + 4095 < 2 ^ 64"
  shows "PGROUNDUP a \<le> b"
proof -
  have "4096 dvd unat b" using assms(1) by (simp add: page_aligned_unat mod_eq_0_iff_dvd)
  then obtain k where k: "unat b = 4096 * k" by (auto elim: dvdE)
  then have "unat a \<le> 4096 * k" using assms(2) by (simp add: word_le_nat_alt)
  then have "(unat a + 4095) div 4096 \<le> k" by linarith
  then have "(unat a + 4095) - (unat a + 4095) mod 4096 \<le> 4096 * k"
    by (metis minus_mod_eq_mult_div mult_le_mono2)
  then show ?thesis using k assms(3) by (simp add: word_le_nat_alt unat_PGROUNDUP)
qed

lemma page_aligned_multiple:
  assumes "page_aligned p"
  obtains k where "unat p = 4096 * k"
  using assms by (metis page_aligned_unat mod_0_imp_dvd dvdE)

end
