(* ===== verification/Kalloc.thy ===== *)
theory Kalloc
  imports Riscv
begin

text \<open>
  The physical page allocator of \<^verbatim>\<open>kernel/kalloc.c\<close>: a free list threaded through
  the free pages themselves (the first eight bytes of a free page hold the next pointer)
  and a reference count per physical page, which copy-on-write fork relies on.

  Each function body that runs between \<^verbatim>\<open>acquire\<close> and \<^verbatim>\<open>release\<close> of
  \<^verbatim>\<open>kmem.lock\<close> or \<^verbatim>\<open>rclk[index]\<close> is one atomic step of the model.
  \<open>kend\<close> stands for the linker symbol \<^verbatim>\<open>end\<close> (the first address after the
  kernel image); no operation writes it.
\<close>

section \<open>State and operations\<close>

record kmem =
  mem :: memory
  freelist :: u64
  pgrc :: "nat \<Rightarrow> int"
  kend :: u64

definition pgindex :: "u64 \<Rightarrow> nat" where
  "pgindex pa = unat (PGROUNDDOWN pa div PGSIZE)"

definition incpgrc :: "u64 \<Rightarrow> 'a kmem_scheme \<Rightarrow> 'a kmem_scheme res" where
  "incpgrc pa s =
     (let index = pgindex pa in
      if pgrc s index < 0 then Panic (''negative ref count in incpgrc'' @ [CHR 0x0A])
      else OK (s\<lparr>pgrc := (pgrc s)(index := pgrc s index + 1)\<rparr>))"

definition decpgrc :: "nat \<Rightarrow> 'a kmem_scheme \<Rightarrow> 'a kmem_scheme res" where
  "decpgrc index s =
     (if pgrc s index \<le> 0 then Panic (''negative ref count in decpgrc'' @ [CHR 0x0A])
      else OK (s\<lparr>pgrc := (pgrc s)(index := pgrc s index - 1)\<rparr>))"

definition kfree :: "u64 \<Rightarrow> 'a kmem_scheme \<Rightarrow> 'a kmem_scheme res" where
  "kfree pa s =
     (if pa mod PGSIZE \<noteq> 0 \<or> pa < kend s \<or> pa \<ge> PHYSTOP then Panic ''kfree''
      else
        (let index = pgindex pa in
         rbind (decpgrc index s) (\<lambda>s.
           if pgrc s index = 0 then
             (let m1 = memset pa 1 4096 (mem s);
                  m2 = store64 m1 pa (freelist s)
              in OK (s\<lparr>mem := m2, freelist := pa\<rparr>))
           else OK s)))"

definition kalloc :: "'a kmem_scheme \<Rightarrow> (u64 \<times> 'a kmem_scheme) res" where
  "kalloc s =
     (let r = freelist s;
          s1 = (if r \<noteq> 0 then s\<lparr>freelist := load64 (mem s) r\<rparr> else s)
      in if r \<noteq> 0 then
           rbind (incpgrc r (s1\<lparr>mem := memset r 5 4096 (mem s1)\<rparr>)) (\<lambda>s2. OK (r, s2))
         else OK (r, s1))"

text \<open>
  \<^verbatim>\<open>freerange\<close>: the loop runs while \<open>p + PGSIZE \<le> pa_end\<close> in wrapping
  arithmetic, so it is a partial function; not returning is \<^const>\<open>None\<close>.
\<close>

partial_function (option) freerange_loop ::
  "u64 \<Rightarrow> u64 \<Rightarrow> 'a kmem_scheme \<Rightarrow> 'a kmem_scheme res option" where
  "freerange_loop p pa_end s =
     (if p + PGSIZE \<le> pa_end then
        (case rbind (incpgrc p s) (kfree p) of
           Panic e \<Rightarrow> Some (Panic e)
         | Block \<Rightarrow> Some Block
         | OK s' \<Rightarrow> freerange_loop (p + PGSIZE) pa_end s')
      else Some (OK s))"

definition freerange :: "u64 \<Rightarrow> u64 \<Rightarrow> 'a kmem_scheme \<Rightarrow> 'a kmem_scheme res option" where
  "freerange pa_start pa_end s = freerange_loop (PGROUNDUP pa_start) pa_end s"

definition kinit :: "'a kmem_scheme \<Rightarrow> 'a kmem_scheme res option" where
  "kinit s = freerange (kend s) PHYSTOP (s\<lparr>freelist := 0\<rparr>)"

section \<open>The free list and the allocator's invariant\<close>

text \<open>A page \<^verbatim>\<open>kfree\<close> accepts.\<close>

definition page_ok :: "'a kmem_scheme \<Rightarrow> u64 \<Rightarrow> bool" where
  "page_ok s p \<longleftrightarrow> page_aligned p \<and> kend s \<le> p \<and> p < PHYSTOP"

definition refcount :: "'a kmem_scheme \<Rightarrow> u64 \<Rightarrow> int" where
  "refcount s p = pgrc s (pgindex p)"

text \<open>The next-pointers in memory, starting at \<open>p\<close>, spell out the pages \<open>fl\<close>.\<close>

fun free_list :: "memory \<Rightarrow> u64 \<Rightarrow> u64 list \<Rightarrow> bool" where
  "free_list m p [] \<longleftrightarrow> p = 0"
| "free_list m p (a # fl) \<longleftrightarrow> p = a \<and> a \<noteq> 0 \<and> free_list m (load64 m a) fl"

definition kmem_inv_of :: "'a kmem_scheme \<Rightarrow> u64 list \<Rightarrow> bool" where
  "kmem_inv_of s fl \<longleftrightarrow>
     0 < kend s \<and> free_list (mem s) (freelist s) fl \<and> distinct fl
     \<and> (\<forall>p \<in> set fl. page_ok s p)
     \<and> (\<forall>p. page_ok s p \<longrightarrow> 0 \<le> refcount s p \<and> (p \<in> set fl \<longleftrightarrow> refcount s p = 0))"

definition kmem_inv :: "'a kmem_scheme \<Rightarrow> bool" where
  "kmem_inv s \<longleftrightarrow> (\<exists>fl. kmem_inv_of s fl)"

section \<open>Facts on the free list\<close>

lemma pgindex_inject:
  "page_aligned p \<Longrightarrow> page_aligned q \<Longrightarrow> pgindex p = pgindex q \<Longrightarrow> p = q"
proof -
  assume al: "page_aligned p" "page_aligned q" and eq: "pgindex p = pgindex q"
  have "p div 4096 = q div 4096"
    using al eq by (simp add: pgindex_def PGROUNDDOWN_id word_unat_eq_iff)
  moreover have "p mod 4096 = q mod 4096" using al by (simp add: page_aligned_iff_mod)
  ultimately show "p = q" by (metis div_mult_mod_eq)
qed

lemma page_ok_simps [simp]:
  "page_ok (s\<lparr>mem := m\<rparr>) p = page_ok s p"
  "page_ok (s\<lparr>freelist := f\<rparr>) p = page_ok s p"
  "page_ok (s\<lparr>pgrc := r\<rparr>) p = page_ok s p"
  by (simp_all add: page_ok_def)

lemma refcount_simps [simp]:
  "refcount (s\<lparr>mem := m\<rparr>) p = refcount s p"
  "refcount (s\<lparr>freelist := f\<rparr>) p = refcount s p"
  by (simp_all add: refcount_def)

lemma page_okD: "page_ok s p \<Longrightarrow> page_aligned p"
  by (simp add: page_ok_def)

lemma page_ok_nonzero: "page_ok s p \<Longrightarrow> 0 < kend s \<Longrightarrow> p \<noteq> 0"
  by (auto simp: page_ok_def)

lemma refcount_upd:
  "page_aligned p \<Longrightarrow> page_aligned q \<Longrightarrow>
     refcount (s\<lparr>pgrc := (pgrc s)(pgindex p := v)\<rparr>) q = (if q = p then v else refcount s q)"
  by (auto simp: refcount_def dest: pgindex_inject)

lemma kmem_inv_ofD:
  assumes "kmem_inv_of s fl"
  shows "0 < kend s" "free_list (mem s) (freelist s) fl" "distinct fl"
    "p \<in> set fl \<Longrightarrow> page_ok s p" "page_ok s p \<Longrightarrow> 0 \<le> refcount s p"
    "page_ok s p \<Longrightarrow> p \<in> set fl \<longleftrightarrow> refcount s p = 0"
    "\<forall>p \<in> set fl. page_aligned p"
  using assms by (auto simp: kmem_inv_of_def page_okD)

lemma kmem_inv_ofI:
  assumes "0 < kend s" "free_list (mem s) (freelist s) fl" "distinct fl"
    "\<And>p. p \<in> set fl \<Longrightarrow> page_ok s p"
    "\<And>p. page_ok s p \<Longrightarrow> page_aligned p \<Longrightarrow> 0 \<le> refcount s p \<and> (p \<in> set fl \<longleftrightarrow> refcount s p = 0)"
  shows "kmem_inv_of s fl"
  using assms by (simp add: kmem_inv_of_def page_okD)

lemma free_list_cong:
  "(\<And>p x. p \<in> set fl \<Longrightarrow> in_range p 8 x \<Longrightarrow> m x = m' x) \<Longrightarrow> free_list m a fl = free_list m' a fl"
proof (induction fl arbitrary: a)
  case (Cons p fl)
  have "load64 m p = load64 m' p" using Cons.prems by (intro load64_cong) auto
  moreover have "free_list m b fl = free_list m' b fl" for b
    using Cons.prems by (intro Cons.IH) auto
  ultimately show ?case by auto
qed simp

lemma free_list_frame:
  assumes "\<And>x. \<not> in_range a 4096 x \<Longrightarrow> m x = m' x" "page_aligned a" "a \<notin> set fl"
    and "\<forall>p \<in> set fl. page_aligned p"
  shows "free_list m b fl = free_list m' b fl"
proof (rule free_list_cong)
  fix p x assume p: "p \<in> set fl" "in_range p 8 x"
  have "in_range p 4096 x" by (rule in_range_mono [OF _ p(2)]) simp
  then have "\<not> in_range a 4096 x"
    using p assms(2-4) pages_disjoint [of p a x] by auto
  then show "m x = m' x" by (rule assms(1))
qed

lemma free_list_head: "free_list m p fl \<Longrightarrow> p = 0 \<longleftrightarrow> fl = []"
  by (cases fl) auto

lemma in_range_0_self [simp]: "in_range a n a \<longleftrightarrow> 0 < n"
  by (simp add: in_range_def)

section \<open>Behaviour of kalloc and kfree\<close>

lemma kalloc_empty: "kmem_inv_of s [] \<Longrightarrow> kalloc s = OK (0, s)"
  by (simp add: kmem_inv_of_def kalloc_def Let_def)

lemma kalloc_nonempty:
  assumes inv: "kmem_inv_of s (a # fl)"
  shows "\<exists>s'. kalloc s = OK (a, s') \<and> kmem_inv_of s' fl \<and> page_ok s a
     \<and> refcount s a = 0 \<and> refcount s' a = 1 \<and> kend s' = kend s \<and> kmem.more s' = kmem.more s
     \<and> (\<forall>q. page_aligned q \<longrightarrow> q \<noteq> a \<longrightarrow> refcount s' q = refcount s q)
     \<and> mem s' = memset a 5 4096 (mem s)"
proof -
  let ?m = "memset a 5 4096 (mem s)"
  let ?s = "s\<lparr>freelist := load64 (mem s) a, mem := ?m,
              pgrc := (pgrc s)(pgindex a := 1)\<rparr>"
  have a: "freelist s = a" "a \<noteq> 0" "page_ok s a" "page_aligned a" "refcount s a = 0" "a \<notin> set fl"
    and fl: "free_list (mem s) (load64 (mem s) a) fl" "\<forall>p \<in> set fl. page_ok s p"
    using inv by (auto simp: kmem_inv_of_def page_ok_def)
  have "kalloc s = OK (a, ?s)"
    using a by (simp add: kalloc_def incpgrc_def Let_def refcount_def)
  moreover have rc: "refcount ?s q = (if q = a then 1 else refcount s q)" if "page_aligned q" for q
    using refcount_upd [OF a(4) that, of s 1] by (simp add: refcount_def)
  moreover have "free_list ?m (load64 (mem s) a) fl"
    using fl a free_list_frame [of a "mem s" ?m fl "load64 (mem s) a"]
    by (auto simp: memset_apply page_ok_def)
  then have "kmem_inv_of ?s fl"
    using kmem_inv_ofD [OF inv] a rc by (intro kmem_inv_ofI) auto
  ultimately show ?thesis using a by (intro exI [of _ ?s] conjI) simp_all
qed

lemma kfree_page_ok:
  "page_ok s p \<Longrightarrow> kfree p s = rbind (decpgrc (pgindex p) s) (\<lambda>s.
     if pgrc s (pgindex p) = 0
     then OK (s\<lparr>mem := store64 (memset p 1 4096 (mem s)) p (freelist s), freelist := p\<rparr>)
     else OK s)"
proof -
  assume "page_ok s p"
  then have "\<not> (p mod PGSIZE \<noteq> 0 \<or> p < kend s \<or> p \<ge> PHYSTOP)"
    by (simp add: page_ok_def page_aligned_iff_mod not_less not_le)
  then show ?thesis unfolding kfree_def Let_def by (rule if_not_P)
qed

lemma kfree_bad_address: "\<not> page_ok s p \<Longrightarrow> kfree p s = Panic ''kfree''"
proof -
  assume "\<not> page_ok s p"
  then have "p mod PGSIZE \<noteq> 0 \<or> p < kend s \<or> p \<ge> PHYSTOP"
    by (auto simp add: page_ok_def page_aligned_iff_mod not_less not_le)
  then show ?thesis unfolding kfree_def by (rule if_P)
qed

lemma kfree_shared:
  assumes inv: "kmem_inv_of s fl" and p: "page_ok s p" and rc: "1 < refcount s p"
  defines "s' \<equiv> s\<lparr>pgrc := (pgrc s)(pgindex p := refcount s p - 1)\<rparr>"
  shows "kfree p s = OK s' \<and> kmem_inv_of s' fl"
proof
  show "kfree p s = OK s'"
    using rc by (simp add: kfree_page_ok [OF p] decpgrc_def s'_def refcount_def)
  have "refcount s' q = (if q = p then refcount s p - 1 else refcount s q)" if "page_aligned q" for q
    using refcount_upd [OF page_okD [OF p] that, of s] by (simp add: s'_def)
  then show "kmem_inv_of s' fl"
    using kmem_inv_ofD [OF inv] p rc by (intro kmem_inv_ofI) (simp_all add: s'_def)
qed

lemma kfree_last:
  assumes inv: "kmem_inv_of s fl" and p: "page_ok s p" and rc: "refcount s p = 1"
  defines "s' \<equiv> s\<lparr>pgrc := (pgrc s)(pgindex p := 0),
                  mem := store64 (memset p 1 4096 (mem s)) p (freelist s), freelist := p\<rparr>"
  shows "kfree p s = OK s' \<and> kmem_inv_of s' (p # fl)"
proof
  show "kfree p s = OK s'"
    using rc by (simp add: kfree_page_ok [OF p] decpgrc_def s'_def refcount_def)
  have al: "page_aligned p" "p \<noteq> 0"
    using p kmem_inv_ofD(1) [OF inv] by (auto simp: page_okD page_ok_nonzero)
  have rc': "refcount s' q = (if q = p then 0 else refcount s q)" if "page_aligned q" for q
    using refcount_upd [OF al(1) that, of s 0] by (simp add: s'_def refcount_def)
  have "p \<notin> set fl" using kmem_inv_ofD(6) [OF inv p] rc by simp
  moreover have "free_list (mem s') (freelist s) fl"
  proof -
    have "\<not> in_range p 8 x" if "\<not> in_range p 4096 x" for x
      using that in_range_mono [of 8 4096 p x] by auto
    then have "mem s x = mem s' x" if "\<not> in_range p 4096 x" for x
      using that by (simp add: s'_def store64_other memset_apply)
    then show ?thesis
      using free_list_frame [of p "mem s" "mem s'" fl "freelist s"] kmem_inv_ofD [OF inv] al \<open>p \<notin> set fl\<close>
      by simp
  qed
  ultimately show "kmem_inv_of s' (p # fl)"
    using kmem_inv_ofD [OF inv] p al rc'
    by (intro kmem_inv_ofI) (auto simp: s'_def load64_store64_same)
qed

lemma kfree_unreferenced:
  "page_ok s p \<Longrightarrow> refcount s p \<le> 0 \<Longrightarrow>
     kfree p s = Panic (''negative ref count in decpgrc'' @ [CHR 0x0A])"
  by (simp add: kfree_page_ok decpgrc_def refcount_def)

lemma incpgrc_inv:
  assumes inv: "kmem_inv_of s fl" and p: "page_ok s p" and rc: "0 < refcount s p"
  defines "s' \<equiv> s\<lparr>pgrc := (pgrc s)(pgindex p := refcount s p + 1)\<rparr>"
  shows "incpgrc p s = OK s' \<and> kmem_inv_of s' fl"
proof
  show "incpgrc p s = OK s'" using rc by (simp add: incpgrc_def s'_def refcount_def Let_def)
  have "refcount s' q = (if q = p then refcount s p + 1 else refcount s q)" if "page_aligned q" for q
    using refcount_upd [OF page_okD [OF p] that, of s] by (simp add: s'_def)
  then show "kmem_inv_of s' fl"
    using kmem_inv_ofD [OF inv] p rc by (intro kmem_inv_ofI) (simp_all add: s'_def)
qed

section \<open>Initialisation\<close>

text \<open>
  The state of the allocator while \<^verbatim>\<open>freerange\<close> has reached \<open>p\<close>: exactly the pages
  below \<open>p\<close> are on the free list and no page is referenced.
\<close>

definition freed_below :: "'a kmem_scheme \<Rightarrow> u64 \<Rightarrow> u64 list \<Rightarrow> bool" where
  "freed_below s p fl \<longleftrightarrow>
     0 < kend s \<and> free_list (mem s) (freelist s) fl \<and> distinct fl
     \<and> set fl = {q. page_ok s q \<and> q < p} \<and> (\<forall>q. page_aligned q \<longrightarrow> refcount s q = 0)"

lemma freed_below_step:
  assumes I: "freed_below s p fl" and p: "page_ok s p"
  shows "\<exists>s'. rbind (incpgrc p s) (kfree p) = OK s' \<and> freed_below s' (p + 4096) (p # fl)
     \<and> kend s' = kend s"
proof -
  let ?m = "store64 (memset p 1 4096 (mem s)) p (freelist s)"
  let ?s = "s\<lparr>pgrc := (pgrc s)(pgindex p := 0), mem := ?m, freelist := p\<rparr>"
  have al: "page_aligned p" using p by (rule page_okD)
  have rc: "refcount s q = 0" if "page_aligned q" for q using I that by (simp add: freed_below_def)
  have fl: "set fl = {q. page_ok s q \<and> q < p}" "free_list (mem s) (freelist s) fl" "distinct fl"
    "0 < kend s" using I by (simp_all add: freed_below_def)
  have "rbind (incpgrc p s) (kfree p) = OK ?s"
    using rc [OF al] p by (simp add: incpgrc_def kfree_page_ok decpgrc_def refcount_def Let_def)
  moreover have "refcount ?s q = 0" if "page_aligned q" for q
    using refcount_upd [OF al that, of s 0] rc [OF that] by (simp add: refcount_def)
  moreover have "free_list ?m (freelist s) fl"
  proof -
    have "mem s x = ?m x" if "\<not> in_range p 4096 x" for x
    proof -
      have "\<not> in_range p 8 x" using that in_range_mono [of 8 4096 p x] by auto
      then show ?thesis using that by (simp add: store64_other memset_apply)
    qed
    moreover have "\<forall>q \<in> set fl. page_aligned q" "p \<notin> set fl"
      using fl(1) page_okD by blast+
    ultimately show ?thesis
      using free_list_frame [of p "mem s" ?m fl "freelist s"] fl(2) al by simp
  qed
  moreover have "page_ok s q \<and> q < p + 4096 \<longleftrightarrow> q = p \<or> page_ok s q \<and> q < p" for q
  proof -
    have "p < 0x88000000" using p by (simp add: page_ok_def)
    then have "unat (p + 4096) = unat p + 4096" by (simp add: word_less_nat_alt unat_word_ariths)
    then have "q < p + 4096 \<longleftrightarrow> q \<le> p" if "page_aligned q"
      using that al by (auto simp: word_less_nat_alt word_le_nat_alt elim!: page_aligned_multiple)
    then show ?thesis using p by (auto simp: page_okD)
  qed
  ultimately show ?thesis
    using fl al p page_ok_nonzero [OF p]
    by (intro exI [of _ ?s]) (auto simp: freed_below_def load64_store64_same)
qed

lemma freerange_loop_freed:
  assumes "freed_below s p fl" "page_aligned p" "kend s \<le> p" "unat p + 4096 * n = 0x88000000"
  shows "\<exists>s' fl'. freerange_loop p 0x88000000 s = Some (OK s') \<and> freed_below s' 0x88000000 fl'
     \<and> kend s' = kend s"
  using assms
proof (induction n arbitrary: s p fl)
  case 0
  then have "p = 0x88000000" by (simp add: word_unat_eq_iff)
  then show ?case using 0 by (subst freerange_loop.simps) auto
next
  case (Suc n)
  have add: "unat (p + 4096) = unat p + 4096"
    using Suc.prems(4) by (simp add: unat_word_ariths)
  have p: "page_ok s p"
    using Suc.prems by (simp add: page_ok_def word_less_nat_alt)
  obtain s' where s': "rbind (incpgrc p s) (kfree p) = OK s'"
      "freed_below s' (p + 4096) (p # fl)" "kend s' = kend s"
    using freed_below_step [OF Suc.prems(1) p] by blast
  have "page_aligned (p + 4096)"
    using Suc.prems(2) add by (simp add: page_aligned_unat)
  moreover have "kend s' \<le> p + 4096"
    using Suc.prems(3) s'(3) add by (simp add: word_le_nat_alt)
  ultimately have "\<exists>s'' fl'. freerange_loop (p + 4096) 0x88000000 s' = Some (OK s'')
      \<and> freed_below s'' 0x88000000 fl' \<and> kend s'' = kend s'"
    using Suc.IH [OF s'(2)] Suc.prems(4) add by simp
  moreover have "p + 4096 \<le> 0x88000000"
    using Suc.prems(4) add by (simp add: word_le_nat_alt)
  ultimately show ?case using s' by (subst freerange_loop.simps) auto
qed

lemma kinit_freed:
  assumes "\<And>i. pgrc s i = 0" "0 < kend s" "kend s \<le> PHYSTOP"
  shows "\<exists>s' fl. kinit s = Some (OK s') \<and> freed_below s' PHYSTOP fl \<and> kend s' = kend s"
proof -
  let ?s = "s\<lparr>freelist := 0\<rparr>" and ?p = "PGROUNDUP (kend s)"
  have small: "unat (kend s) + 4095 < 2 ^ 64" "unat (kend s) \<le> 0x88000000"
    using assms(3) by (simp_all add: word_le_nat_alt)
  have ge: "kend s \<le> ?p" using small(1) by (rule PGROUNDUP_ge)
  have "page_aligned (0x88000000 :: u64)" by (simp add: page_aligned_unat)
  then have le: "?p \<le> 0x88000000" using assms(3) small(1) by (rule PGROUNDUP_least)
  have none: "\<not> (page_ok ?s q \<and> q < ?p)" for q
    using PGROUNDUP_least [OF _ _ small(1), of q] by (auto simp: page_ok_def)
  have "freed_below ?s ?p []"
    using assms(1,2) none by (auto simp: freed_below_def refcount_def)
  moreover have "4096 dvd unat ?p"
    using PGROUNDUP_aligned [of "kend s"] by (simp add: page_aligned_unat mod_eq_0_iff_dvd)
  then obtain n where "unat ?p + 4096 * n = 0x88000000"
  proof -
    assume "4096 dvd unat ?p" and *: "\<And>n. unat ?p + 4096 * n = 0x88000000 \<Longrightarrow> thesis"
    then obtain k where k: "unat ?p = 4096 * k" by (auto elim: dvdE)
    then have "unat ?p + 4096 * (0x88000 - k) = 0x88000000"
      using le by (simp add: word_le_nat_alt)
    then show thesis by (rule *)
  qed
  ultimately show ?thesis
    using freerange_loop_freed [of ?s ?p "[]" n] ge by (simp add: kinit_def freerange_def)
qed

lemma freed_below_inv: "freed_below s PHYSTOP fl \<Longrightarrow> kmem_inv_of s fl"
proof (rule kmem_inv_ofI)
  fix p assume "freed_below s PHYSTOP fl" "page_ok s p" "page_aligned p"
  then show "0 \<le> refcount s p \<and> (p \<in> set fl \<longleftrightarrow> refcount s p = 0)"
    by (simp add: freed_below_def page_ok_def)
qed (simp_all add: freed_below_def)

section \<open>The allocator as an interface\<close>

text \<open>
  What the page-table and process code relies on: a client sees pages with reference
  counts and byte contents, and never the free list.
\<close>

locale page_allocator =
  fixes alloc :: "'s \<Rightarrow> (u64 \<times> 's) res"
    and free :: "u64 \<Rightarrow> 's \<Rightarrow> 's res"
    and inv :: "'s \<Rightarrow> bool"
    and valid :: "'s \<Rightarrow> u64 \<Rightarrow> bool"
    and rc :: "'s \<Rightarrow> u64 \<Rightarrow> int"
    and byte :: "'s \<Rightarrow> u64 \<Rightarrow> u8"
  assumes valid_nonzero: "inv s \<Longrightarrow> valid s q \<Longrightarrow> q \<noteq> 0"
    and alloc_total: "inv s \<Longrightarrow> \<exists>p s'. alloc s = OK (p, s') \<and> inv s'"
    and alloc_valid: "inv s \<Longrightarrow> alloc s = OK (p, s') \<Longrightarrow> valid s' q \<longleftrightarrow> valid s q"
    and alloc_zero: "inv s \<Longrightarrow> alloc s = OK (0, s') \<Longrightarrow> s' = s \<and> (\<forall>q. valid s q \<longrightarrow> 0 < rc s q)"
    and alloc_new: "inv s \<Longrightarrow> alloc s = OK (p, s') \<Longrightarrow> p \<noteq> 0 \<Longrightarrow> valid s p \<and> rc s p = 0 \<and> rc s' p = 1"
    and alloc_frame: "inv s \<Longrightarrow> alloc s = OK (p, s') \<Longrightarrow> valid s q \<Longrightarrow> q \<noteq> p \<Longrightarrow>
      rc s' q = rc s q \<and> (\<forall>x. PGROUNDDOWN x = q \<longrightarrow> byte s' x = byte s x)"
    and free_ok: "inv s \<Longrightarrow> valid s p \<Longrightarrow> 0 < rc s p \<Longrightarrow>
      \<exists>s'. free p s = OK s' \<and> inv s' \<and> rc s' p = rc s p - 1 \<and> (\<forall>q. valid s' q \<longleftrightarrow> valid s q)"
    and free_unreferenced: "valid s p \<Longrightarrow> rc s p \<le> 0 \<Longrightarrow> \<exists>e. free p s = Panic e"
    and free_frame: "inv s \<Longrightarrow> free p s = OK s' \<Longrightarrow> valid s q \<Longrightarrow> q \<noteq> p \<or> 1 < rc s q \<Longrightarrow>
      (\<forall>x. PGROUNDDOWN x = q \<longrightarrow> byte s' x = byte s x)"
    and free_frame_rc: "inv s \<Longrightarrow> free p s = OK s' \<Longrightarrow> valid s q \<Longrightarrow> q \<noteq> p \<Longrightarrow> rc s' q = rc s q"
begin

text \<open>A page somebody holds keeps its count and its contents while others allocate.\<close>

lemma alloc_keeps_held:
  "inv s \<Longrightarrow> alloc s = OK (p, s') \<Longrightarrow> valid s q \<Longrightarrow> 0 < rc s q \<Longrightarrow>
     q \<noteq> p \<and> rc s' q = rc s q \<and> (\<forall>x. PGROUNDDOWN x = q \<longrightarrow> byte s' x = byte s x)"
  by (metis valid_nonzero alloc_frame alloc_new less_irrefl)

lemma alloc_twice_distinct:
  assumes "inv s" "alloc s = OK (p, s')" "p \<noteq> 0" "alloc s' = OK (q, s'')"
  shows "q \<noteq> p"
proof -
  have "inv s'" using assms(1,2) alloc_total [of s] by auto
  moreover have "valid s' p" "rc s' p = 1"
    using assms alloc_new alloc_valid by blast+
  ultimately show ?thesis using alloc_keeps_held [of s' q s'' p] assms(4) by auto
qed

lemma double_free:
  assumes "inv s" "valid s p" "rc s p = 1" "free p s = OK s'"
  shows "\<exists>e. free p s' = Panic e"
proof -
  have "rc s' p = 0" "valid s' p" using assms free_ok [of s p] by auto
  then show ?thesis by (simp add: free_unreferenced)
qed

lemma alloc_then_free:
  assumes "inv s" "alloc s = OK (p, s')" "p \<noteq> 0"
  shows "\<exists>s''. free p s' = OK s'' \<and> inv s'' \<and> (\<forall>q. valid s q \<longrightarrow> rc s'' q = rc s q)"
proof -
  have i: "inv s'" and v: "valid s' p" "rc s' p = 1" "rc s p = 0"
    using assms alloc_total [of s] alloc_new alloc_valid by auto
  obtain s'' where s'': "free p s' = OK s''" "inv s''" "rc s'' p = 0"
    using free_ok [OF i v(1)] v by auto
  have "rc s'' q = rc s q" if "valid s q" for q
  proof (cases "q = p")
    case False
    then show ?thesis
      using free_frame_rc [OF i s''(1)] alloc_frame [OF assms(1,2)] alloc_valid [OF assms(1,2)] that
      by simp
  qed (use s'' v in simp)
  then show ?thesis using s'' by blast
qed

end


lemma kmem_inv_cases:
  assumes "kmem_inv s"
  obtains "kmem_inv_of s []" "kalloc s = OK (0, s)"
  | a fl s' where "kmem_inv_of s (a # fl)" "a \<noteq> 0" "kalloc s = OK (a, s')" "kmem_inv_of s' fl"
      "page_ok s a" "refcount s a = 0" "refcount s' a = 1" "kend s' = kend s"
      "\<And>q. page_aligned q \<Longrightarrow> q \<noteq> a \<Longrightarrow> refcount s' q = refcount s q"
      "mem s' = memset a 5 4096 (mem s)"
proof -
  obtain fl where fl: "kmem_inv_of s fl" using assms by (auto simp: kmem_inv_def)
  show thesis
  proof (cases fl)
    case Nil
    then show thesis using fl kalloc_empty [of s] that(1) by simp
  next
    case (Cons a fl')
    then show thesis
      using fl kalloc_nonempty [of s a fl'] page_ok_nonzero kmem_inv_ofD(1) [OF fl] that(2) by blast
  qed
qed

lemma kalloc_OK_D:
  assumes "kmem_inv s" "kalloc s = OK (p, s')" "p \<noteq> 0"
  shows "kmem_inv s'" "page_ok s p" "refcount s p = 0" "refcount s' p = 1" "kend s' = kend s"
    "page_aligned q \<Longrightarrow> q \<noteq> p \<Longrightarrow> refcount s' q = refcount s q"
    "mem s' = memset p 5 4096 (mem s)"
  using kmem_inv_cases [OF assms(1)] assms(2,3) by (auto simp: kmem_inv_def)

lemma kalloc_zero_D:
  assumes "kmem_inv s" "kalloc s = OK (0, s')"
  shows "s' = s" "page_ok s q \<Longrightarrow> 0 < refcount s q"
  using kmem_inv_cases [OF assms(1)] assms(2) kmem_inv_ofD(5,6) [of s "[]" q] by force+

lemma kfree_cases:
  assumes "kmem_inv s" "page_ok s p" "0 < refcount s p"
  obtains s' where "kfree p s = OK s'" "kmem_inv s'" "kend s' = kend s"
    "\<And>q. page_aligned q \<Longrightarrow> refcount s' q = (if q = p then refcount s p - 1 else refcount s q)"
    "1 < refcount s p \<Longrightarrow> mem s' = mem s"
    "\<And>x. PGROUNDDOWN x \<noteq> p \<Longrightarrow> mem s' x = mem s x"
proof -
  obtain fl where fl: "kmem_inv_of s fl" using assms by (auto simp: kmem_inv_def)
  have al: "page_aligned p" using assms(2) by (rule page_okD)
  show thesis
  proof (cases "refcount s p = 1")
    case True
    let ?s = "s\<lparr>pgrc := (pgrc s)(pgindex p := 0),
                mem := store64 (memset p 1 4096 (mem s)) p (freelist s), freelist := p\<rparr>"
    have "mem ?s x = mem s x" if "PGROUNDDOWN x \<noteq> p" for x
    proof -
      have "\<not> in_range p 4096 x" "\<not> in_range p 8 x"
        using that in_page [OF al] in_range_mono [of 8 4096 p x] by auto
      then show ?thesis by (simp add: store64_other memset_apply)
    qed
    moreover have "refcount ?s q = (if q = p then refcount s p - 1 else refcount s q)"
      if "page_aligned q" for q
      using True refcount_upd [OF al that, of s 0] by (simp add: refcount_def)
    ultimately show thesis
      using that [of ?s] kfree_last [OF fl assms(2) True] True by (auto simp: kmem_inv_def)
  next
    case False
    then have gt: "1 < refcount s p" using assms(3) by simp
    let ?s = "s\<lparr>pgrc := (pgrc s)(pgindex p := refcount s p - 1)\<rparr>"
    have "refcount ?s q = (if q = p then refcount s p - 1 else refcount s q)"
      if "page_aligned q" for q using refcount_upd [OF al that, of s] by simp
    then show thesis
      using that [of ?s] kfree_shared [OF fl assms(2) gt] by (auto simp: kmem_inv_def)
  qed
qed

lemma kfree_OK_D:
  assumes "kfree p s = OK s'"
  shows "page_ok s p" "0 < refcount s p"
  using assms kfree_bad_address [of s p] kfree_unreferenced [of s p] by force+

lemma kfree_last_then_kalloc:
  assumes "kmem_inv s" "page_ok s p" "refcount s p = 1" "kfree p s = OK s'"
  shows "\<exists>s''. kalloc s' = OK (p, s'')"
proof -
  obtain fl where fl: "kmem_inv_of s fl" using assms by (auto simp: kmem_inv_def)
  then have "kmem_inv_of s' (p # fl)" using kfree_last [OF fl assms(2,3)] assms(4) by auto
  then show ?thesis using kalloc_nonempty by blast
qed

interpretation ka: page_allocator kalloc kfree kmem_inv page_ok refcount mem
proof
  fix s s' :: "'a kmem_scheme" and p q :: u64
  show "q \<noteq> 0" if "kmem_inv s" "page_ok s q"
    using that page_ok_nonzero kmem_inv_ofD(1) by (auto simp: kmem_inv_def)
  show "\<exists>p s'. kalloc s = OK (p, s') \<and> kmem_inv s'" if "kmem_inv s"
    using that by (cases rule: kmem_inv_cases) (auto simp: kmem_inv_def)
  show "page_ok s' q \<longleftrightarrow> page_ok s q" if "kmem_inv s" "kalloc s = OK (p, s')"
    using that(1) by (cases rule: kmem_inv_cases) (use that(2) in \<open>auto simp: page_ok_def\<close>)
  show "s' = s \<and> (\<forall>q. page_ok s q \<longrightarrow> 0 < refcount s q)" if "kmem_inv s" "kalloc s = OK (0, s')"
    using kalloc_zero_D [OF that] by blast
  show "page_ok s p \<and> refcount s p = 0 \<and> refcount s' p = 1"
    if "kmem_inv s" "kalloc s = OK (p, s')" "p \<noteq> 0"
    using kalloc_OK_D [OF that] by blast
  show "refcount s' q = refcount s q \<and> (\<forall>x. PGROUNDDOWN x = q \<longrightarrow> mem s' x = mem s x)"
    if "kmem_inv s" "kalloc s = OK (p, s')" "page_ok s q" "q \<noteq> p"
    using that(1)
  proof (cases rule: kmem_inv_cases)
    case (2 a fl s'')
    then have "page_aligned p" "mem s' = memset p 5 4096 (mem s)" "p = a" "s'' = s'"
      using that by (auto simp: page_okD)
    then show ?thesis using 2 that page_okD [OF that(3)] by (auto simp: memset_apply in_page)
  qed (use that in simp)
  show "\<exists>s'. kfree p s = OK s' \<and> kmem_inv s' \<and> refcount s' p = refcount s p - 1
      \<and> (\<forall>q. page_ok s' q \<longleftrightarrow> page_ok s q)" if "kmem_inv s" "page_ok s p" "0 < refcount s p"
    using that(1-3) page_okD [OF that(2)] by (cases rule: kfree_cases) (auto simp: page_ok_def)
  show "\<exists>e. kfree p s = Panic e" if "page_ok s p" "refcount s p \<le> 0"
    using kfree_unreferenced [OF that] by blast
  show "\<forall>x. PGROUNDDOWN x = q \<longrightarrow> mem s' x = mem s x"
    if "kmem_inv s" "kfree p s = OK s'" "page_ok s q" "q \<noteq> p \<or> 1 < refcount s q"
    using kfree_cases [OF that(1) kfree_OK_D [OF that(2)]] that(2,4) by (metis res.inject(1))
  show "refcount s' q = refcount s q"
    if "kmem_inv s" "kfree p s = OK s'" "page_ok s q" "q \<noteq> p"
    using kfree_cases [OF that(1) kfree_OK_D [OF that(2)]] that(2,3,4) by (metis res.inject(1) page_okD)
qed

section \<open>Properties\<close>

text \<open>A machine with one free page, the state the witnesses of this theory start from.\<close>

definition one_page :: kmem where
  "one_page = \<lparr>mem = (\<lambda>_. 0), freelist = 0x87FFF000, pgrc = (\<lambda>_. 0), kend = 0x87FFF000\<rparr>"

lemma load64_zero: "load64 (\<lambda>_. 0) a = 0"
  by (simp add: load64_def eval_nat_numeral)

lemma one_page_ok: "page_ok one_page p \<longleftrightarrow> p = 0x87FFF000"
proof
  assume "page_ok one_page p"
  then have "page_aligned p" "unat p \<ge> 0x87FFF000" "unat p < 0x88000000"
    by (auto simp: page_ok_def one_page_def word_le_nat_alt word_less_nat_alt)
  then have "unat p = 0x87FFF000" by (auto elim!: page_aligned_multiple)
  then show "p = 0x87FFF000" by (simp add: word_unat_eq_iff)
qed (simp add: page_ok_def one_page_def page_aligned_unat)

lemma one_page_inv: "kmem_inv one_page"
proof -
  have "kmem_inv_of one_page [0x87FFF000]"
    by (rule kmem_inv_ofI)
      (use one_page_ok in \<open>auto simp: one_page_def refcount_def load64_zero\<close>)
  then show ?thesis by (auto simp: kmem_inv_def)
qed

text \<open>
  C1 (exclusive allocation). From a state satisfying the allocator's invariant, the page that
  \<^verbatim>\<open>kalloc\<close> returns was referenced by nobody, is an aligned page between the end of the
  kernel and \<^verbatim>\<open>PHYSTOP\<close>, comes with reference count one and filled with the byte 5;
  every other page keeps its count and its bytes, and the invariant holds again.
\<close>

theorem kalloc_exclusive:
  assumes "kmem_inv s" "kalloc s = OK (p, s')" "p \<noteq> 0"
  shows "kmem_inv s' \<and> page_ok s p \<and> refcount s p = 0 \<and> refcount s' p = 1
    \<and> (\<forall>x. PGROUNDDOWN x = p \<longrightarrow> mem s' x = 5)
    \<and> (\<forall>q. page_ok s q \<longrightarrow> q \<noteq> p \<longrightarrow>
        refcount s' q = refcount s q \<and> (\<forall>x. PGROUNDDOWN x = q \<longrightarrow> mem s' x = mem s x))"
proof -
  note D = kalloc_OK_D [OF assms]
  have "mem s' x = 5" if "PGROUNDDOWN x = p" for x
    using D(2,7) that page_okD in_page by (auto simp: memset_apply)
  then show ?thesis using D ka.alloc_frame [OF assms(1,2)] by blast
qed

lemma one_page_kalloc:
  "kalloc one_page = OK (0x87FFF000, one_page\<lparr>freelist := 0,
     mem := memset 0x87FFF000 5 4096 (\<lambda>_. 0), pgrc := (\<lambda>_. 0)(pgindex 0x87FFF000 := 1)\<rparr>)"
  by (simp add: kalloc_def one_page_def incpgrc_def load64_zero Let_def)

theorem kalloc_exclusive_witness:
  "\<exists>s'. kalloc one_page = OK (0x87FFF000, s') \<and> kmem_inv s' \<and> refcount one_page 0x87FFF000 = 0
     \<and> refcount s' 0x87FFF000 = 1"
  using kalloc_exclusive [OF one_page_inv one_page_kalloc] one_page_kalloc by simp

text \<open>
  C2 (reference-counted free). On a page in use, \<^verbatim>\<open>kfree\<close> returns, keeps the
  invariant and drops exactly one reference of that page and no other. While other references
  remain, memory is not touched at all; when the last one goes, the page is the one the next
  \<^verbatim>\<open>kalloc\<close> hands out.
\<close>

theorem kfree_drops_one_reference:
  assumes "kmem_inv s" "page_ok s p" "0 < refcount s p"
  shows "\<exists>s'. kfree p s = OK s' \<and> kmem_inv s' \<and> refcount s' p = refcount s p - 1
    \<and> (\<forall>q. page_ok s q \<longrightarrow> q \<noteq> p \<longrightarrow> refcount s' q = refcount s q)
    \<and> (\<forall>x. PGROUNDDOWN x \<noteq> p \<longrightarrow> mem s' x = mem s x)
    \<and> (if refcount s p = 1 then \<exists>s''. kalloc s' = OK (p, s'') else mem s' = mem s)"
proof -
  obtain s' where s': "kfree p s = OK s'" "kmem_inv s'"
    "\<And>q. page_aligned q \<Longrightarrow> refcount s' q = (if q = p then refcount s p - 1 else refcount s q)"
    "1 < refcount s p \<Longrightarrow> mem s' = mem s" "\<And>x. PGROUNDDOWN x \<noteq> p \<Longrightarrow> mem s' x = mem s x"
    using kfree_cases [OF assms] by metis
  have "\<exists>s''. kalloc s' = OK (p, s'')" if "refcount s p = 1"
    using kfree_last_then_kalloc [OF assms(1,2) that s'(1)] .
  then show ?thesis
    using s' assms(2,3) by (intro exI [of _ s']) (auto dest: page_okD)
qed

theorem kfree_drops_one_reference_witness:
  "\<exists>s s'. kalloc one_page = OK (0x87FFF000, s) \<and> kfree 0x87FFF000 s = OK s'
     \<and> refcount s' 0x87FFF000 = 0 \<and> kmem_inv s'"
proof -
  obtain s where s: "kalloc one_page = OK (0x87FFF000, s)" using one_page_kalloc by blast
  then have "kmem_inv s" "page_ok s 0x87FFF000" "refcount s 0x87FFF000 = 1"
    using kalloc_OK_D [OF one_page_inv s] ka.alloc_valid [OF one_page_inv s] by auto
  then show ?thesis using kfree_drops_one_reference [of s "0x87FFF000"] s by auto
qed


text \<open>
  C4 (boot). Started with all counts zero and the kernel image ending below
  \<^verbatim>\<open>PHYSTOP\<close>, \<^verbatim>\<open>kinit\<close> terminates without a panic and establishes the
  allocator's invariant with every page from the end of the kernel to \<^verbatim>\<open>PHYSTOP\<close> on
  the free list.
\<close>

theorem kinit_establishes_invariant:
  assumes "\<And>i. pgrc s i = 0" "0 < kend s" "kend s \<le> PHYSTOP"
  shows "\<exists>s'. kinit s = Some (OK s') \<and> kend s' = kend s \<and> kmem_inv s'
    \<and> (\<exists>fl. kmem_inv_of s' fl \<and> set fl = {p. page_ok s p})"
proof -
  obtain s' fl where *: "kinit s = Some (OK s')" "freed_below s' PHYSTOP fl" "kend s' = kend s"
    using kinit_freed [OF assms] by blast
  have "set fl = {p. page_ok s p}" using *(2,3) by (auto simp: freed_below_def page_ok_def)
  then show ?thesis using * freed_below_inv by (auto simp: kmem_inv_def)
qed

theorem kinit_establishes_invariant_witness:
  "\<exists>s'. kinit (one_page\<lparr>freelist := 7\<rparr>) = Some (OK s') \<and> kmem_inv s'"
  using kinit_establishes_invariant [of "one_page\<lparr>freelist := 7\<rparr>"] by (auto simp: one_page_def)

end
