(* ===== verification/VM.thy ===== *)
theory VM
  imports Kalloc
begin

text \<open>
  Virtual memory, \<^verbatim>\<open>kernel/vm.c\<close>: the three-level Sv39 page tables, which live in
  physical memory and are read and written there by \<^verbatim>\<open>walk\<close>, the construction and
  destruction of address spaces, copy-on-write sharing at fork, and the copies between
  kernel and user memory.

  A null pointer returned by \<^verbatim>\<open>kalloc\<close> and then written through is a store to physical
  address 0, which the kernel page table does not map: the trap handler panics with
  \<^verbatim>\<open>kerneltrap\<close>, so such a path is \<open>kernel_fault\<close>.  A buffer on the kernel's side of a
  copy (a local variable, a field of a kernel structure, the data of a disk buffer) is the
  list of its bytes; it never overlaps a user page.
\<close>

section \<open>State\<close>

text \<open>
  \<open>etext\<close> and \<open>trampoline\<close> are linker symbols that no code writes; \<open>satp\<close> is the
  address-translation register of the executing hart.
\<close>

record vmem = kmem +
  kernel_pagetable :: u64
  etext :: u64
  trampoline :: u64
  satp :: u64

abbreviation kernel_fault :: "'b res" where
  "kernel_fault \<equiv> Panic ''kerneltrap''"

section \<open>Walking a page table\<close>

text \<open>The address \<^verbatim>\<open>&pagetable[PX(level, va)]\<close>.\<close>

definition pte_at :: "u64 \<Rightarrow> nat \<Rightarrow> u64 \<Rightarrow> u64" where
  "pte_at pagetable level va = pagetable + 8 * PX level va"

fun walk_levels ::
  "nat \<Rightarrow> u64 \<Rightarrow> u64 \<Rightarrow> bool \<Rightarrow> 'a kmem_scheme \<Rightarrow> (u64 \<times> 'a kmem_scheme) res" where
  "walk_levels 0 pagetable va alloc s = OK (pte_at pagetable 0 va, s)"
| "walk_levels (Suc l) pagetable va alloc s =
     (let pte = pte_at pagetable (Suc l) va;
          e = load64 (mem s) pte
      in if e AND PTE_V \<noteq> 0 then walk_levels l (PTE2PA e) va alloc s
         else if \<not> alloc then OK (0, s)
         else rbind (kalloc s) (\<lambda>(page, s).
           if page = 0 then OK (0, s)
           else let m = memset page 0 4096 (mem s);
                    m = store64 m pte (PA2PTE page OR PTE_V)
                in walk_levels l page va alloc (s\<lparr>mem := m\<rparr>)))"

definition walk ::
  "u64 \<Rightarrow> u64 \<Rightarrow> bool \<Rightarrow> 'a kmem_scheme \<Rightarrow> (u64 \<times> 'a kmem_scheme) res" where
  "walk pagetable va alloc s =
     (if va \<ge> MAXVA then Panic ''walk'' else walk_levels 2 pagetable va alloc s)"

definition walkaddr :: "u64 \<Rightarrow> u64 \<Rightarrow> 'a kmem_scheme \<Rightarrow> u64 res" where
  "walkaddr pagetable va s =
     (if va \<ge> MAXVA then OK 0
      else rbind (walk pagetable va False s) (\<lambda>(pte, s).
        if pte = 0 then OK 0
        else let e = load64 (mem s) pte
             in if e AND PTE_V = 0 then OK 0
                else if e AND PTE_U = 0 then OK 0
                else OK (PTE2PA e)))"

section \<open>Mapping and unmapping\<close>

text \<open>
  The loop of \<^verbatim>\<open>mappages\<close> visits \<open>a\<close>, \<open>a + PGSIZE\<close>, \ldots until \<open>final\<close>; it ends at the
  latest when \<^verbatim>\<open>walk\<close> panics beyond \<^verbatim>\<open>MAXVA\<close>.
\<close>

lemma walk_OK_lt: "walk pagetable va alloc s = OK r \<Longrightarrow> va < MAXVA"
  by (simp add: walk_def split: if_splits)

lemma page_step_decreases:
  fixes a :: u64
  assumes "a < MAXVA"
  shows "2 ^ 64 - unat (a + PGSIZE) < 2 ^ 64 - unat a"
proof -
  have "unat a < 0x4000000000" using assms by (simp add: word_less_nat_alt)
  then have "unat (a + 4096) = unat a + 4096" by (simp add: unat_word_ariths)
  then show ?thesis using \<open>unat a < 0x4000000000\<close> by simp
qed

function mappages_loop ::
  "u64 \<Rightarrow> u64 \<Rightarrow> u64 \<Rightarrow> u64 \<Rightarrow> u64 \<Rightarrow> 'a kmem_scheme \<Rightarrow> (int \<times> 'a kmem_scheme) res" where
  "mappages_loop pagetable a final pa perm s =
     rbind (walk pagetable a True s) (\<lambda>(pte, s).
       if pte = 0 then OK (-1, s)
       else if load64 (mem s) pte AND PTE_V \<noteq> 0 then Panic ''mappages: remap''
       else
         (let s = s\<lparr>mem := store64 (mem s) pte (PA2PTE pa OR perm OR PTE_V)\<rparr>
          in if a = final then OK (0, s)
             else mappages_loop pagetable (a + PGSIZE) final (pa + PGSIZE) perm s))"
  by pat_completeness auto
termination
  by (relation "measure (\<lambda>(pt, a, final, pa, perm, s). 2 ^ 64 - unat a)")
    (auto dest!: walk_OK_lt page_step_decreases)

declare mappages_loop.simps [simp del]

definition mappages ::
  "u64 \<Rightarrow> u64 \<Rightarrow> u64 \<Rightarrow> u64 \<Rightarrow> u64 \<Rightarrow> 'a kmem_scheme \<Rightarrow> (int \<times> 'a kmem_scheme) res" where
  "mappages pagetable va sz pa perm s =
     (if sz = 0 then Panic ''mappages: size''
      else mappages_loop pagetable (PGROUNDDOWN va) (PGROUNDDOWN (va + sz - 1)) pa perm s)"

definition kvmmap ::
  "u64 \<Rightarrow> u64 \<Rightarrow> u64 \<Rightarrow> u64 \<Rightarrow> u64 \<Rightarrow> 'a kmem_scheme \<Rightarrow> 'a kmem_scheme res" where
  "kvmmap kpgtbl va pa sz perm s =
     rbind (mappages kpgtbl va sz pa perm s) (\<lambda>(r, s).
       if r \<noteq> 0 then Panic ''kvmmap'' else OK s)"

function uvmunmap_loop ::
  "u64 \<Rightarrow> u64 \<Rightarrow> u64 \<Rightarrow> bool \<Rightarrow> 'a kmem_scheme \<Rightarrow> 'a kmem_scheme res" where
  "uvmunmap_loop pagetable a final do_free s =
     (if a < final then
        rbind (walk pagetable a False s) (\<lambda>(pte, s).
          if pte = 0 then Panic ''uvmunmap: walk''
          else let e = load64 (mem s) pte
               in if e AND PTE_V = 0 then Panic ''uvmunmap: not mapped''
                  else if PTE_FLAGS e = PTE_V then Panic ''uvmunmap: not a leaf''
                  else rbind (if do_free then kfree (PTE2PA e) s else OK s) (\<lambda>s.
                    uvmunmap_loop pagetable (a + PGSIZE) final do_free
                      (s\<lparr>mem := store64 (mem s) pte 0\<rparr>)))
      else OK s)"
  by pat_completeness auto
termination
  by (relation "measure (\<lambda>(pt, a, final, f, s). 2 ^ 64 - unat a)")
    (auto dest!: walk_OK_lt page_step_decreases)

declare uvmunmap_loop.simps [simp del]

definition uvmunmap ::
  "u64 \<Rightarrow> u64 \<Rightarrow> u64 \<Rightarrow> bool \<Rightarrow> 'a kmem_scheme \<Rightarrow> 'a kmem_scheme res" where
  "uvmunmap pagetable va npages do_free s =
     (if va mod PGSIZE \<noteq> 0 then Panic ''uvmunmap: not aligned''
      else uvmunmap_loop pagetable va (va + npages * PGSIZE) do_free s)"

section \<open>Kernel address space\<close>

text \<open>\<^verbatim>\<open>proc_mapstacks\<close> of \<^verbatim>\<open>kernel/proc.c\<close>, called by \<^verbatim>\<open>kvmmake\<close>.\<close>

fun mapstacks_loop :: "u64 \<Rightarrow> nat list \<Rightarrow> 'a kmem_scheme \<Rightarrow> 'a kmem_scheme res" where
  "mapstacks_loop kpgtbl [] s = OK s"
| "mapstacks_loop kpgtbl (p # ps) s =
     rbind (kalloc s) (\<lambda>(pa, s).
       if pa = 0 then Panic ''kalloc''
       else rbind (kvmmap kpgtbl (KSTACK p) pa PGSIZE (PTE_R OR PTE_W) s) (mapstacks_loop kpgtbl ps))"

definition proc_mapstacks :: "u64 \<Rightarrow> 'a kmem_scheme \<Rightarrow> 'a kmem_scheme res" where
  "proc_mapstacks kpgtbl s = mapstacks_loop kpgtbl [0..<NPROC] s"

definition kvmmake :: "'a vmem_scheme \<Rightarrow> (u64 \<times> 'a vmem_scheme) res" where
  "kvmmake s =
     rbind (kalloc s) (\<lambda>(kpgtbl, s).
       if kpgtbl = 0 then kernel_fault
       else
         (let s = s\<lparr>mem := memset kpgtbl 0 4096 (mem s)\<rparr> in
          rbind (kvmmap kpgtbl UART0 UART0 PGSIZE (PTE_R OR PTE_W) s) (\<lambda>s.
          rbind (kvmmap kpgtbl VIRTIO0 VIRTIO0 PGSIZE (PTE_R OR PTE_W) s) (\<lambda>s.
          rbind (kvmmap kpgtbl PLIC PLIC 0x400000 (PTE_R OR PTE_W) s) (\<lambda>s.
          rbind (kvmmap kpgtbl KERNBASE KERNBASE (etext s - KERNBASE) (PTE_R OR PTE_X) s) (\<lambda>s.
          rbind (kvmmap kpgtbl (etext s) (etext s) (PHYSTOP - etext s) (PTE_R OR PTE_W) s) (\<lambda>s.
          rbind (kvmmap kpgtbl TRAMPOLINE (trampoline s) PGSIZE (PTE_R OR PTE_X) s) (\<lambda>s.
          rbind (proc_mapstacks kpgtbl s) (\<lambda>s. OK (kpgtbl, s))))))))))"

definition kvminit :: "'a vmem_scheme \<Rightarrow> 'a vmem_scheme res" where
  "kvminit s = rbind (kvmmake s) (\<lambda>(kpgtbl, s). OK (s\<lparr>kernel_pagetable := kpgtbl\<rparr>))"

definition kvminithart :: "'a vmem_scheme \<Rightarrow> 'a vmem_scheme" where
  "kvminithart s = s\<lparr>satp := MAKE_SATP (kernel_pagetable s)\<rparr>"

section \<open>User address spaces\<close>

definition uvmcreate :: "'a kmem_scheme \<Rightarrow> (u64 \<times> 'a kmem_scheme) res" where
  "uvmcreate s =
     rbind (kalloc s) (\<lambda>(pagetable, s).
       if pagetable = 0 then OK (0, s)
       else OK (pagetable, s\<lparr>mem := memset pagetable 0 4096 (mem s)\<rparr>))"

definition uvmfirst :: "u64 \<Rightarrow> u8 list \<Rightarrow> 'a kmem_scheme \<Rightarrow> 'a kmem_scheme res" where
  "uvmfirst pagetable src s =
     (if length src \<ge> 4096 then Panic ''uvmfirst: more than a page''
      else rbind (kalloc s) (\<lambda>(page, s).
        if page = 0 then kernel_fault
        else rbind (mappages pagetable 0 PGSIZE page (PTE_W OR PTE_R OR PTE_X OR PTE_U)
                      (s\<lparr>mem := memset page 0 4096 (mem s)\<rparr>)) (\<lambda>(_, s).
          OK (s\<lparr>mem := store_bytes (mem s) page src\<rparr>))))"

text \<open>
  \<^verbatim>\<open>uvmdealloc\<close> keeps the number of pages in a C \<^verbatim>\<open>int\<close> before it is widened again for
  \<^verbatim>\<open>uvmunmap\<close>: \<open>int_of_u64\<close> is that narrowing and sign extension.
\<close>

definition int_of_u64 :: "u64 \<Rightarrow> u64" where
  "int_of_u64 x = scast (ucast x :: u32)"

definition uvmdealloc ::
  "u64 \<Rightarrow> u64 \<Rightarrow> u64 \<Rightarrow> 'a kmem_scheme \<Rightarrow> (u64 \<times> 'a kmem_scheme) res" where
  "uvmdealloc pagetable oldsz newsz s =
     (if newsz \<ge> oldsz then OK (oldsz, s)
      else if PGROUNDUP newsz < PGROUNDUP oldsz then
        (let npages = int_of_u64 ((PGROUNDUP oldsz - PGROUNDUP newsz) div PGSIZE)
         in rbind (uvmunmap pagetable (PGROUNDUP newsz) npages True s) (\<lambda>s. OK (newsz, s)))
      else OK (newsz, s))"

lemma PGROUNDDOWN_less_MAXVA: "PGROUNDDOWN a < MAXVA \<longleftrightarrow> a < MAXVA"
proof -
  let ?q = "unat a div 4096"
  have split: "unat a = 4096 * ?q + unat a mod 4096" by simp
  have "unat a - unat a mod 4096 = 4096 * ?q" by (simp add: minus_mod_eq_mult_div)
  then have "PGROUNDDOWN a < MAXVA \<longleftrightarrow> ?q < 67108864"
    by (simp add: word_less_nat_alt unat_PGROUNDDOWN)
  also have "\<dots> \<longleftrightarrow> unat a < 0x4000000000" by (simp add: div_less_iff_less_mult)
  finally show ?thesis by (simp add: word_less_nat_alt)
qed

lemma mappages_OK_lt:
  assumes "mappages pagetable a sz pa perm s = OK r"
  shows "a < MAXVA"
proof -
  have "walk pagetable (PGROUNDDOWN a) True s \<noteq> Panic ''walk''"
    using assms by (auto simp: mappages_def mappages_loop.simps [of _ "PGROUNDDOWN a"] split: if_splits)
  then have "PGROUNDDOWN a < MAXVA" by (auto simp: walk_def split: if_splits)
  then show ?thesis by (simp add: PGROUNDDOWN_less_MAXVA)
qed

function uvmalloc_loop ::
  "u64 \<Rightarrow> u64 \<Rightarrow> u64 \<Rightarrow> u64 \<Rightarrow> u64 \<Rightarrow> 'a kmem_scheme \<Rightarrow> (u64 \<times> 'a kmem_scheme) res" where
  "uvmalloc_loop pagetable a oldsz newsz xperm s =
     (if a < newsz then
        rbind (kalloc s) (\<lambda>(page, s).
          if page = 0 then
            rbind (uvmdealloc pagetable a oldsz s) (\<lambda>(_, s). OK (0, s))
          else
            rbind (mappages pagetable a PGSIZE page (PTE_R OR PTE_U OR xperm)
                     (s\<lparr>mem := memset page 0 4096 (mem s)\<rparr>)) (\<lambda>(r, s).
              if r \<noteq> 0 then
                rbind (kfree page s) (\<lambda>s.
                  rbind (uvmdealloc pagetable a oldsz s) (\<lambda>(_, s). OK (0, s)))
              else uvmalloc_loop pagetable (a + PGSIZE) oldsz newsz xperm s))
      else OK (newsz, s))"
  by pat_completeness auto
termination
  by (relation "measure (\<lambda>(pt, a, oldsz, newsz, xperm, s). 2 ^ 64 - unat a)")
    (auto dest!: mappages_OK_lt page_step_decreases)

declare uvmalloc_loop.simps [simp del]

definition uvmalloc ::
  "u64 \<Rightarrow> u64 \<Rightarrow> u64 \<Rightarrow> u64 \<Rightarrow> 'a kmem_scheme \<Rightarrow> (u64 \<times> 'a kmem_scheme) res" where
  "uvmalloc pagetable oldsz newsz xperm s =
     (if newsz < oldsz then OK (oldsz, s)
      else uvmalloc_loop pagetable (PGROUNDUP oldsz) (PGROUNDUP oldsz) newsz xperm s)"

text \<open>
  \<^verbatim>\<open>freewalk\<close> recurses through the page-table pages.  A user page table has three
  levels, so \<open>freewalk\<close> allows a recursion of that depth; a table nested deeper (or a
  cyclic one) would run the recursion into the guard page below the kernel stack, which is
  the kernel fault that \<open>freewalk_depth 0\<close> stands for.
\<close>

fun freewalk_depth :: "nat \<Rightarrow> u64 \<Rightarrow> 'a kmem_scheme \<Rightarrow> 'a kmem_scheme res"
  and freewalk_entries :: "nat \<Rightarrow> u64 \<Rightarrow> nat list \<Rightarrow> 'a kmem_scheme \<Rightarrow> 'a kmem_scheme res" where
  "freewalk_depth 0 pagetable s = kernel_fault"
| "freewalk_depth (Suc d) pagetable s =
     rbind (freewalk_entries d pagetable [0..<512] s) (kfree pagetable)"
| "freewalk_entries d pagetable [] s = OK s"
| "freewalk_entries d pagetable (i # is) s =
     (let pte = load64 (mem s) (pagetable + 8 * of_nat i) in
      if pte AND PTE_V \<noteq> 0 \<and> pte AND (PTE_R OR PTE_W OR PTE_X) = 0 then
        rbind (freewalk_depth d (PTE2PA pte) s) (\<lambda>s.
          freewalk_entries d pagetable is
            (s\<lparr>mem := store64 (mem s) (pagetable + 8 * of_nat i) 0\<rparr>))
      else if pte AND PTE_V \<noteq> 0 then Panic ''freewalk: leaf''
      else freewalk_entries d pagetable is s)"

definition freewalk :: "u64 \<Rightarrow> 'a kmem_scheme \<Rightarrow> 'a kmem_scheme res" where
  "freewalk pagetable s = freewalk_depth 3 pagetable s"

definition uvmfree :: "u64 \<Rightarrow> u64 \<Rightarrow> 'a kmem_scheme \<Rightarrow> 'a kmem_scheme res" where
  "uvmfree pagetable sz s =
     rbind (if sz > 0 then uvmunmap pagetable 0 (PGROUNDUP sz div PGSIZE) True s else OK s)
       (freewalk pagetable)"

section \<open>Copy-on-write sharing\<close>

function uvmcopy_loop ::
  "u64 \<Rightarrow> u64 \<Rightarrow> u64 \<Rightarrow> u64 \<Rightarrow> 'a kmem_scheme \<Rightarrow> (int \<times> 'a kmem_scheme) res" where
  "uvmcopy_loop old new i sz s =
     (if i < sz then
        rbind (walk old i False s) (\<lambda>(pte, s).
          if pte = 0 then Panic ''uvmcopy: pte should exist''
          else
            (let e = load64 (mem s) pte in
             if e AND PTE_V = 0 then Panic ''uvmcopy: page not present''
             else
               (let pa = PTE2PA e;
                    flags = PTE_FLAGS e;
                    (flags, s) =
                      (if e AND PTE_W \<noteq> 0
                       then ((flags AND NOT PTE_W) OR PTE_C,
                             s\<lparr>mem := store64 (mem s) pte ((e AND NOT PTE_W) OR PTE_C)\<rparr>)
                       else (flags, s))
                in rbind (mappages new i PGSIZE pa flags s) (\<lambda>(r, s).
                     if r \<noteq> 0 then
                       rbind (uvmunmap new 0 (i div PGSIZE) True s) (\<lambda>s. OK (-1, s))
                     else rbind (incpgrc pa s) (uvmcopy_loop old new (i + PGSIZE) sz)))))
      else OK (0, s))"
  by pat_completeness auto
termination
  by (relation "measure (\<lambda>(old, new, i, sz, s). 2 ^ 64 - unat i)")
    (auto dest!: mappages_OK_lt page_step_decreases)

declare uvmcopy_loop.simps [simp del]

definition uvmcopy :: "u64 \<Rightarrow> u64 \<Rightarrow> u64 \<Rightarrow> 'a kmem_scheme \<Rightarrow> (int \<times> 'a kmem_scheme) res" where
  "uvmcopy old new sz s = uvmcopy_loop old new 0 sz s"

definition uvmclear :: "u64 \<Rightarrow> u64 \<Rightarrow> 'a kmem_scheme \<Rightarrow> 'a kmem_scheme res" where
  "uvmclear pagetable va s =
     rbind (walk pagetable va False s) (\<lambda>(pte, s).
       if pte = 0 then Panic ''uvmclear''
       else OK (s\<lparr>mem := store64 (mem s) pte (load64 (mem s) pte AND NOT PTE_U)\<rparr>))"

section \<open>Copies between kernel and user memory\<close>

text \<open>
  \<^verbatim>\<open>copyout\<close> first gives the page a private copy when its entry carries the
  copy-on-write bit.  When that allocation fails the code marks the process killed and
  then still copies the page to address 0, a kernel fault.
\<close>

definition copyout_cow :: "u64 \<Rightarrow> u64 \<Rightarrow> u64 \<Rightarrow> 'a kmem_scheme \<Rightarrow> (u64 \<times> 'a kmem_scheme) res" where
  "copyout_cow pagetable va0 pa0 s =
     rbind (walk pagetable va0 False s) (\<lambda>(pte, s).
       let flags = PTE_FLAGS (load64 (mem s) pte) in
       if flags AND PTE_C \<noteq> 0 then
         (let flags = (flags AND NOT PTE_C) OR PTE_W in
          rbind (kalloc s) (\<lambda>(page, s).
            if page = 0 then kernel_fault
            else
              (let m = memmove page pa0 4096 (mem s);
                   m = store64 m pte (PA2PTE page OR flags)
               in rbind (kfree pa0 (s\<lparr>mem := m\<rparr>)) (\<lambda>s.
                  rbind (walkaddr pagetable va0 s) (\<lambda>pa0. OK (pa0, s))))))
       else OK (pa0, s))"

text \<open>Bytes of the page that a copy starting at \<open>va\<close> may touch: \<^verbatim>\<open>n = PGSIZE - (va - va0)\<close>
  cut to \<open>len\<close>.\<close>

definition chunk :: "u64 \<Rightarrow> nat \<Rightarrow> nat" where
  "chunk va len = (let n = unat (PGSIZE - (va - PGROUNDDOWN va)) in if n > len then len else n)"

lemma chunk_pos: "0 < len \<Longrightarrow> 0 < chunk va len"
proof -
  assume "0 < len"
  have "unat (va - PGROUNDDOWN va) < 4096"
    by (simp add: unat_sub_if_size unat_PGROUNDDOWN PGROUNDDOWN_le word_le_nat_alt)
  then have "PGSIZE - (va - PGROUNDDOWN va) \<noteq> 0" by auto
  then have "0 < unat (PGSIZE - (va - PGROUNDDOWN va))" unfolding unat_gt_0 .
  then show ?thesis using \<open>0 < len\<close> by (simp add: chunk_def Let_def)
qed

lemma chunk_le: "chunk va len \<le> len"
  by (simp add: chunk_def Let_def)

function copyout :: "u64 \<Rightarrow> u64 \<Rightarrow> u8 list \<Rightarrow> 'a kmem_scheme \<Rightarrow> (int \<times> 'a kmem_scheme) res" where
  "copyout pagetable dstva src s =
     (if src = [] then OK (0, s)
      else
        (let va0 = PGROUNDDOWN dstva in
         rbind (walkaddr pagetable va0 s) (\<lambda>pa0.
           if pa0 = 0 then OK (-1, s)
           else
             rbind (copyout_cow pagetable va0 pa0 s) (\<lambda>(pa0, s).
               (let n = chunk dstva (length src)
                in copyout pagetable (va0 + PGSIZE) (drop n src)
                     (s\<lparr>mem := store_bytes (mem s) (pa0 + (dstva - va0)) (take n src)\<rparr>))))))"
  by pat_completeness auto
termination
  by (relation "measure (\<lambda>(pt, dstva, src, s). length src)") (auto simp: chunk_pos)

declare copyout.simps [simp del]

text \<open>
  \<^verbatim>\<open>copyin\<close> and \<^verbatim>\<open>copyinstr\<close> yield, with the return code, the bytes they have stored
  at \<^verbatim>\<open>dst\<close>; on an error those are the bytes copied before it.
\<close>

function copyin :: "u64 \<Rightarrow> u64 \<Rightarrow> nat \<Rightarrow> 'a kmem_scheme \<Rightarrow> (int \<times> u8 list) res" where
  "copyin pagetable srcva len s =
     (if len = 0 then OK (0, [])
      else
        (let va0 = PGROUNDDOWN srcva in
         rbind (walkaddr pagetable va0 s) (\<lambda>pa0.
           if pa0 = 0 then OK (-1, [])
           else
             (let n = chunk srcva len in
              rbind (copyin pagetable (va0 + PGSIZE) (len - n) s) (\<lambda>(r, bs).
                OK (r, load_bytes (mem s) (pa0 + (srcva - va0)) n @ bs))))))"
  by pat_completeness auto
termination
  by (relation "measure (\<lambda>(pt, srcva, len, s). len)") (auto simp: chunk_pos)

declare copyin.simps [simp del]

text \<open>The inner loop of \<^verbatim>\<open>copyinstr\<close>: the bytes stored, and whether a NUL was met.\<close>

fun copystr_page :: "memory \<Rightarrow> u64 \<Rightarrow> nat \<Rightarrow> u8 list \<times> bool" where
  "copystr_page m p 0 = ([], False)"
| "copystr_page m p (Suc n) =
     (if m p = 0 then ([0], True)
      else let (bs, got_null) = copystr_page m (p + 1) n in (m p # bs, got_null))"

function copyinstr :: "u64 \<Rightarrow> u64 \<Rightarrow> nat \<Rightarrow> 'a kmem_scheme \<Rightarrow> (int \<times> u8 list) res" where
  "copyinstr pagetable srcva max_len s =
     (if max_len = 0 then OK (-1, [])
      else
        (let va0 = PGROUNDDOWN srcva in
         rbind (walkaddr pagetable va0 s) (\<lambda>pa0.
           if pa0 = 0 then OK (-1, [])
           else
             (let n = chunk srcva max_len;
                  (bs, got_null) = copystr_page (mem s) (pa0 + (srcva - va0)) n
              in if got_null then OK (0, bs)
                 else rbind (copyinstr pagetable (va0 + PGSIZE) (max_len - n) s) (\<lambda>(r, bs').
                        OK (r, bs @ bs'))))))"
  by pat_completeness auto
termination
  by (relation "measure (\<lambda>(pt, srcva, len, s). len)") (auto simp: chunk_pos)

declare copyinstr.simps [simp del]


section \<open>What memory management leaves alone\<close>

text \<open>
  Every operation of this theory changes only the allocator's state and the contents of
  memory; whatever a component built on top keeps in the extension of the record stays.
\<close>

definition same_rest :: "'a kmem_scheme \<Rightarrow> 'a kmem_scheme \<Rightarrow> bool" where
  "same_rest s s' \<longleftrightarrow> kend s' = kend s \<and> kmem.more s' = kmem.more s"

named_theorems rest_intros

lemma same_rest_refl [simp]: "same_rest s s"
  by (simp add: same_rest_def)

lemma same_rest_trans: "same_rest s t \<Longrightarrow> same_rest t u \<Longrightarrow> same_rest s u"
  by (simp add: same_rest_def)

lemma same_rest_upd [simp]:
  "same_rest s (t\<lparr>mem := m\<rparr>) = same_rest s t" "same_rest s (t\<lparr>freelist := f\<rparr>) = same_rest s t"
  "same_rest s (t\<lparr>pgrc := r\<rparr>) = same_rest s t" "same_rest (s\<lparr>mem := m\<rparr>) t = same_rest s t"
  by (simp_all add: same_rest_def)

lemma incpgrc_rest [rest_intros]: "incpgrc pa s = OK s' \<Longrightarrow> same_rest s s'"
  by (auto simp: incpgrc_def Let_def split: if_splits)

lemma decpgrc_rest [rest_intros]: "decpgrc i s = OK s' \<Longrightarrow> same_rest s s'"
  by (auto simp: decpgrc_def split: if_splits)

lemma kfree_rest [rest_intros]: "kfree pa s = OK s' \<Longrightarrow> same_rest s s'"
  by (auto simp: kfree_def Let_def res_simps split: if_splits dest!: decpgrc_rest)

lemma kalloc_rest [rest_intros]: "kalloc s = OK (p, s') \<Longrightarrow> same_rest s s'"
  by (auto simp: kalloc_def Let_def res_simps same_rest_def split: if_splits dest!: incpgrc_rest)

lemma walk_levels_rest: "walk_levels l pt va alloc s = OK (pte, s') \<Longrightarrow> same_rest s s'"
proof (induction l arbitrary: pt s alloc)
  case (Suc l)
  then show ?case
    by (auto simp: Let_def res_simps split: if_splits dest!: kalloc_rest Suc.IH intro: same_rest_trans)
qed simp

lemma walk_rest [rest_intros]: "walk pt va alloc s = OK (pte, s') \<Longrightarrow> same_rest s s'"
  by (auto simp: walk_def split: if_splits dest: walk_levels_rest)

lemma walk_no_alloc: "walk pt va False s = OK (pte, s') \<Longrightarrow> s' = s"
proof -
  have "walk_levels l pt va False s = OK (pte, s') \<Longrightarrow> s' = s" for l
    by (induction l arbitrary: pt) (auto simp: Let_def split: if_splits)
  then show "walk pt va False s = OK (pte, s') \<Longrightarrow> s' = s" by (auto simp: walk_def split: if_splits)
qed

lemma mappages_loop_rest: "mappages_loop pt a final pa perm s = OK (r, s') \<Longrightarrow> same_rest s s'"
proof (induction pt a final pa perm s rule: mappages_loop.induct)
  case (1 pt a final pa perm s)
  obtain pte t where w: "walk pt a True s = OK (pte, t)"
    using 1(2) by (subst (asm) mappages_loop.simps) (auto simp: res_simps)
  show ?case
    using 1(2) walk_rest [OF w] 1(1) [OF w] by (subst (asm) mappages_loop.simps)
      (auto simp: w Let_def split: if_splits intro: same_rest_trans)
qed

lemma mappages_rest [rest_intros]: "mappages pt va sz pa perm s = OK (r, s') \<Longrightarrow> same_rest s s'"
  by (auto simp: mappages_def split: if_splits dest: mappages_loop_rest)

lemma kvmmap_rest [rest_intros]: "kvmmap pt va pa sz perm s = OK s' \<Longrightarrow> same_rest s s'"
  by (auto simp: kvmmap_def res_simps split: if_splits dest: mappages_rest)

lemma uvmunmap_loop_rest: "uvmunmap_loop pt a final f s = OK s' \<Longrightarrow> same_rest s s'"
proof (induction pt a final f s rule: uvmunmap_loop.induct)
  case (1 pt a final f s)
  show ?case
  proof (cases "a < final")
    case True
    obtain pte where w: "walk pt a False s = OK (pte, s)"
      using 1(2) True walk_no_alloc
      by (subst (asm) uvmunmap_loop.simps) (fastforce simp: res_simps)
    let ?free = "if f then kfree (PTE2PA (load64 (mem s) pte)) s else OK s"
    obtain t where t: "?free = OK t"
      and rec: "uvmunmap_loop pt (a + PGSIZE) final f (t\<lparr>mem := store64 (mem t) pte 0\<rparr>) = OK s'"
      and ok: "pte \<noteq> 0" "load64 (mem s) pte AND 1 \<noteq> 0" "PTE_FLAGS (load64 (mem s) pte) \<noteq> 1"
      using 1(2) True by (subst (asm) uvmunmap_loop.simps) (auto simp: w Let_def res_simps split: if_splits)
    have "same_rest s t" using t by (auto split: if_splits dest: kfree_rest)
    then show ?thesis using 1(1) [OF True w] ok t rec by (auto intro: same_rest_trans)
  next
    case False
    then show ?thesis using 1(2) by (subst (asm) uvmunmap_loop.simps) simp
  qed
qed

lemma uvmunmap_rest [rest_intros]: "uvmunmap pt va n f s = OK s' \<Longrightarrow> same_rest s s'"
  by (auto simp: uvmunmap_def split: if_splits dest: uvmunmap_loop_rest)

lemma uvmcreate_rest [rest_intros]: "uvmcreate s = OK (pt, s') \<Longrightarrow> same_rest s s'"
  by (auto simp: uvmcreate_def res_simps split: if_splits dest: kalloc_rest)

lemma uvmdealloc_rest [rest_intros]: "uvmdealloc pt old new s = OK (r, s') \<Longrightarrow> same_rest s s'"
  by (auto simp: uvmdealloc_def Let_def res_simps split: if_splits dest: uvmunmap_rest)

lemma uvmalloc_loop_rest: "uvmalloc_loop pt a old new x s = OK (r, s') \<Longrightarrow> same_rest s s'"
proof (induction pt a old new x s rule: uvmalloc_loop.induct)
  case (1 pt a old new x s)
  show ?case
  proof (cases "a < new")
    case True
    obtain page t where k: "kalloc s = OK (page, t)"
      using 1(2) True by (subst (asm) uvmalloc_loop.simps) (auto simp: res_simps)
    show ?thesis
    proof (cases "page = 0")
      case False
      obtain r1 u where m: "mappages pt a PGSIZE page (PTE_R OR PTE_U OR x)
          (t\<lparr>mem := memset page 0 4096 (mem t)\<rparr>) = OK (r1, u)"
        using 1(2) True False by (subst (asm) uvmalloc_loop.simps) (auto simp: k res_simps)
      have "same_rest s u" using kalloc_rest [OF k] mappages_rest [OF m] by (auto intro: same_rest_trans)
      then show ?thesis
        using 1(2) True False 1(1) [OF True k refl False m]
        by (subst (asm) uvmalloc_loop.simps)
          (auto simp: k m res_simps split: if_splits
            dest!: kfree_rest uvmdealloc_rest intro: same_rest_trans)
    qed (use 1(2) True k kalloc_rest [OF k] in \<open>subst (asm) uvmalloc_loop.simps,
          auto simp: res_simps dest!: uvmdealloc_rest intro: same_rest_trans\<close>)
  qed (use 1(2) in \<open>subst (asm) uvmalloc_loop.simps, simp\<close>)
qed

lemma uvmalloc_rest [rest_intros]: "uvmalloc pt old new x s = OK (r, s') \<Longrightarrow> same_rest s s'"
  by (auto simp: uvmalloc_def split: if_splits dest: uvmalloc_loop_rest)

lemma freewalk_entries_rest:
  fixes s s' :: "'a kmem_scheme"
  assumes "\<And>pt (s :: 'a kmem_scheme) s'. freewalk_depth d pt s = OK s' \<Longrightarrow> same_rest s s'"
  shows "freewalk_entries d pt is s = OK s' \<Longrightarrow> same_rest s s'"
proof (induction "is" arbitrary: s)
  case (Cons i "is")
  show ?case
    using Cons.prems
    by (auto simp: Let_def res_simps split: if_splits dest!: assms Cons.IH intro: same_rest_trans)
qed simp

lemma freewalk_depth_rest: "freewalk_depth d pt s = OK s' \<Longrightarrow> same_rest s s'"
proof (induction d arbitrary: pt s s')
  case (Suc d)
  obtain t where t: "freewalk_entries d pt [0..<512] s = OK t" "kfree pt t = OK s'"
    using Suc.prems by (auto simp: res_simps)
  have "same_rest s t" using t(1) by (rule freewalk_entries_rest [rotated]) (rule Suc.IH)
  then show ?case using kfree_rest [OF t(2)] by (rule same_rest_trans)
qed simp

lemma freewalk_rest [rest_intros]: "freewalk pt s = OK s' \<Longrightarrow> same_rest s s'"
  by (simp add: freewalk_def freewalk_depth_rest)

lemma uvmfree_rest [rest_intros]: "uvmfree pt sz s = OK s' \<Longrightarrow> same_rest s s'"
  by (auto simp: uvmfree_def res_simps split: if_splits dest!: uvmunmap_rest freewalk_rest
    intro: same_rest_trans)

lemma uvmcopy_loop_rest: "uvmcopy_loop old new i sz s = OK (r, s') \<Longrightarrow> same_rest s s'"
proof (induction old new i sz s rule: uvmcopy_loop.induct)
  case (1 old new i sz s)
  show ?case
  proof (cases "i < sz")
    case True
    obtain pte where w: "walk old i False s = OK (pte, s)"
      using 1(2) True walk_no_alloc by (subst (asm) uvmcopy_loop.simps) (fastforce simp: res_simps)
    let ?e = "load64 (mem s) pte"
    let ?fs = "if ?e AND PTE_W \<noteq> 0
       then ((PTE_FLAGS ?e AND NOT PTE_W) OR PTE_C, s\<lparr>mem := store64 (mem s) pte ((?e AND NOT PTE_W) OR PTE_C)\<rparr>)
       else (PTE_FLAGS ?e, s)"
    obtain flags t where fs: "?fs = (flags, t)" by (cases ?fs)
    have st: "same_rest s t" using fs by (auto split: if_splits)
    have ok: "pte \<noteq> 0" "?e AND PTE_V \<noteq> 0"
      using 1(2) True by (subst (asm) uvmcopy_loop.simps, auto simp: w Let_def split: if_splits)+
    obtain r1 u where m: "mappages new i PGSIZE (PTE2PA ?e) flags t = OK (r1, u)"
      using 1(2) True ok fs by (subst (asm) uvmcopy_loop.simps) (auto simp: w Let_def res_simps split: prod.splits)
    have su: "same_rest s u" using st mappages_rest [OF m] by (rule same_rest_trans)
    have step: "rbind (if r1 \<noteq> 0 then rbind (uvmunmap new 0 (i div PGSIZE) True u) (\<lambda>s. OK (-1, s))
        else rbind (incpgrc (PTE2PA ?e) u) (uvmcopy_loop old new (i + PGSIZE) sz)) OK = OK (r, s')"
      using 1(2) True ok fs m by (subst (asm) uvmcopy_loop.simps) (simp add: w Let_def)
    show ?thesis
    proof (cases "r1 \<noteq> 0")
      case False
      then obtain v where v: "incpgrc (PTE2PA ?e) u = OK v" "uvmcopy_loop old new (i + PGSIZE) sz v = OK (r, s')"
        using step by (auto simp: res_simps)
      have "same_rest v s'"
        using 1(1) [OF True w refl ok(1) refl ok(2)] fs m False v by metis
      then show ?thesis using su incpgrc_rest [OF v(1)] by (blast intro: same_rest_trans)
    qed (use step su in \<open>auto simp: res_simps dest!: uvmunmap_rest intro: same_rest_trans\<close>)
  qed (use 1(2) in \<open>subst (asm) uvmcopy_loop.simps, simp\<close>)
qed

lemma uvmcopy_rest [rest_intros]: "uvmcopy old new sz s = OK (r, s') \<Longrightarrow> same_rest s s'"
  by (simp add: uvmcopy_def uvmcopy_loop_rest)

lemma uvmclear_rest [rest_intros]: "uvmclear pt va s = OK s' \<Longrightarrow> same_rest s s'"
  by (auto simp: uvmclear_def res_simps split: if_splits dest: walk_rest)

lemma copyout_cow_rest [rest_intros]: "copyout_cow pt va0 pa0 s = OK (p, s') \<Longrightarrow> same_rest s s'"
  by (auto simp: copyout_cow_def Let_def res_simps split: if_splits
    dest!: walk_rest kalloc_rest kfree_rest intro: same_rest_trans)

lemma copyout_rest [rest_intros]: "copyout pt dstva src s = OK (r, s') \<Longrightarrow> same_rest s s'"
proof (induction pt dstva src s rule: copyout.induct)
  case (1 pt dstva src s)
  show ?case
  proof (cases "src = []")
    case False
    let ?va0 = "PGROUNDDOWN dstva"
    obtain pa0 where w: "walkaddr pt ?va0 s = OK pa0"
      using 1(2) False by (subst (asm) copyout.simps) (auto simp: res_simps Let_def)
    show ?thesis
    proof (cases "pa0 = 0")
      case nz: False
      obtain pa1 t where c: "copyout_cow pt ?va0 pa0 s = OK (pa1, t)"
        using 1(2) False nz by (subst (asm) copyout.simps) (auto simp: w res_simps Let_def)
      show ?thesis
        using 1(2) False nz copyout_cow_rest [OF c] 1(1) [OF False refl w nz c refl refl]
        by (subst (asm) copyout.simps) (auto simp: w c Let_def intro: same_rest_trans)
    qed (use 1(2) False w in \<open>subst (asm) copyout.simps, auto simp: Let_def\<close>)
  qed (use 1(2) in \<open>subst (asm) copyout.simps, simp\<close>)
qed

end
