(* ===== verification/Spinlock.thy ===== *)
theory Spinlock
  imports Riscv
begin

text \<open>
  Spin locks, \<^verbatim>\<open>kernel/spinlock.c\<close>.  The functions run on several harts at once, so each is
  cut at its accesses to the shared \<^verbatim>\<open>lk->locked\<close>: \<^verbatim>\<open>acquire\<close> is \<open>acquire_enter\<close>, any number of
  atomic swaps \<open>acquire_swap\<close>, then \<open>acquire_record\<close>; \<^verbatim>\<open>release\<close> is \<open>release_enter\<close>, then
  \<open>release_unlock\<close>.  The relation \<open>lock_step\<close> interleaves these pieces over all harts and
  locks.
\<close>

section \<open>Locks and CPUs\<close>

text \<open>
  \<open>lcpu\<close> is the pointer \<^verbatim>\<open>lk->cpu\<close> as a hart number.  \<open>sie\<close> is the interrupt-enable bit of the
  hart's \<^verbatim>\<open>sstatus\<close> register, which \<^verbatim>\<open>intr_get\<close>, \<^verbatim>\<open>intr_on\<close> and \<^verbatim>\<open>intr_off\<close> access.
\<close>

record spinlock =
  locked :: u32
  lname :: string
  lcpu :: "nat option"

record cpu =
  cproc :: "nat option"
  noff :: int
  intena :: bool
  sie :: bool

definition initlock :: "string \<Rightarrow> spinlock" where
  "initlock name = \<lparr>locked = 0, lname = name, lcpu = None\<rparr>"

definition holding :: "nat \<Rightarrow> spinlock \<Rightarrow> bool" where
  "holding c lk \<longleftrightarrow> locked lk \<noteq> 0 \<and> lcpu lk = Some c"

definition push_off :: "cpu \<Rightarrow> cpu" where
  "push_off c =
     (let old = sie c;
          c = c\<lparr>sie := False\<rparr>;
          c = (if noff c = 0 then c\<lparr>intena := old\<rparr> else c)
      in c\<lparr>noff := noff c + 1\<rparr>)"

definition pop_off :: "cpu \<Rightarrow> cpu res" where
  "pop_off c =
     (if sie c then Panic ''pop_off - interruptible''
      else if noff c < 1 then Panic ''pop_off''
      else
        (let c = c\<lparr>noff := noff c - 1\<rparr>
         in OK (if noff c = 0 \<and> intena c then c\<lparr>sie := True\<rparr> else c)))"

text \<open>\<^verbatim>\<open>acquire\<close>: interrupts off and the check against re-acquiring.\<close>

definition acquire_enter :: "nat \<Rightarrow> spinlock \<Rightarrow> cpu \<Rightarrow> cpu res" where
  "acquire_enter c lk cp =
     (let cp = push_off cp in if holding c lk then Panic ''acquire'' else OK cp)"

text \<open>\<^verbatim>\<open>__sync_lock_test_and_set(&lk->locked, 1)\<close>: the old value and the lock with 1 stored.\<close>

definition acquire_swap :: "spinlock \<Rightarrow> u32 \<times> spinlock" where
  "acquire_swap lk = (locked lk, lk\<lparr>locked := 1\<rparr>)"

definition acquire_record :: "nat \<Rightarrow> spinlock \<Rightarrow> spinlock" where
  "acquire_record c lk = lk\<lparr>lcpu := Some c\<rparr>"

definition release_enter :: "nat \<Rightarrow> spinlock \<Rightarrow> spinlock res" where
  "release_enter c lk =
     (if \<not> holding c lk then Panic ''release'' else OK (lk\<lparr>lcpu := None\<rparr>))"

definition release_unlock :: "spinlock \<Rightarrow> spinlock" where
  "release_unlock lk = lk\<lparr>locked := 0\<rparr>"

section \<open>Interleavings of all harts\<close>

text \<open>
  Where a hart is: running other code, spinning on a lock, past the swap but before
  recording itself, or in the middle of a release.
\<close>

datatype lock_pc = Running | Spinning nat | Swapped nat | Releasing nat

record lock_sys =
  cpus :: "nat \<Rightarrow> cpu"
  locks :: "nat \<Rightarrow> spinlock"
  pcs :: "nat \<Rightarrow> lock_pc"

definition boot_locks :: "lock_sys \<Rightarrow> bool" where
  "boot_locks s \<longleftrightarrow> (\<forall>l. \<exists>n. locks s l = initlock n)
     \<and> (\<forall>c. noff (cpus s c) = 0 \<and> pcs s c = Running)"

inductive lock_step :: "lock_sys \<Rightarrow> lock_sys \<Rightarrow> bool" where
  enter: "pcs s c = Running \<Longrightarrow> acquire_enter c (locks s l) (cpus s c) = OK cp \<Longrightarrow>
    lock_step s (s\<lparr>cpus := (cpus s)(c := cp), pcs := (pcs s)(c := Spinning l)\<rparr>)"
| spin: "pcs s c = Spinning l \<Longrightarrow> acquire_swap (locks s l) = (old, lk) \<Longrightarrow> old \<noteq> 0 \<Longrightarrow>
    lock_step s (s\<lparr>locks := (locks s)(l := lk)\<rparr>)"
| swap: "pcs s c = Spinning l \<Longrightarrow> acquire_swap (locks s l) = (old, lk) \<Longrightarrow> old = 0 \<Longrightarrow>
    lock_step s (s\<lparr>locks := (locks s)(l := lk), pcs := (pcs s)(c := Swapped l)\<rparr>)"
| note_cpu: "pcs s c = Swapped l \<Longrightarrow>
    lock_step s (s\<lparr>locks := (locks s)(l := acquire_record c (locks s l)), pcs := (pcs s)(c := Running)\<rparr>)"
| leave: "pcs s c = Running \<Longrightarrow> release_enter c (locks s l) = OK lk \<Longrightarrow>
    lock_step s (s\<lparr>locks := (locks s)(l := lk), pcs := (pcs s)(c := Releasing l)\<rparr>)"
| unlock: "pcs s c = Releasing l \<Longrightarrow> pop_off (cpus s c) = OK cp \<Longrightarrow>
    lock_step s (s\<lparr>locks := (locks s)(l := release_unlock (locks s l)),
                  cpus := (cpus s)(c := cp), pcs := (pcs s)(c := Running)\<rparr>)"
| intr: "pcs s c = Running \<Longrightarrow> noff (cpus s c) = 0 \<Longrightarrow>
    lock_step s (s\<lparr>cpus := (cpus s)(c := (cpus s c)\<lparr>sie := b\<rparr>)\<rparr>)"

inductive_cases lock_stepE: "lock_step s s'"

inductive lock_reachable :: "lock_sys \<Rightarrow> bool" where
  boot: "boot_locks s \<Longrightarrow> lock_reachable s"
| step: "lock_reachable s \<Longrightarrow> lock_step s s' \<Longrightarrow> lock_reachable s'"

section \<open>Mutual exclusion\<close>

text \<open>
  A hart owns a lock from its successful swap until its unlocking store.  \<open>in_section\<close> is the
  part of that in which it runs the code the lock protects.
\<close>

definition owns :: "lock_sys \<Rightarrow> nat \<Rightarrow> nat \<Rightarrow> bool" where
  "owns s c l \<longleftrightarrow> pcs s c = Swapped l \<or> pcs s c = Releasing l \<or> lcpu (locks s l) = Some c"

definition in_section :: "lock_sys \<Rightarrow> nat \<Rightarrow> nat \<Rightarrow> bool" where
  "in_section s c l \<longleftrightarrow> holding c (locks s l)"

definition lock_inv :: "lock_sys \<Rightarrow> bool" where
  "lock_inv s \<longleftrightarrow>
     (\<forall>l. if locked (locks s l) = 0 then \<forall>c. \<not> owns s c l else \<exists>c. \<forall>d. owns s d l \<longleftrightarrow> d = c)
     \<and> (\<forall>c l. pcs s c = Swapped l \<or> pcs s c = Releasing l \<longrightarrow> lcpu (locks s l) = None)"

lemma lock_invD:
  assumes "lock_inv s"
  shows "locked (locks s l) = 0 \<Longrightarrow> \<not> owns s c l"
    "owns s c l \<Longrightarrow> owns s d l \<longleftrightarrow> d = c"
    "owns s c l \<Longrightarrow> locked (locks s l) \<noteq> 0"
    "pcs s c = Swapped l \<Longrightarrow> lcpu (locks s l) = None"
    "pcs s c = Releasing l \<Longrightarrow> lcpu (locks s l) = None"
  using assms unfolding lock_inv_def by metis+

lemma lock_inv_cong:
  assumes "lock_inv s" "\<And>l. locked (locks s' l) = 0 \<longleftrightarrow> locked (locks s l) = 0"
    "\<And>c l. owns s' c l \<longleftrightarrow> owns s c l"
    "\<And>c l. pcs s' c = Swapped l \<or> pcs s' c = Releasing l \<Longrightarrow> lcpu (locks s' l) = None"
  shows "lock_inv s'"
  using assms by (simp add: lock_inv_def)

lemma lock_inv_step: "lock_step s s' \<Longrightarrow> lock_inv s \<Longrightarrow> lock_inv s'"
proof (induction rule: lock_step.induct)
  case (enter s c l cp)
  show ?case
    by (rule lock_inv_cong [OF enter.prems])
      (use enter lock_invD(4,5) [OF enter.prems] in \<open>auto simp: owns_def split: if_splits\<close>)
next
  case (spin s c l old lk)
  show ?case
    by (rule lock_inv_cong [OF spin.prems])
      (use spin lock_invD(4,5) [OF spin.prems] in
        \<open>auto simp: owns_def acquire_swap_def split: if_splits\<close>)
next
  case (swap s c l old lk)
  let ?s = "s\<lparr>locks := (locks s)(l := lk), pcs := (pcs s)(c := Swapped l)\<rparr>"
  have none: "\<not> owns s d l" for d
    using swap lock_invD(1) by (auto simp: acquire_swap_def)
  have o: "owns ?s d k \<longleftrightarrow> (if k = l then d = c else owns s d k)" for d k
    using none swap by (auto simp: owns_def acquire_swap_def)
  have "lcpu (locks ?s k) = None" if "pcs ?s d = Swapped k \<or> pcs ?s d = Releasing k" for d k
    using that none [of "the (lcpu (locks s l))"] swap lock_invD(4,5) [OF swap.prems]
    by (cases "lcpu (locks s l)") (auto simp: owns_def acquire_swap_def split: if_splits)
  then show ?case
    using swap o unfolding lock_inv_def by (auto simp: acquire_swap_def)
next
  case (note_cpu s c l)
  have l: "lcpu (locks s l) = None" "owns s c l"
    using note_cpu lock_invD(4,5) by (auto simp: owns_def)
  have u: "owns s d l \<longleftrightarrow> d = c" for d using lock_invD(2) [OF note_cpu.prems l(2)] .
  show ?case
  proof (rule lock_inv_cong [OF note_cpu.prems])
    fix d k
    show "owns (s\<lparr>locks := (locks s)(l := acquire_record c (locks s l)), pcs := (pcs s)(c := Running)\<rparr>) d k
        \<longleftrightarrow> owns s d k"
      using u [of d] note_cpu l by (auto simp: owns_def acquire_record_def split: if_splits)
  qed (use note_cpu u lock_invD(4,5) [OF note_cpu.prems] in
        \<open>auto simp: owns_def acquire_record_def split: if_splits\<close>)
next
  case (leave s c l lk)
  have h: "lcpu (locks s l) = Some c" "lk = (locks s l)\<lparr>lcpu := None\<rparr>"
    using leave by (auto simp: release_enter_def holding_def split: if_splits)
  have u: "owns s d l \<longleftrightarrow> d = c" for d
    using lock_invD(2) [OF leave.prems, of c l] h by (auto simp: owns_def)
  show ?case
  proof (rule lock_inv_cong [OF leave.prems])
    fix d k
    show "owns (s\<lparr>locks := (locks s)(l := lk), pcs := (pcs s)(c := Releasing l)\<rparr>) d k \<longleftrightarrow> owns s d k"
      using u [of d] leave h by (auto simp: owns_def split: if_splits)
  qed (use leave h lock_invD(4,5) [OF leave.prems] in \<open>auto split: if_splits\<close>)
next
  case (unlock s c l cp)
  let ?s = "s\<lparr>locks := (locks s)(l := release_unlock (locks s l)),
              cpus := (cpus s)(c := cp), pcs := (pcs s)(c := Running)\<rparr>"
  have l: "lcpu (locks s l) = None" "owns s c l"
    using unlock lock_invD(4,5) by (auto simp: owns_def)
  have u: "owns s d l \<longleftrightarrow> d = c" for d using lock_invD(2) [OF unlock.prems l(2)] .
  have o: "owns ?s d k \<longleftrightarrow> k \<noteq> l \<and> owns s d k" for d k
    using u [of d] l unlock by (auto simp: owns_def release_unlock_def split: if_splits)
  have "lcpu (locks ?s k) = None" if "pcs ?s d = Swapped k \<or> pcs ?s d = Releasing k" for d k
    using that unlock lock_invD(4,5) [OF unlock.prems] by (auto simp: release_unlock_def split: if_splits)
  then show ?case
    using unlock.prems o unfolding lock_inv_def by (auto simp: release_unlock_def)
next
  case (intr s c b)
  show ?case
    by (rule lock_inv_cong [OF intr.prems])
      (use lock_invD(4,5) [OF intr.prems] in \<open>auto simp: owns_def\<close>)
qed

lemma lock_inv_boot: "boot_locks s \<Longrightarrow> lock_inv s"
proof -
  assume b: "boot_locks s"
  then have "locks s l = initlock (lname (locks s l))" for l
    by (metis boot_locks_def initlock_def spinlock.select_convs(2))
  then have "locked (locks s l) = 0" "lcpu (locks s l) = None" for l
    by (metis initlock_def spinlock.select_convs)+
  then show ?thesis using b by (simp add: lock_inv_def boot_locks_def owns_def)
qed

lemma lock_reachable_inv: "lock_reachable s \<Longrightarrow> lock_inv s"
  by (induction rule: lock_reachable.induct) (auto intro: lock_inv_boot lock_inv_step)

section \<open>Interrupts while locks are held\<close>

text \<open>
  \<open>depth\<close> counts the \<^verbatim>\<open>push_off\<close> calls of a hart that are not yet undone: one per lock it owns
  and one while it spins.
\<close>

definition depth :: "lock_sys \<Rightarrow> nat \<Rightarrow> nat" where
  "depth s c = card {l. owns s c l} + (case pcs s c of Spinning l \<Rightarrow> 1 | _ \<Rightarrow> 0)"

definition noff_inv :: "lock_sys \<Rightarrow> bool" where
  "noff_inv s \<longleftrightarrow> (\<forall>c. finite {l. owns s c l} \<and> noff (cpus s c) = int (depth s c)
     \<and> (0 < noff (cpus s c) \<longrightarrow> \<not> sie (cpus s c)))"

lemma noff_invI:
  assumes "noff_inv s"
    and other: "\<And>d. d \<noteq> c \<Longrightarrow> cpus s' d = cpus s d \<and> pcs s' d = pcs s d \<and> (\<forall>l. owns s' d l = owns s d l)"
    and fin: "finite {l. owns s' c l}" and noff: "noff (cpus s' c) = int (depth s' c)"
    and off: "0 < noff (cpus s' c) \<Longrightarrow> \<not> sie (cpus s' c)"
  shows "noff_inv s'"
  unfolding noff_inv_def
proof
  fix d
  show "finite {l. owns s' d l} \<and> noff (cpus s' d) = int (depth s' d)
     \<and> (0 < noff (cpus s' d) \<longrightarrow> \<not> sie (cpus s' d))"
    using assms by (cases "d = c") (auto simp: noff_inv_def depth_def)
qed

lemma noff_invD:
  assumes "noff_inv s"
  shows "finite {l. owns s c l}" "noff (cpus s c) = int (depth s c)"
    "0 < noff (cpus s c) \<Longrightarrow> \<not> sie (cpus s c)" "owns s c l \<Longrightarrow> 0 < depth s c"
  using assms by (auto simp: noff_inv_def depth_def card_gt_0_iff)

lemma noff_inv_step: "lock_step s s' \<Longrightarrow> lock_inv s \<Longrightarrow> noff_inv s \<Longrightarrow> noff_inv s'"
proof (induction rule: lock_step.induct)
  case (enter s c l cp)
  note D = noff_invD [OF enter.prems(2), of c]
  have cp: "cp = push_off (cpus s c)"
    using enter by (auto simp: acquire_enter_def Let_def split: if_splits)
  have o: "owns (s\<lparr>cpus := (cpus s)(c := cp), pcs := (pcs s)(c := Spinning l)\<rparr>) d k \<longleftrightarrow> owns s d k" for d k
    using enter by (auto simp: owns_def)
  show ?case
    by (rule noff_invI [OF enter.prems(2), of c])
      (use enter D o cp in \<open>auto simp: depth_def push_off_def Let_def\<close>)
next
  case (spin s c l old lk)
  have o: "owns (s\<lparr>locks := (locks s)(l := lk)\<rparr>) d k \<longleftrightarrow> owns s d k" for d k
    using spin by (auto simp: owns_def acquire_swap_def)
  show ?case
    by (rule noff_invI [OF spin.prems(2), of c])
      (use o noff_invD [OF spin.prems(2), of c] in \<open>auto simp: depth_def\<close>)
next
  case (swap s c l old lk)
  let ?s = "s\<lparr>locks := (locks s)(l := lk), pcs := (pcs s)(c := Swapped l)\<rparr>"
  have none: "\<not> owns s d l" for d
    using swap lock_invD(1) by (auto simp: acquire_swap_def)
  have o: "owns ?s d k \<longleftrightarrow> owns s d k \<or> d = c \<and> k = l" for d k
    using none swap by (auto simp: owns_def acquire_swap_def)
  then have "{k. owns ?s c k} = insert l {k. owns s c k}" by auto
  then show ?case
    by (intro noff_invI [OF swap.prems(2), of c])
      (use o none swap noff_invD [OF swap.prems(2), of c] in \<open>auto simp: depth_def\<close>)
next
  case (note_cpu s c l)
  have l: "lcpu (locks s l) = None" "owns s c l"
    using note_cpu lock_invD(4) by (auto simp: owns_def)
  have u: "owns s d l \<longleftrightarrow> d = c" for d using lock_invD(2) [OF note_cpu.prems(1) l(2)] .
  have o: "owns (s\<lparr>locks := (locks s)(l := acquire_record c (locks s l)), pcs := (pcs s)(c := Running)\<rparr>) d k
      \<longleftrightarrow> owns s d k" for d k
    using u [of d] note_cpu l by (auto simp: owns_def acquire_record_def split: if_splits)
  show ?case
    by (rule noff_invI [OF note_cpu.prems(2), of c])
      (use o note_cpu noff_invD [OF note_cpu.prems(2), of c] in \<open>auto simp: depth_def\<close>)
next
  case (leave s c l lk)
  have h: "lcpu (locks s l) = Some c" "lk = (locks s l)\<lparr>lcpu := None\<rparr>"
    using leave by (auto simp: release_enter_def holding_def split: if_splits)
  have u: "owns s d l \<longleftrightarrow> d = c" for d
    using lock_invD(2) [OF leave.prems(1), of c l] h by (auto simp: owns_def)
  have o: "owns (s\<lparr>locks := (locks s)(l := lk), pcs := (pcs s)(c := Releasing l)\<rparr>) d k \<longleftrightarrow> owns s d k" for d k
    using u [of d] leave h by (auto simp: owns_def split: if_splits)
  show ?case
    by (rule noff_invI [OF leave.prems(2), of c])
      (use o leave noff_invD [OF leave.prems(2), of c] in \<open>auto simp: depth_def\<close>)
next
  case (unlock s c l cp)
  let ?s = "s\<lparr>locks := (locks s)(l := release_unlock (locks s l)),
              cpus := (cpus s)(c := cp), pcs := (pcs s)(c := Running)\<rparr>"
  have l: "lcpu (locks s l) = None" "owns s c l"
    using unlock lock_invD(5) by (auto simp: owns_def)
  have u: "owns s d l \<longleftrightarrow> d = c" for d using lock_invD(2) [OF unlock.prems(1) l(2)] .
  have o: "owns ?s d k \<longleftrightarrow> k \<noteq> l \<and> owns s d k" for d k
    using u [of d] l unlock by (auto simp: owns_def release_unlock_def split: if_splits)
  then have set: "{k. owns ?s c k} = {k. owns s c k} - {l}" by auto
  note D = noff_invD [OF unlock.prems(2), of c]
  have "noff cp = noff (cpus s c) - 1" "0 < noff cp \<Longrightarrow> \<not> sie cp"
    using unlock by (auto simp: pop_off_def Let_def split: if_splits)
  moreover have "depth ?s c = depth s c - 1" "0 < depth s c"
    using D l unlock set by (auto simp: depth_def card_gt_0_iff)
  ultimately show ?case
    by (intro noff_invI [OF unlock.prems(2), of c]) (use o u D set in \<open>auto simp: of_nat_diff\<close>)
next
  case (intr s c b)
  show ?case
    by (rule noff_invI [OF intr.prems(2), of c])
      (use intr noff_invD [OF intr.prems(2), of c] in \<open>auto simp: depth_def owns_def\<close>)
qed

lemma noff_inv_boot: "boot_locks s \<Longrightarrow> noff_inv s"
proof -
  assume b: "boot_locks s"
  then have "\<not> owns s c l" for c l
    using lock_inv_boot [OF b] unfolding boot_locks_def
    by (metis lock_invD(1) initlock_def spinlock.select_convs(1))
  then show ?thesis using b by (simp add: noff_inv_def depth_def boot_locks_def)
qed

lemma lock_reachable_noff: "lock_reachable s \<Longrightarrow> noff_inv s"
  by (induction rule: lock_reachable.induct)
    (auto intro: noff_inv_boot noff_inv_step lock_reachable_inv)

section \<open>Properties\<close>

text \<open>
  C5 (mutual exclusion). In every state reachable by interleaving \<^verbatim>\<open>acquire\<close> and \<^verbatim>\<open>release\<close>
  of any number of harts and locks, at most one hart is between its successful swap of a
  lock and the store that unlocks it, and then the lock word is non-zero.
\<close>

theorem spinlock_mutual_exclusion:
  assumes "lock_reachable s" "owns s c l"
  shows "locked (locks s l) \<noteq> 0 \<and> (\<forall>d. owns s d l \<longrightarrow> d = c)"
  using lock_invD [OF lock_reachable_inv [OF assms(1)]] assms(2) by blast

text \<open>
  C6 (no interrupts under a lock, no panic on unlock). In every reachable state a hart that
  owns a lock runs with interrupts disabled, its \<^verbatim>\<open>noff\<close> counter is the number of locks it
  owns or spins on, and the \<^verbatim>\<open>pop_off\<close> that ends a release never panics.
\<close>

theorem spinlock_interrupts_off:
  assumes "lock_reachable s" "owns s c l"
  shows "\<not> sie (cpus s c) \<and> noff (cpus s c) = int (depth s c) \<and> 0 < depth s c
    \<and> (\<exists>cp. pop_off (cpus s c) = OK cp)"
proof -
  note D = noff_invD [OF lock_reachable_noff [OF assms(1)], of c]
  have "0 < depth s c" using D(4) assms(2) by blast
  then show ?thesis using D(2,3) by (simp add: pop_off_def Let_def)
qed

text \<open>Two harts: hart 0 has swapped lock 7, the other one still runs.\<close>

definition lock_example :: "lock_pc \<Rightarrow> u32 \<Rightarrow> int \<Rightarrow> lock_sys" where
  "lock_example pc w n =
     \<lparr>cpus = (\<lambda>c. if c = 0 then \<lparr>cproc = None, noff = n, intena = False, sie = False\<rparr>
                    else \<lparr>cproc = None, noff = 0, intena = False, sie = False\<rparr>),
      locks = (\<lambda>l. if l = 7 then (initlock ''l'')\<lparr>locked := w\<rparr> else initlock ''l''),
      pcs = (\<lambda>c. if c = 0 then pc else Running)\<rparr>"

lemma lock_example_reachable: "lock_reachable (lock_example (Swapped 7) 1 1)"
proof -
  have "lock_reachable (lock_example Running 0 0)"
    by (rule lock_reachable.boot) (auto simp: boot_locks_def lock_example_def initlock_def)
  moreover have "lock_step (lock_example Running 0 0) (lock_example (Spinning 7) 0 1)"
    using lock_step.enter [of "lock_example Running 0 0" 0 7 "push_off (cpus (lock_example Running 0 0) 0)"]
    by (simp add: lock_example_def acquire_enter_def push_off_def holding_def initlock_def Let_def
      fun_upd_def cong: if_cong)
  moreover have "lock_step (lock_example (Spinning 7) 0 1) (lock_example (Swapped 7) 1 1)"
    using lock_step.swap [of "lock_example (Spinning 7) 0 1" 0 7 0
        "(locks (lock_example (Spinning 7) 0 1) 7)\<lparr>locked := 1\<rparr>"]
    by (simp add: lock_example_def acquire_swap_def initlock_def fun_upd_def cong: if_cong)
  ultimately show ?thesis by (blast intro: lock_reachable.step)
qed

lemma lock_example_owns: "owns (lock_example (Swapped 7) 1 1) 0 7"
  by (simp add: owns_def lock_example_def)

theorem spinlock_mutual_exclusion_witness:
  "\<not> owns (lock_example (Swapped 7) 1 1) 1 7"
  using spinlock_mutual_exclusion [OF lock_example_reachable lock_example_owns] by fastforce

theorem spinlock_interrupts_off_witness:
  "\<not> sie (cpus (lock_example (Swapped 7) 1 1) 0) \<and> depth (lock_example (Swapped 7) 1 1) 0 = 1"
proof -
  have "noff (cpus (lock_example (Swapped 7) 1 1) 0) = 1" by (simp add: lock_example_def)
  then show ?thesis
    using spinlock_interrupts_off [OF lock_example_reachable lock_example_owns] by simp
qed

end
