(* ===== verification/Proc.thy ===== *)
theory Proc
  imports VM Spinlock
begin

text \<open>
  The process table of \<^verbatim>\<open>kernel/proc.h\<close> and \<^verbatim>\<open>kernel/proc.c\<close>: allocation and release of
  process slots, per-process page tables, sleep, wakeup and kill.  A pointer to a process
  is its index in \<^verbatim>\<open>proc[NPROC]\<close>; each critical section under a process lock is one atomic
  step.  The scheduler is chosen when the kernel is compiled; \<open>policy\<close> is that choice, and
  a process carries the fields of all variants, of which only those of the policy in use
  are written.
\<close>

section \<open>State\<close>

datatype sched_policy = RR | FCFS | PBS | MLFQ | LBS

datatype procstate = UNUSED | USED | SLEEPING | RUNNABLE | RUNNING | ZOMBIE

text \<open>
  The addresses processes sleep on.  They are the addresses of distinct kernel objects;
  \<open>Chan0\<close> is the null pointer.
\<close>

datatype channel =
    Chan0
  | ChTicks
  | ChProc nat
  | ChPipeRead u64
  | ChPipeWrite u64
  | ChLog
  | ChBufLock nat
  | ChInodeLock nat
  | ChConsole
  | ChUart
  | ChDiskBuf nat
  | ChDiskFree

record kcontext =
  ctx_ra :: u64
  ctx_sp :: u64
  ctx_s :: "u64 list"

record proc =
  state :: procstate
  chan :: channel
  killed_flag :: int
  xstate :: int
  pid :: int
  stick :: int
  priority :: int
  tickls :: int
  tickslp :: int
  tickrng :: int
  niceness :: int
  nscheduled :: int
  queue :: int
  waittime :: int
  ticksused :: int
  intime :: int
  tickets :: int
  parent :: "nat option"
  kstack :: u64
  psz :: u64
  pagetable :: u64
  trapframe :: u64
  ctxt :: kcontext
  ofile :: "nat option list"
  cwd :: "nat option"
  pname :: "u8 list"
  ticksn :: int
  ticksp :: int
  tickspa :: int
  sigalarm :: int
  handler :: u64
  trapcopy :: u64
  trace :: int
  tracemask :: int
  rtime :: int
  ctime :: int
  etime :: int

text \<open>
  \<open>cpu_tab\<close> is \<^verbatim>\<open>cpus[NCPU]\<close>; \<open>ticks\<close> is the clock of \<^verbatim>\<open>kernel/trap.c\<close>.  \<open>policy\<close> and the code address \<open>forkret_addr\<close> are
  fixed when the kernel is built.
\<close>

record ptable = vmem +
  procs :: "proc list"
  initproc :: "nat option"
  nextpid :: int
  totaltickets :: int
  rand_next :: int
  ticks :: int
  cpu_tab :: "cpu list"
  policy :: sched_policy
  forkret_addr :: u64

definition upd_proc :: "nat \<Rightarrow> (proc \<Rightarrow> proc) \<Rightarrow> 'a ptable_scheme \<Rightarrow> 'a ptable_scheme" where
  "upd_proc i f s = s\<lparr>procs := (procs s)[i := f (procs s ! i)]\<rparr>"

section \<open>Slots\<close>

fun init_slots :: "nat \<Rightarrow> proc list \<Rightarrow> proc list" where
  "init_slots i [] = []"
| "init_slots i (p # ps) = p\<lparr>state := UNUSED, kstack := KSTACK i\<rparr> # init_slots (Suc i) ps"

definition procinit :: "'a ptable_scheme \<Rightarrow> 'a ptable_scheme" where
  "procinit s = s\<lparr>procs := init_slots 0 (procs s)\<rparr>"

definition allocpid :: "'a ptable_scheme \<Rightarrow> int \<times> 'a ptable_scheme" where
  "allocpid s = (nextpid s, s\<lparr>nextpid := nextpid s + 1\<rparr>)"

definition proc_pagetable :: "proc \<Rightarrow> 'a vmem_scheme \<Rightarrow> (u64 \<times> 'a vmem_scheme) res" where
  "proc_pagetable p s =
     rbind (uvmcreate s) (\<lambda>(pt, s).
       if pt = 0 then OK (0, s)
       else
         rbind (mappages pt TRAMPOLINE PGSIZE (trampoline s) (PTE_R OR PTE_X) s) (\<lambda>(r, s).
           if r < 0 then rbind (uvmfree pt 0 s) (\<lambda>s. OK (0, s))
           else
             rbind (mappages pt TRAPFRAME PGSIZE (trapframe p) (PTE_R OR PTE_W) s) (\<lambda>(r, s).
               if r < 0 then
                 rbind (uvmunmap pt TRAMPOLINE 1 False s) (\<lambda>s.
                   rbind (uvmfree pt 0 s) (\<lambda>s. OK (0, s)))
               else OK (pt, s))))"

definition proc_freepagetable :: "u64 \<Rightarrow> u64 \<Rightarrow> 'a kmem_scheme \<Rightarrow> 'a kmem_scheme res" where
  "proc_freepagetable pt sz s =
     rbind (uvmunmap pt TRAMPOLINE 1 False s) (\<lambda>s.
       rbind (uvmunmap pt TRAPFRAME 1 False s) (uvmfree pt sz))"

text \<open>The assignments of \<^verbatim>\<open>freeproc\<close> to the fields of the slot, by policy.\<close>

definition clear_sched_fields :: "sched_policy \<Rightarrow> proc \<Rightarrow> proc" where
  "clear_sched_fields pol p =
     (case pol of
        RR \<Rightarrow> p
      | FCFS \<Rightarrow> p\<lparr>stick := 0\<rparr>
      | PBS \<Rightarrow> p\<lparr>stick := 0, tickls := 0, tickslp := 0, tickrng := 0, priority := 0,
                 niceness := 0, nscheduled := 0\<rparr>
      | MLFQ \<Rightarrow> p\<lparr>queue := 0, waittime := 0, ticksused := 0, intime := 0\<rparr>
      | LBS \<Rightarrow> p\<lparr>tickets := 0\<rparr>)"

definition clear_proc :: "proc \<Rightarrow> proc" where
  "clear_proc p =
     p\<lparr>pagetable := 0, psz := 0, pid := 0, parent := None, pname := (pname p)[0 := 0],
       chan := Chan0, killed_flag := 0, xstate := 0, state := UNUSED, trace := 0,
       sigalarm := 0, ticksn := 0, ticksp := 0, tickspa := 0, handler := 0\<rparr>"

definition freeproc :: "nat \<Rightarrow> 'a ptable_scheme \<Rightarrow> 'a ptable_scheme res" where
  "freeproc i s =
     (let p = procs s ! i in
      rbind (if trapframe p \<noteq> 0 then kfree (trapframe p) s else OK s) (\<lambda>s.
        let s = upd_proc i (\<lambda>p. p\<lparr>trapframe := 0\<rparr>) s in
        rbind (if trapcopy p \<noteq> 0 then kfree (trapcopy p) s else OK s) (\<lambda>s.
          let s = upd_proc i (\<lambda>p. p\<lparr>trapcopy := 0\<rparr>) s in
          rbind (if pagetable p \<noteq> 0 then proc_freepagetable (pagetable p) (psz p) s else OK s)
            (\<lambda>s. OK (upd_proc i (clear_sched_fields (policy s) \<circ> clear_proc) s)))))"

text \<open>The scheduling fields that \<^verbatim>\<open>allocproc\<close> sets, by policy.\<close>

definition init_sched_fields :: "sched_policy \<Rightarrow> int \<Rightarrow> proc \<Rightarrow> proc" where
  "init_sched_fields pol now p =
     (case pol of
        RR \<Rightarrow> p
      | FCFS \<Rightarrow> p\<lparr>stick := i32 now\<rparr>
      | PBS \<Rightarrow> p\<lparr>stick := i32 now, priority := 60, tickls := 0, tickrng := 0, tickslp := 0,
                 niceness := 5, nscheduled := 0\<rparr>
      | MLFQ \<Rightarrow> p\<lparr>queue := 0, waittime := 0, ticksused := 0, intime := 0\<rparr>
      | LBS \<Rightarrow> p\<lparr>tickets := 0\<rparr>)"

definition allocproc :: "'a ptable_scheme \<Rightarrow> (nat option \<times> 'a ptable_scheme) res" where
  "allocproc s =
     (case first_index (\<lambda>p. state p = UNUSED) (procs s) of
        None \<Rightarrow> OK (None, s)
      | Some i \<Rightarrow>
          (let (npid, s) = allocpid s;
               s = upd_proc i (\<lambda>p. init_sched_fields (policy s) (ticks s)
                     (p\<lparr>pid := npid, state := USED, trace := 0, tracemask := 0\<rparr>)) s
           in rbind (kalloc s) (\<lambda>(tf, s).
                let s = upd_proc i (\<lambda>p. p\<lparr>trapframe := tf\<rparr>) s in
                if tf = 0 then rbind (freeproc i s) (\<lambda>s. OK (None, s))
                else rbind (kalloc s) (\<lambda>(tc, s).
                  let s = upd_proc i (\<lambda>p. p\<lparr>trapcopy := tc\<rparr>) s in
                  if tc = 0 then rbind (freeproc i s) (\<lambda>s. OK (None, s))
                  else
                    (let s = upd_proc i (\<lambda>p. p\<lparr>sigalarm := 0, ticksn := 0, ticksp := 0,
                                              tickspa := 0, handler := 0\<rparr>) s
                     in rbind (proc_pagetable (procs s ! i) s) (\<lambda>(pt, s).
                          let s = upd_proc i (\<lambda>p. p\<lparr>pagetable := pt\<rparr>) s in
                          if pt = 0 then rbind (freeproc i s) (\<lambda>s. OK (None, s))
                          else OK (Some i, upd_proc i (\<lambda>p.
                            p\<lparr>ctxt := \<lparr>ctx_ra = forkret_addr s, ctx_sp = kstack p + PGSIZE,
                                       ctx_s = replicate 12 0\<rparr>,
                              rtime := 0, etime := 0, ctime := ticks s\<rparr>) s)))))))"

section \<open>Sleep, wakeup and kill\<close>

text \<open>
  Under PBS the niceness is recomputed from the ticks slept and the ticks run, with C's
  truncating division on \<^verbatim>\<open>int\<close>.
\<close>

definition recompute_niceness :: "proc \<Rightarrow> proc" where
  "recompute_niceness p =
     (if i32 (tickslp p + tickrng p) = 0 then p\<lparr>niceness := 0\<rparr>
      else p\<lparr>niceness := i32 (tickslp p * 10) sdiv i32 (tickslp p + tickrng p)\<rparr>)"

text \<open>
  \<^verbatim>\<open>sleep\<close> up to the call of \<^verbatim>\<open>sched\<close>, and its part after the process has been switched
  back in.
\<close>

definition sleep_enter :: "nat \<Rightarrow> channel \<Rightarrow> 'a ptable_scheme \<Rightarrow> 'a ptable_scheme" where
  "sleep_enter i ch s =
     upd_proc i (\<lambda>p.
       let p = (if policy s = PBS \<and> state p = RUNNING
                then recompute_niceness
                       (p\<lparr>tickrng := i32 (ticks s - tickls p), tickls := i32 (ticks s)\<rparr>)
                else p)
       in p\<lparr>chan := ch, state := SLEEPING\<rparr>) s"

definition sleep_leave :: "nat \<Rightarrow> 'a ptable_scheme \<Rightarrow> 'a ptable_scheme" where
  "sleep_leave i s = upd_proc i (\<lambda>p. p\<lparr>chan := Chan0\<rparr>) s"

text \<open>The change from \<^verbatim>\<open>SLEEPING\<close> to \<^verbatim>\<open>RUNNABLE\<close> that \<^verbatim>\<open>wakeup\<close> and \<^verbatim>\<open>kill\<close> perform.\<close>

definition wake_fields :: "sched_policy \<Rightarrow> int \<Rightarrow> proc \<Rightarrow> proc" where
  "wake_fields pol now p =
     (case pol of
        PBS \<Rightarrow> recompute_niceness (p\<lparr>tickslp := i32 (now - tickls p), tickls := i32 now\<rparr>)
      | MLFQ \<Rightarrow> p\<lparr>ticksused := 0, intime := i32 now\<rparr>
      | _ \<Rightarrow> p)\<lparr>state := RUNNABLE\<rparr>"

definition make_runnable :: "nat \<Rightarrow> 'a ptable_scheme \<Rightarrow> 'a ptable_scheme" where
  "make_runnable i s =
     (let s' = upd_proc i (wake_fields (policy s) (ticks s)) s
      in if policy s = LBS then s'\<lparr>totaltickets := totaltickets s + tickets (procs s ! i)\<rparr> else s')"

fun wakeup_loop :: "nat list \<Rightarrow> nat option \<Rightarrow> channel \<Rightarrow> 'a ptable_scheme \<Rightarrow> 'a ptable_scheme" where
  "wakeup_loop [] cur ch s = s"
| "wakeup_loop (i # is) cur ch s =
     wakeup_loop is cur ch
       (if Some i \<noteq> cur \<and> state (procs s ! i) = SLEEPING \<and> chan (procs s ! i) = ch
        then make_runnable i s else s)"

definition wakeup :: "nat option \<Rightarrow> channel \<Rightarrow> 'a ptable_scheme \<Rightarrow> 'a ptable_scheme" where
  "wakeup cur ch s = wakeup_loop [0..<NPROC] cur ch s"

definition kill :: "int \<Rightarrow> 'a ptable_scheme \<Rightarrow> int \<times> 'a ptable_scheme" where
  "kill k s =
     (case first_index (\<lambda>p. pid p = k) (procs s) of
        None \<Rightarrow> (-1, s)
      | Some i \<Rightarrow>
          (let s = upd_proc i (\<lambda>p. p\<lparr>killed_flag := 1\<rparr>) s
           in (0, if state (procs s ! i) = SLEEPING then make_runnable i s else s)))"

definition setkilled :: "nat \<Rightarrow> 'a ptable_scheme \<Rightarrow> 'a ptable_scheme" where
  "setkilled i s = upd_proc i (\<lambda>p. p\<lparr>killed_flag := 1\<rparr>) s"

definition killed :: "nat \<Rightarrow> 'a ptable_scheme \<Rightarrow> int" where
  "killed i s = killed_flag (procs s ! i)"

section \<open>Copies to and from the current process\<close>

text \<open>
  The kernel-side buffer is a list of bytes; a kernel destination of \<^verbatim>\<open>either_copyout\<close> (and a
  kernel source of \<^verbatim>\<open>either_copyin\<close>) is an address in physical memory.
\<close>

definition either_copyout ::
  "nat \<Rightarrow> bool \<Rightarrow> u64 \<Rightarrow> u8 list \<Rightarrow> 'a ptable_scheme \<Rightarrow> (int \<times> 'a ptable_scheme) res" where
  "either_copyout cur user_dst dst src s =
     (if user_dst then copyout (pagetable (procs s ! cur)) dst src s
      else OK (0, s\<lparr>mem := store_bytes (mem s) dst src\<rparr>))"

definition either_copyin ::
  "nat \<Rightarrow> bool \<Rightarrow> u64 \<Rightarrow> nat \<Rightarrow> 'a ptable_scheme \<Rightarrow> (int \<times> u8 list) res" where
  "either_copyin cur user_src src len s =
     (if user_src then copyin (pagetable (procs s ! cur)) src len s
      else OK (0, load_bytes (mem s) src len))"

section \<open>Memory of the current process\<close>

definition growproc :: "nat \<Rightarrow> int \<Rightarrow> 'a ptable_scheme \<Rightarrow> (int \<times> 'a ptable_scheme) res" where
  "growproc cur n s =
     (let p = procs s ! cur; sz = psz p in
      if n > 0 then
        rbind (uvmalloc (pagetable p) sz (sz + of_int n) PTE_W s) (\<lambda>(sz, s).
          if sz = 0 then OK (-1, s)
          else OK (0, upd_proc cur (\<lambda>p. p\<lparr>psz := sz\<rparr>) s))
      else if n < 0 then
        rbind (uvmdealloc (pagetable p) sz (sz + of_int n) s) (\<lambda>(sz, s).
          OK (0, upd_proc cur (\<lambda>p. p\<lparr>psz := sz\<rparr>) s))
      else OK (0, upd_proc cur (\<lambda>p. p\<lparr>psz := sz\<rparr>) s))"


section \<open>Facts on the table\<close>

lemma same_rest_ptable:
  assumes "same_rest s s'"
  shows "procs s' = procs s" "initproc s' = initproc s" "nextpid s' = nextpid s"
    "totaltickets s' = totaltickets s" "ticks s' = ticks s" "cpu_tab s' = cpu_tab s"
    "policy s' = policy s" "kernel_pagetable s' = kernel_pagetable s" "trampoline s' = trampoline s"
  using assms by (cases s; cases s'; simp add: same_rest_def)+

lemma upd_proc_simps [simp]:
  "policy (upd_proc i f s) = policy s" "ticks (upd_proc i f s) = ticks s"
  "cpu_tab (upd_proc i f s) = cpu_tab s" "totaltickets (upd_proc i f s) = totaltickets s"
  "initproc (upd_proc i f s) = initproc s" "nextpid (upd_proc i f s) = nextpid s"
  "procs (upd_proc i f s) = (procs s)[i := f (procs s ! i)]"
  "mem (upd_proc i f s) = mem s" "kend (upd_proc i f s) = kend s" "pgrc (upd_proc i f s) = pgrc s"
  "freelist (upd_proc i f s) = freelist s"
  by (simp_all add: upd_proc_def)

text \<open>What two states agree on when only the slots of the process table and memory changed.\<close>

definition same_sched :: "'a ptable_scheme \<Rightarrow> 'a ptable_scheme \<Rightarrow> bool" where
  "same_sched s s' \<longleftrightarrow> totaltickets s' = totaltickets s \<and> ticks s' = ticks s
     \<and> cpu_tab s' = cpu_tab s \<and> policy s' = policy s \<and> initproc s' = initproc s"

lemma same_sched_refl [simp]: "same_sched s s"
  by (simp add: same_sched_def)

lemma same_sched_trans: "same_sched s t \<Longrightarrow> same_sched t u \<Longrightarrow> same_sched s u"
  by (simp add: same_sched_def)

lemma same_rest_sched: "same_rest s s' \<Longrightarrow> same_sched s s'"
  by (simp add: same_sched_def same_rest_ptable)

lemma same_sched_upd [simp]: "same_sched s (upd_proc i f t) = same_sched s t"
  by (simp add: same_sched_def)

lemma proc_pagetable_rest [rest_intros]: "proc_pagetable p s = OK (pt, s') \<Longrightarrow> same_rest s s'"
  by (auto simp: proc_pagetable_def res_simps split: if_splits
    dest!: uvmcreate_rest mappages_rest uvmfree_rest uvmunmap_rest intro: same_rest_trans)
    (meson same_rest_trans)

lemma proc_freepagetable_rest [rest_intros]: "proc_freepagetable pt sz s = OK s' \<Longrightarrow> same_rest s s'"
  by (auto simp: proc_freepagetable_def res_simps dest!: uvmfree_rest uvmunmap_rest
    intro: same_rest_trans)

text \<open>The slot that \<^verbatim>\<open>freeproc\<close> leaves behind.\<close>

definition freed_proc :: "sched_policy \<Rightarrow> proc \<Rightarrow> proc" where
  "freed_proc pol p = clear_sched_fields pol (clear_proc (p\<lparr>trapframe := 0, trapcopy := 0\<rparr>))"

lemma freeproc_table:
  assumes "freeproc i s = OK s'" "i < length (procs s)"
  shows "procs s' = (procs s)[i := freed_proc (policy s) (procs s ! i)]" "same_sched s s'"
    "nextpid s' = nextpid s"
proof -
  let ?p = "procs s ! i"
  obtain s1 where s1: "(if trapframe ?p \<noteq> 0 then kfree (trapframe ?p) s else OK s) = OK s1"
    using assms(1) by (auto simp: freeproc_def Let_def res_simps)
  let ?s1 = "upd_proc i (\<lambda>p. p\<lparr>trapframe := 0\<rparr>) s1"
  obtain s2 where s2: "(if trapcopy ?p \<noteq> 0 then kfree (trapcopy ?p) ?s1 else OK ?s1) = OK s2"
    using assms(1) s1 by (auto simp: freeproc_def Let_def res_simps)
  let ?s2 = "upd_proc i (\<lambda>p. p\<lparr>trapcopy := 0\<rparr>) s2"
  obtain s3 where s3: "(if pagetable ?p \<noteq> 0 then proc_freepagetable (pagetable ?p) (psz ?p) ?s2 else OK ?s2) = OK s3"
    and s': "s' = upd_proc i (clear_sched_fields (policy s3) \<circ> clear_proc) s3"
    using assms(1) s1 s2 by (auto simp: freeproc_def Let_def res_simps)
  have r: "same_rest s s1" "same_rest ?s1 s2" "same_rest ?s2 s3"
    using s1 s2 s3 by (auto split: if_splits dest: kfree_rest proc_freepagetable_rest)
  show "procs s' = (procs s)[i := freed_proc (policy s) (procs s ! i)]"
    using r [THEN same_rest_ptable(1)] r [THEN same_rest_ptable(7)] assms(2)
    by (simp add: s' freed_proc_def)
  show "same_sched s s'" "nextpid s' = nextpid s"
    using r [THEN same_rest_sched] r [THEN same_rest_ptable(3)] by (simp_all add: s' same_sched_def)
qed

lemma freed_proc_fields [simp]:
  "state (freed_proc pol p) = UNUSED" "killed_flag (freed_proc pol p) = 0"
  "pid (freed_proc pol p) = 0" "parent (freed_proc pol p) = None"
  "trapframe (freed_proc pol p) = 0" "trapcopy (freed_proc pol p) = 0"
  "pagetable (freed_proc pol p) = 0" "psz (freed_proc pol p) = 0"
  by (cases pol; simp add: freed_proc_def clear_sched_fields_def clear_proc_def)+


lemma init_sched_fields_simps [simp]:
  "state (init_sched_fields pol now p) = state p" "pid (init_sched_fields pol now p) = pid p"
  "killed_flag (init_sched_fields pol now p) = killed_flag p"
  "tickets (init_sched_fields pol now p) = (if pol = LBS then 0 else tickets p)"
  "queue (init_sched_fields pol now p) = (if pol = MLFQ then 0 else queue p)"
  by (cases pol; simp add: init_sched_fields_def)+

lemma freed_proc_sched [simp]:
  "tickets (freed_proc pol p) = (if pol = LBS then 0 else tickets p)"
  "queue (freed_proc pol p) = (if pol = MLFQ then 0 else queue p)"
  by (cases pol; simp add: freed_proc_def clear_sched_fields_def clear_proc_def)+

text \<open>The state while \<^verbatim>\<open>allocproc\<close> fills in slot \<open>i\<close>: the fields it sets first stay set.\<close>

definition filling :: "'a ptable_scheme \<Rightarrow> nat \<Rightarrow> 'a ptable_scheme \<Rightarrow> bool" where
  "filling s i t \<longleftrightarrow> same_sched s t \<and> nextpid t = nextpid s + 1 \<and>
     (\<exists>p. procs t = (procs s)[i := p] \<and> pid p = nextpid s \<and> state p = USED
       \<and> killed_flag p = killed_flag (procs s ! i)
       \<and> tickets p = (if policy s = LBS then 0 else tickets (procs s ! i))
       \<and> queue p = (if policy s = MLFQ then 0 else queue (procs s ! i)))"

lemma filling_rest: "filling s i t \<Longrightarrow> same_rest t u \<Longrightarrow> filling s i u"
  by (simp add: filling_def same_sched_def same_rest_ptable)

lemma filling_upd:
  assumes "filling s i t" "i < length (procs s)"
    and "\<And>p. pid (f p) = pid p \<and> state (f p) = state p \<and> killed_flag (f p) = killed_flag p
      \<and> tickets (f p) = tickets p \<and> queue (f p) = queue p"
  shows "filling s i (upd_proc i f t)"
proof -
  obtain p where p: "procs t = (procs s)[i := p]" "pid p = nextpid s" "state p = USED"
     "killed_flag p = killed_flag (procs s ! i)"
     "tickets p = (if policy s = LBS then 0 else tickets (procs s ! i))"
     "queue p = (if policy s = MLFQ then 0 else queue (procs s ! i))"
    using assms(1) by (auto simp: filling_def)
  have "procs (upd_proc i f t) = (procs s)[i := f p]" using p assms(2) by simp
  then show ?thesis
    using p assms(1,3) unfolding filling_def by (intro conjI exI [of _ "f p"]) simp_all
qed

lemma filling_start:
  assumes "i < length (procs s)" "allocpid s = (npid, t)"
  shows "filling s i (upd_proc i (\<lambda>p. init_sched_fields (policy t) (ticks t)
    (p\<lparr>pid := npid, state := USED, trace := 0, tracemask := 0\<rparr>)) t)"
proof -
  have t: "npid = nextpid s" "t = s\<lparr>nextpid := nextpid s + 1\<rparr>" using assms(2) by (auto simp: allocpid_def)
  show ?thesis
    unfolding filling_def t(1) same_sched_upd
    by (intro conjI exI [of _ "init_sched_fields (policy t) (ticks t)
      ((procs s ! i)\<lparr>pid := nextpid s, state := USED, trace := 0, tracemask := 0\<rparr>)"])
      (simp_all add: t(2) same_sched_def)
qed

lemma allocproc_cases:
  assumes "allocproc s = OK (r, s')"
  obtains "r = None" "s' = s" "\<forall>p \<in> set (procs s). state p \<noteq> UNUSED"
  | i t where "first_index (\<lambda>p. state p = UNUSED) (procs s) = Some i" "r = None"
      "filling s i t" "freeproc i t = OK s'"
  | i where "first_index (\<lambda>p. state p = UNUSED) (procs s) = Some i" "r = Some i" "filling s i s'"
      "trapframe (procs s' ! i) \<noteq> 0" "trapcopy (procs s' ! i) \<noteq> 0" "pagetable (procs s' ! i) \<noteq> 0"
proof (cases "first_index (\<lambda>p. state p = UNUSED) (procs s)")
  case None
  then have "r = None" "s' = s" using assms by (simp_all add: allocproc_def)
  then show thesis using that(1) None by (simp add: first_index_None)
next
  case (Some i)
  note i = first_index_SomeD(1,2) [OF Some]
  obtain npid s0 where ap: "allocpid s = (npid, s0)" by fastforce
  let ?s1 = "upd_proc i (\<lambda>p. init_sched_fields (policy s0) (ticks s0)
    (p\<lparr>pid := npid, state := USED, trace := 0, tracemask := 0\<rparr>)) s0"
  have f1: "filling s i ?s1" using filling_start [OF i(1) ap] .
  obtain tf s2 where k1: "kalloc ?s1 = OK (tf, s2)"
    using assms Some ap by (auto simp: allocproc_def res_simps Let_def)
  let ?s2 = "upd_proc i (\<lambda>p. p\<lparr>trapframe := tf\<rparr>) s2"
  have f2: "filling s i ?s2"
    using filling_rest [OF f1 kalloc_rest [OF k1]] i(1) by (rule filling_upd) simp
  show thesis
  proof (cases "tf = 0")
    case True
    then show thesis
      using assms Some ap k1 f2 that(2) [OF Some] by (auto simp: allocproc_def res_simps Let_def)
  next
    case tf: False
    obtain tc s3 where k2: "kalloc ?s2 = OK (tc, s3)"
      using assms Some ap k1 tf by (auto simp: allocproc_def res_simps Let_def)
    let ?s3 = "upd_proc i (\<lambda>p. p\<lparr>trapcopy := tc\<rparr>) s3"
    have r3: "same_rest ?s2 s3" by (rule kalloc_rest [OF k2])
    have f3: "filling s i ?s3"
      using filling_rest [OF f2 r3] i(1) by (rule filling_upd) simp
    show thesis
    proof (cases "tc = 0")
      case True
      then show thesis
        using assms Some ap k1 tf k2 f3 that(2) [OF Some] by (auto simp: allocproc_def res_simps Let_def)
    next
      case tc: False
      let ?s4 = "upd_proc i (\<lambda>p. p\<lparr>sigalarm := 0, ticksn := 0, ticksp := 0, tickspa := 0, handler := 0\<rparr>) ?s3"
      have f4: "filling s i ?s4" using f3 i(1) by (rule filling_upd) simp
      obtain pt s5 where pp: "proc_pagetable (procs ?s4 ! i) ?s4 = OK (pt, s5)"
        using assms Some ap k1 tf k2 tc by (auto simp: allocproc_def res_simps Let_def simp del: upd_proc_simps)
      let ?s5 = "upd_proc i (\<lambda>p. p\<lparr>pagetable := pt\<rparr>) s5"
      have r5: "same_rest ?s4 s5" by (rule proc_pagetable_rest [OF pp])
      have f5: "filling s i ?s5"
        using filling_rest [OF f4 r5] i(1) by (rule filling_upd) simp
      let ?s6 = "upd_proc i (\<lambda>p. p\<lparr>ctxt := \<lparr>ctx_ra = forkret_addr ?s5, ctx_sp = kstack p + PGSIZE,
            ctx_s = replicate 12 0\<rparr>, rtime := 0, etime := 0, ctime := ticks ?s5\<rparr>) ?s5"
      have f6: "filling s i ?s6" using f5 i(1) by (rule filling_upd) simp
      have res: "(if pt = 0 then rbind (freeproc i ?s5) (\<lambda>s. OK (None, s)) else OK (Some i, ?s6)) = OK (r, s')"
        using assms Some ap k1 tf k2 tc pp
        by (simp add: allocproc_def Let_def del: upd_proc_simps)
      show thesis
      proof (cases "pt = 0")
        case True
        then show thesis using res f5 that(2) [OF Some] by (auto simp: res_simps)
      next
        case False
        have len: "i < length (procs s3)" "i < length (procs s2)" "i < length (procs s5)"
          using i(1) filling_rest [OF f1 kalloc_rest [OF k1]] filling_rest [OF f2 r3] filling_rest [OF f4 r5]
          by (auto simp: filling_def)
        have "r = Some i" "s' = ?s6" using res False by auto
        moreover have "trapframe (procs ?s6 ! i) \<noteq> 0" "trapcopy (procs ?s6 ! i) \<noteq> 0" "pagetable (procs ?s6 ! i) \<noteq> 0"
          using False tf tc len same_rest_ptable(1) [OF r5] same_rest_ptable(1) [OF r3] by simp_all
        ultimately show thesis using f6 that(3) [OF Some] by blast
      qed
    qed
  qed
qed

end
