(* ===== verification/Scheduler.thy ===== *)
theory Scheduler
  imports Proc
begin

text \<open>
  Scheduling: the random numbers of the lottery scheduler, the five schedulers of
  \<^verbatim>\<open>scheduler()\<close> in \<^verbatim>\<open>kernel/proc.c\<close>, the voluntary and forced ways to give up a CPU, and the
  clock interrupt of \<^verbatim>\<open>kernel/trap.c\<close> with the aging of the multi-level feedback queue.

  One pass of the scheduler's endless loop is one step; the scan of the table reads a
  consistent snapshot.
\<close>

section \<open>Random numbers\<close>

text \<open>The new value of \<^verbatim>\<open>*ctx\<close>, which is also the result.\<close>

definition do_rand :: "int \<Rightarrow> int" where
  "do_rand ctx =
     (let x = ctx mod 0x7ffffffe + 1;
          hi = x div 127773;
          lo = x mod 127773;
          x = 16807 * lo - 2836 * hi;
          x = (if x < 0 then x + 0x7fffffff else x)
      in x - 1)"

definition rand :: "'a ptable_scheme \<Rightarrow> int \<times> 'a ptable_scheme" where
  "rand s = (let x = do_rand (rand_next s) in (x, s\<lparr>rand_next := x\<rparr>))"

section \<open>Comparing processes\<close>

definition compute_priority :: "int \<Rightarrow> int \<Rightarrow> int" where
  "compute_priority p n =
     (let r = p - n + 5;
          r = (if r > 100 then 100 else r)
      in if r < 0 then 0 else r)"

text \<open>Whether \<open>p\<close> should be scheduled before \<open>best\<close>, under each policy that compares.\<close>

definition compare_priority :: "proc \<Rightarrow> proc \<Rightarrow> bool" where
  "compare_priority best p =
     (let p1 = compute_priority (priority best) (niceness best);
          p2 = compute_priority (priority p) (niceness p)
      in if p1 \<noteq> p2 then p2 < p1
         else if nscheduled best \<noteq> nscheduled p then nscheduled p < nscheduled best
         else stick p > stick best)"

definition compare_stick :: "proc \<Rightarrow> proc \<Rightarrow> bool" where
  "compare_stick best p \<longleftrightarrow> stick best > stick p"

definition compare_queue :: "proc \<Rightarrow> proc \<Rightarrow> bool" where
  "compare_queue best p \<longleftrightarrow>
     (queue best = queue p \<and> intime p < intime best) \<or> queue p < queue best"

section \<open>Choosing a process\<close>

text \<open>
  The scan shared by FCFS, PBS and MLFQ: \<open>best\<close> is the best runnable process seen so far, \<open>i\<close>
  the index of the process looked at.
\<close>

fun select_best :: "(proc \<Rightarrow> proc \<Rightarrow> bool) \<Rightarrow> nat \<Rightarrow> proc list \<Rightarrow> (nat \<times> proc) option \<Rightarrow> (nat \<times> proc) option" where
  "select_best better i [] best = best"
| "select_best better i (p # ps) best =
     select_best better (Suc i) ps
       (if state p = RUNNABLE then
          (case best of
             None \<Rightarrow> Some (i, p)
           | Some (j, b) \<Rightarrow> if better b p then Some (i, p) else best)
        else best)"

text \<open>
  The scan of the lottery: \<open>n\<close> counts the runnable processes seen and \<open>ct\<close> accumulates their
  tickets; the first process at which the sum reaches \<open>rn\<close> wins.
\<close>

fun lottery_scan :: "int \<Rightarrow> nat \<Rightarrow> int \<Rightarrow> nat \<Rightarrow> proc list \<Rightarrow> nat option" where
  "lottery_scan rn n ct i [] = None"
| "lottery_scan rn n ct i (p # ps) =
     (if state p = RUNNABLE then
        (let ct = (if n = 0 then tickets p else tickets p + ct)
         in if ct \<ge> rn then Some i else lottery_scan rn (Suc n) ct (Suc i) ps)
      else lottery_scan rn n ct (Suc i) ps)"

text \<open>Round robin: the first runnable process from position \<open>pos\<close> of the table on.\<close>

definition next_runnable :: "nat \<Rightarrow> proc list \<Rightarrow> nat option" where
  "next_runnable pos ps = map_option (\<lambda>i. pos + i) (first_index (\<lambda>p. state p = RUNNABLE) (drop pos ps))"

definition dispatch_fields :: "sched_policy \<Rightarrow> int \<Rightarrow> proc \<Rightarrow> proc" where
  "dispatch_fields pol now p =
     (case pol of
        PBS \<Rightarrow> p\<lparr>tickls := i32 now, nscheduled := nscheduled p + 1\<rparr>
      | MLFQ \<Rightarrow> p\<lparr>ticksused := 0, waittime := 0\<rparr>
      | _ \<Rightarrow> p)\<lparr>state := RUNNING\<rparr>"

definition upd_cpu :: "nat \<Rightarrow> (cpu \<Rightarrow> cpu) \<Rightarrow> 'a ptable_scheme \<Rightarrow> 'a ptable_scheme" where
  "upd_cpu c f s = s\<lparr>cpu_tab := (cpu_tab s)[c := f (cpu_tab s ! c)]\<rparr>"

text \<open>Switching CPU \<open>c\<close> to process \<open>i\<close>, and the return of that process to the scheduler.\<close>

definition dispatch :: "nat \<Rightarrow> nat \<Rightarrow> 'a ptable_scheme \<Rightarrow> 'a ptable_scheme" where
  "dispatch c i s =
     (let s' = upd_cpu c (\<lambda>cp. cp\<lparr>cproc := Some i\<rparr>)
                 (upd_proc i (dispatch_fields (policy s) (ticks s)) s)
      in if policy s = LBS then s'\<lparr>totaltickets := totaltickets s - tickets (procs s ! i)\<rparr> else s')"

definition switch_back :: "nat \<Rightarrow> 'a ptable_scheme \<Rightarrow> 'a ptable_scheme" where
  "switch_back c s = upd_cpu c (\<lambda>cp. cp\<lparr>cproc := None\<rparr>) s"

text \<open>
  What the scheduler runs next.  Only the lottery changes the state while choosing: it
  draws a random number, reduced by C's \<^verbatim>\<open>%\<close> (which RISC-V defines as the dividend when
  \<^verbatim>\<open>totaltickets\<close> is zero).
\<close>

definition pick_next :: "nat \<Rightarrow> 'a ptable_scheme \<Rightarrow> nat option \<times> 'a ptable_scheme" where
  "pick_next pos s =
     (case policy s of
        RR \<Rightarrow> (next_runnable pos (procs s), s)
      | FCFS \<Rightarrow> (map_option fst (select_best compare_stick 0 (procs s) None), s)
      | PBS \<Rightarrow> (map_option fst (select_best compare_priority 0 (procs s) None), s)
      | MLFQ \<Rightarrow> (map_option fst (select_best compare_queue 0 (procs s) None), s)
      | LBS \<Rightarrow>
          (let (r, s) = rand s;
               rn = r smod totaltickets s + 1
           in (lottery_scan rn 0 0 0 (procs s), s)))"

definition scheduler :: "nat \<Rightarrow> nat \<Rightarrow> 'a ptable_scheme \<Rightarrow> nat option \<times> 'a ptable_scheme" where
  "scheduler c pos s =
     (case pick_next pos s of
        (None, s) \<Rightarrow> (None, s)
      | (Some i, s) \<Rightarrow> (Some i, dispatch c i s))"

section \<open>Giving up the CPU\<close>

text \<open>
  The checks of \<^verbatim>\<open>sched\<close> for process \<open>p\<close> with lock \<open>lk\<close> on hart \<open>c\<close>; it yields the value of
  \<^verbatim>\<open>intena\<close> that is restored when the process runs again.
\<close>

definition sched :: "nat \<Rightarrow> spinlock \<Rightarrow> proc \<Rightarrow> cpu \<Rightarrow> bool res" where
  "sched c lk p cp =
     (if \<not> holding c lk then Panic ''sched p->lock''
      else if noff cp \<noteq> 1 then Panic ''sched locks''
      else if state p = RUNNING then Panic ''sched running''
      else if sie cp then Panic ''sched interruptible''
      else OK (intena cp))"

text \<open>\<^verbatim>\<open>yield\<close> up to its call of \<^verbatim>\<open>sched\<close>.  It is not compiled under FCFS.\<close>

definition yield_fields :: "sched_policy \<Rightarrow> int \<Rightarrow> proc \<Rightarrow> proc" where
  "yield_fields pol now p =
     (let p = p\<lparr>state := RUNNABLE\<rparr> in
      case pol of
        MLFQ \<Rightarrow>
          (let p = (if queue p \<noteq> NQUEUE - 1 \<and> ticksused p \<ge> 2 ^ nat (queue p)
                    then p\<lparr>queue := queue p + 1\<rparr> else p)
           in p\<lparr>intime := i32 now, ticksused := 0\<rparr>)
      | PBS \<Rightarrow> p\<lparr>tickrng := i32 now\<rparr>
      | _ \<Rightarrow> p)"

definition yield_proc :: "nat \<Rightarrow> 'a ptable_scheme \<Rightarrow> 'a ptable_scheme" where
  "yield_proc i s =
     (let s' = upd_proc i (yield_fields (policy s) (ticks s)) s
      in if policy s = LBS then s'\<lparr>totaltickets := totaltickets s + tickets (procs s ! i)\<rparr> else s')"

text \<open>
  \<^verbatim>\<open>set_priority\<close>: the old priority of the process with that pid, or -1, and whether the
  caller has to yield.
\<close>

definition set_priority :: "int \<Rightarrow> int \<Rightarrow> 'a ptable_scheme \<Rightarrow> int \<times> bool \<times> 'a ptable_scheme" where
  "set_priority new_priority k s =
     (case first_index (\<lambda>p. state p \<in> {SLEEPING, RUNNING, RUNNABLE} \<and> pid p = k) (procs s) of
        None \<Rightarrow> (-1, False, s)
      | Some i \<Rightarrow>
          (let old = priority (procs s ! i)
           in (old, new_priority < old,
               upd_proc i (\<lambda>p. p\<lparr>niceness := 5, priority := new_priority\<rparr>) s)))"

definition settickets :: "nat \<Rightarrow> int \<Rightarrow> 'a ptable_scheme \<Rightarrow> int \<times> 'a ptable_scheme" where
  "settickets cur n s = (if n < 0 then (-1, s) else (0, upd_proc cur (\<lambda>p. p\<lparr>tickets := n\<rparr>) s))"

section \<open>The clock interrupt\<close>

abbreviation (input) MAX_WAIT_TIME :: int where "MAX_WAIT_TIME \<equiv> 32"

definition tick_proc :: "sched_policy \<Rightarrow> proc \<Rightarrow> proc" where
  "tick_proc pol p =
     (if state p = RUNNABLE then
        (if pol = MLFQ then
           (let p = p\<lparr>waittime := waittime p + 1\<rparr> in
            if waittime p \<ge> MAX_WAIT_TIME then
              (let p = p\<lparr>waittime := 0, queue := queue p - 1\<rparr>
               in if queue p < 0 then p\<lparr>queue := 0\<rparr> else p)
            else p)
         else p)
      else if state p = RUNNING then p\<lparr>rtime := ui32 (rtime p + 1)\<rparr>
      else p)"

definition clockintr :: "nat option \<Rightarrow> 'a ptable_scheme \<Rightarrow> 'a ptable_scheme" where
  "clockintr cur s =
     wakeup cur ChTicks
       (s\<lparr>ticks := ui32 (ticks s + 1), procs := map (tick_proc (policy s)) (procs s)\<rparr>)"


section \<open>The last critical sections of fork and exit\<close>

text \<open>
  \<^verbatim>\<open>fork\<close> makes the child \<open>np\<close> of process \<open>p\<close> runnable.  Under MLFQ the code resets the queue
  of the parent \<^verbatim>\<open>p\<close>, not of the child.
\<close>

definition fork_ready :: "nat \<Rightarrow> nat \<Rightarrow> 'a ptable_scheme \<Rightarrow> 'a ptable_scheme" where
  "fork_ready p np s =
     (let s = upd_proc np (\<lambda>q. q\<lparr>state := RUNNABLE\<rparr>) s in
      case policy s of
        MLFQ \<Rightarrow> upd_proc p (\<lambda>q. q\<lparr>queue := 0, intime := i32 (ticks s)\<rparr>) s
      | LBS \<Rightarrow>
          (let s = upd_proc np (\<lambda>q. q\<lparr>tickets := tickets (procs s ! p)\<rparr>) s
           in s\<lparr>totaltickets := totaltickets s + tickets (procs s ! np)\<rparr>)
      | _ \<Rightarrow> s)"

definition exit_zombie :: "nat \<Rightarrow> int \<Rightarrow> 'a ptable_scheme \<Rightarrow> 'a ptable_scheme" where
  "exit_zombie p status s =
     upd_proc p (\<lambda>q. q\<lparr>xstate := status, state := ZOMBIE, etime := ticks s\<rparr>) s"

section \<open>The random number generator\<close>

lemma schrage_mod:
  fixes x :: int
  shows "(16807 * (x mod 127773) - 2836 * (x div 127773)) mod 0x7fffffff = 16807 * x mod 0x7fffffff"
proof -
  have x: "x = 127773 * (x div 127773) + x mod 127773" by simp
  have split: "16807 * (127773 * h + l) = (16807 * l - 2836 * h) + h * 0x7fffffff" for h l :: int
    by (simp add: algebra_simps)
  show ?thesis using split [of "x div 127773" "x mod 127773"] x by (metis mod_mult_self1)
qed

lemma schrage_bounds:
  fixes x :: int
  assumes "0 \<le> x" "x < 0x7fffffff"
  shows "- 0x7fffffff < 16807 * (x mod 127773) - 2836 * (x div 127773)"
    "16807 * (x mod 127773) - 2836 * (x div 127773) < 0x7fffffff"
proof -
  have "0 \<le> x mod 127773" "x mod 127773 < 127773" by simp_all
  moreover have "0 \<le> x div 127773" "x div 127773 \<le> 16807"
    using assms by (simp_all add: pos_imp_zdiv_nonneg_iff)
  ultimately show "- 0x7fffffff < 16807 * (x mod 127773) - 2836 * (x div 127773)"
    "16807 * (x mod 127773) - 2836 * (x div 127773) < 0x7fffffff" by linarith+
qed

lemma do_rand_conv: "do_rand ctx = 16807 * (ctx mod 0x7ffffffe + 1) mod 0x7fffffff - 1"
proof -
  define x where "x = ctx mod 0x7ffffffe + 1"
  define y where "y = 16807 * (x mod 127773) - 2836 * (x div 127773)"
  have x: "0 \<le> x" "x < 0x7fffffff" by (simp_all add: x_def)
  have b: "- 0x7fffffff < y" "y < 0x7fffffff"
    using schrage_bounds [OF x] by (simp_all add: y_def)
  have "do_rand ctx = (if y < 0 then y + 0x7fffffff else y) - 1"
    by (simp only: do_rand_def Let_def x_def y_def)
  also have "(if y < 0 then y + 0x7fffffff else y) = y mod 0x7fffffff"
    using b mod_pos_pos_trivial [of y "0x7fffffff"]
      mod_pos_pos_trivial [of "y + 0x7fffffff" "0x7fffffff"]
    by (cases "y < 0") simp_all
  also have "y mod 0x7fffffff = 16807 * x mod 0x7fffffff" unfolding y_def by (rule schrage_mod)
  finally show ?thesis by (simp add: x_def)
qed

lemma multiplier_coprime: "coprime (16807 :: int) 0x7fffffff"
  by (simp add: coprime_iff_gcd_eq_1 gcd_non_0_int)

lemma do_rand_nonneg: "0 \<le> do_rand ctx"
proof -
  define x where "x = ctx mod 0x7ffffffe + 1"
  have x: "0 < x" "x < 0x7fffffff" by (simp_all add: x_def)
  have "\<not> 0x7fffffff dvd x" using x zdvd_not_zless by blast
  then have "\<not> 0x7fffffff dvd 16807 * x"
    using multiplier_coprime by (simp add: coprime_commute coprime_dvd_mult_right_iff)
  then have "16807 * x mod 0x7fffffff \<noteq> 0" unfolding dvd_eq_mod_eq_0 .
  moreover have "0 \<le> 16807 * x mod 0x7fffffff" by simp
  ultimately show ?thesis unfolding do_rand_conv x_def by linarith
qed

section \<open>Choosing the best runnable process\<close>

text \<open>\<open>r\<close> is a candidate that no candidate beats, or \<open>None\<close> when there is no candidate.\<close>

definition best_of :: "(proc \<Rightarrow> proc \<Rightarrow> bool) \<Rightarrow> (nat \<times> proc) option \<Rightarrow> (nat \<Rightarrow> proc \<Rightarrow> bool) \<Rightarrow> bool" where
  "best_of better r cand \<longleftrightarrow>
     (case r of
        None \<Rightarrow> \<forall>i p. \<not> cand i p
      | Some (j, b) \<Rightarrow> cand j b \<and> (\<forall>i p. cand i p \<longrightarrow> \<not> better b p))"

text \<open>
  The contract between the table scan and a policy: its comparison is a strict weak order.
  Then the scan finds a runnable process whenever there is one, and no runnable process is
  better than the one it finds.
\<close>

locale selection =
  fixes better :: "proc \<Rightarrow> proc \<Rightarrow> bool"
  assumes better_irrefl: "\<not> better p p"
    and better_trans: "\<not> better a b \<Longrightarrow> \<not> better b c \<Longrightarrow> \<not> better a c"
    and better_asym: "better a b \<Longrightarrow> \<not> better b a"
begin

lemma select_best_spec:
  assumes "best_of better best cand"
  shows "best_of better (select_best better k ps best)
    (\<lambda>i p. cand i p \<or> (\<exists>n < length ps. i = k + n \<and> p = ps ! n \<and> state p = RUNNABLE))"
  using assms
proof (induction ps arbitrary: k best cand)
  case Nil
  then show ?case by simp
next
  case (Cons q ps)
  let ?cand = "\<lambda>i p. cand i p \<or> (i = k \<and> p = q \<and> state q = RUNNABLE)"
  let ?best = "if state q = RUNNABLE then
      (case best of None \<Rightarrow> Some (k, q) | Some (j, b) \<Rightarrow> if better b q then Some (k, q) else best)
    else best"
  have "best_of better ?best ?cand"
  proof (cases best)
    case None
    then show ?thesis using Cons.prems better_irrefl by (auto simp: best_of_def)
  next
    case (Some jb)
    then obtain j b where b: "best = Some (j, b)" "cand j b" "\<And>i p. cand i p \<Longrightarrow> \<not> better b p"
      using Cons.prems by (cases jb) (auto simp: best_of_def)
    then show ?thesis
      using better_irrefl better_trans [of q b] better_asym [of b q]
      by (auto simp: best_of_def)
  qed
  then have "best_of better (select_best better (Suc k) ps ?best)
    (\<lambda>i p. ?cand i p \<or> (\<exists>n < length ps. i = Suc k + n \<and> p = ps ! n \<and> state p = RUNNABLE))"
    by (rule Cons.IH)
  moreover have "(\<lambda>i p. ?cand i p \<or> (\<exists>n < length ps. i = Suc k + n \<and> p = ps ! n \<and> state p = RUNNABLE))
    = (\<lambda>i p. cand i p \<or> (\<exists>n < length (q # ps). i = k + n \<and> p = (q # ps) ! n \<and> state p = RUNNABLE))"
    by (intro ext) (auto simp: Ex_less_Suc2 less_Suc_eq_0_disj)
  ultimately show ?case by simp
qed

lemma select_best_None:
  "select_best better 0 ps None = None \<longleftrightarrow> (\<forall>p \<in> set ps. state p \<noteq> RUNNABLE)"
proof -
  have spec: "best_of better (select_best better 0 ps None)
      (\<lambda>i p. \<exists>n < length ps. i = n \<and> p = ps ! n \<and> state p = RUNNABLE)"
    using select_best_spec [of None "\<lambda>i p. False" 0 ps] by (simp add: best_of_def)
  then show ?thesis
    by (cases "select_best better 0 ps None") (auto simp: best_of_def in_set_conv_nth, metis nth_mem)
qed

lemma select_best_Some:
  assumes "select_best better 0 ps None = Some (i, p)"
  shows "i < length ps" "p = ps ! i" "state (ps ! i) = RUNNABLE"
    "j < length ps \<Longrightarrow> state (ps ! j) = RUNNABLE \<Longrightarrow> \<not> better (ps ! i) (ps ! j)"
  using select_best_spec [of None "\<lambda>i p. False" 0 ps] assms
  by (auto simp: best_of_def)

end

interpretation fcfs: selection compare_stick
  by unfold_locales (auto simp: compare_stick_def)

interpretation pbs: selection compare_priority
  by unfold_locales (auto simp: compare_priority_def Let_def split: if_splits)

interpretation mlfq: selection compare_queue
  by unfold_locales (auto simp: compare_queue_def)

section \<open>The lottery\<close>

text \<open>The tickets of the runnable processes of a table.\<close>

fun runnable_tickets :: "proc list \<Rightarrow> int" where
  "runnable_tickets [] = 0"
| "runnable_tickets (p # ps) = (if state p = RUNNABLE then tickets p else 0) + runnable_tickets ps"

definition tickets_nonneg :: "proc list \<Rightarrow> bool" where
  "tickets_nonneg ps \<longleftrightarrow> (\<forall>p \<in> set ps. 0 \<le> tickets p)"

lemma runnable_tickets_nonneg: "tickets_nonneg ps \<Longrightarrow> 0 \<le> runnable_tickets ps"
  by (induction ps) (auto simp: tickets_nonneg_def)

lemma runnable_tickets_append:
  "runnable_tickets (ps @ qs) = runnable_tickets ps + runnable_tickets qs"
  by (induction ps) auto

lemma runnable_tickets_upd:
  assumes "i < length ps"
  shows "runnable_tickets (ps[i := q]) = runnable_tickets ps
    - (if state (ps ! i) = RUNNABLE then tickets (ps ! i) else 0)
    + (if state q = RUNNABLE then tickets q else 0)"
proof -
  have "ps = take i ps @ ps ! i # drop (Suc i) ps" using assms by (rule id_take_nth_drop)
  then have "runnable_tickets ps = runnable_tickets (take i ps)
    + (if state (ps ! i) = RUNNABLE then tickets (ps ! i) else 0) + runnable_tickets (drop (Suc i) ps)"
    by (metis runnable_tickets.simps(2) runnable_tickets_append add.assoc)
  then show ?thesis
    using assms by (simp add: upd_conv_take_nth_drop runnable_tickets_append)
qed

lemma lottery_scan_acc:
  "(n = 0 \<Longrightarrow> ct = 0) \<Longrightarrow> lottery_scan rn n ct k ps = lottery_scan (rn - ct) 0 0 k ps"
proof (induction ps arbitrary: n ct rn k)
  case (Cons p ps)
  have IH: "lottery_scan rn (Suc n) c (Suc k) ps = lottery_scan (rn - c) 0 0 (Suc k) ps" for rn n c
    using Cons.IH [of "Suc n" c] by simp
  show ?case
    using Cons.IH [OF Cons.prems] Cons.prems IH [of rn n "tickets p + ct"]
      IH [of "rn - ct" 0 "tickets p"] IH [of rn 0 "tickets p"]
    by (auto simp: Let_def algebra_simps)
qed simp

lemma lottery_scan_shift:
  "lottery_scan rn 0 0 (Suc k) ps = map_option Suc (lottery_scan rn 0 0 k ps)"
proof (induction ps arbitrary: rn k)
  case (Cons p ps)
  then show ?case
    using lottery_scan_acc [of "Suc 0" "tickets p"] by (auto simp: Let_def)
qed simp

lemma lottery_scan_Cons:
  "lottery_scan rn 0 0 0 (p # ps) =
     (if state p = RUNNABLE \<and> rn \<le> tickets p then Some 0
      else map_option Suc
        (lottery_scan (if state p = RUNNABLE then rn - tickets p else rn) 0 0 0 ps))"
  using lottery_scan_acc [of "Suc 0" "tickets p"] lottery_scan_shift [of _ 0] by (auto simp: Let_def)

text \<open>The winner is the process at whose position the cumulative tickets first reach \<open>rn\<close>.\<close>

lemma lottery_scan_Some_iff:
  assumes "tickets_nonneg ps" "0 < rn"
  shows "lottery_scan rn 0 0 0 ps = Some i \<longleftrightarrow>
    i < length ps \<and> state (ps ! i) = RUNNABLE
    \<and> runnable_tickets (take i ps) < rn \<and> rn \<le> runnable_tickets (take (Suc i) ps)"
  using assms
proof (induction ps arbitrary: rn i)
  case (Cons p ps)
  let ?t = "if state p = RUNNABLE then tickets p else 0"
  have nn: "tickets_nonneg ps" "0 \<le> ?t" using Cons.prems by (auto simp: tickets_nonneg_def)
  have pre: "0 \<le> runnable_tickets (take j ps)" for j
    using nn(1) by (intro runnable_tickets_nonneg) (auto simp: tickets_nonneg_def dest: in_set_takeD)
  show ?case
  proof (cases "state p = RUNNABLE \<and> rn \<le> tickets p")
    case True
    then show ?thesis
      using Cons.prems pre [of "i - 1"] by (cases i) (auto simp: lottery_scan_Cons)
  next
    case False
    then have rest: "0 < rn - ?t" using Cons.prems by auto
    have "lottery_scan rn 0 0 0 (p # ps) = map_option Suc (lottery_scan (rn - ?t) 0 0 0 ps)"
      using False unfolding lottery_scan_Cons by simp
    then show ?thesis
      using Cons.IH [OF nn(1) rest, of "i - 1"] False Cons.prems(2)
      by (cases i) (simp_all add: algebra_simps del: lottery_scan.simps)
  qed
qed simp

lemma lottery_scan_total:
  "tickets_nonneg ps \<Longrightarrow> 0 < rn \<Longrightarrow> rn \<le> runnable_tickets ps \<Longrightarrow> \<exists>i. lottery_scan rn 0 0 0 ps = Some i"
proof (induction ps arbitrary: rn)
  case (Cons p ps)
  let ?rn = "if state p = RUNNABLE then rn - tickets p else rn"
  show ?case
  proof (cases "state p = RUNNABLE \<and> rn \<le> tickets p")
    case False
    then have "\<exists>i. lottery_scan ?rn 0 0 0 ps = Some i"
      using Cons.prems by (intro Cons.IH) (auto simp: tickets_nonneg_def)
    then show ?thesis using False unfolding lottery_scan_Cons by auto
  qed (simp add: lottery_scan_Cons)
qed simp

lemma lottery_winners:
  assumes "tickets_nonneg ps" "i < length ps" "state (ps ! i) = RUNNABLE"
  shows "{rn \<in> {1..runnable_tickets ps}. lottery_scan rn 0 0 0 ps = Some i}
    = {runnable_tickets (take i ps) <.. runnable_tickets (take i ps) + tickets (ps ! i)}"
proof -
  have "take (Suc i) ps = take i ps @ [ps ! i]" using assms(2) by (simp add: take_Suc_conv_app_nth)
  then have suc: "runnable_tickets (take (Suc i) ps) = runnable_tickets (take i ps) + tickets (ps ! i)"
    using assms(3) by (simp add: runnable_tickets_append)
  have nn: "tickets_nonneg (take i ps)" "tickets_nonneg (drop (Suc i) ps)"
    using assms(1) by (auto simp: tickets_nonneg_def dest: in_set_takeD in_set_dropD)
  have "runnable_tickets ps = runnable_tickets (take (Suc i) ps) + runnable_tickets (drop (Suc i) ps)"
    by (simp flip: runnable_tickets_append)
  then show ?thesis
    using lottery_scan_Some_iff [OF assms(1)] assms(2,3) suc
      runnable_tickets_nonneg [OF nn(1)] runnable_tickets_nonneg [OF nn(2)]
    by auto
qed

end
