(* ===== verification/Sched_Inv.thy ===== *)
theory Sched_Inv
  imports Scheduler
begin

text \<open>
  The invariant of process table, CPUs and scheduler counters; a step relation of
  everything the kernel does to them; and the properties of scheduling that follow for every
  reachable state.
\<close>


section \<open>The invariant of the process table\<close>

text \<open>
  A CPU runs the process its \<^verbatim>\<open>cpu\<close> structure names, a process is \<^verbatim>\<open>RUNNING\<close> exactly when some
  CPU runs it, and no two CPUs run the same process.  \<open>sts\<close> and \<open>cs\<close> are the states of the
  table's slots and the processes of the CPUs.
\<close>

definition cpus_ok :: "procstate list \<Rightarrow> nat option list \<Rightarrow> bool" where
  "cpus_ok sts cs \<longleftrightarrow>
     (\<forall>c < length cs. \<forall>i. cs ! c = Some i \<longrightarrow> i < length sts \<and> sts ! i = RUNNING)
     \<and> (\<forall>c < length cs. \<forall>d < length cs. \<forall>i. cs ! c = Some i \<longrightarrow> cs ! d = Some i \<longrightarrow> c = d)
     \<and> (\<forall>i < length sts. sts ! i = RUNNING \<longrightarrow> (\<exists>c < length cs. cs ! c = Some i))"

lemma cpus_okD:
  assumes "cpus_ok sts cs" "c < length cs" "cs ! c = Some i"
  shows "i < length sts" "sts ! i = RUNNING" "d < length cs \<Longrightarrow> cs ! d = Some i \<Longrightarrow> d = c"
  using assms by (auto simp: cpus_ok_def)

lemma cpus_ok_ex:
  assumes "cpus_ok sts cs" "i < length sts" "sts ! i = RUNNING"
  obtains c where "c < length cs" "cs ! c = Some i"
  using assms by (auto simp: cpus_ok_def)

lemma cpus_okI:
  assumes "\<And>c i. c < length cs \<Longrightarrow> cs ! c = Some i \<Longrightarrow> i < length sts \<and> sts ! i = RUNNING"
    and "\<And>c d i. c < length cs \<Longrightarrow> d < length cs \<Longrightarrow> cs ! c = Some i \<Longrightarrow> cs ! d = Some i \<Longrightarrow> c = d"
    and "\<And>i. i < length sts \<Longrightarrow> sts ! i = RUNNING \<Longrightarrow> \<exists>c < length cs. cs ! c = Some i"
  shows "cpus_ok sts cs"
  using assms unfolding cpus_ok_def by blast

lemma cpus_ok_other:
  assumes ok: "cpus_ok sts cs" and "sts ! i \<noteq> RUNNING" "x \<noteq> RUNNING"
  shows "cpus_ok (sts[i := x]) cs"
proof (rule cpus_okI)
  fix c k assume "c < length cs" "cs ! c = Some k"
  then show "k < length (sts[i := x]) \<and> sts[i := x] ! k = RUNNING"
    using cpus_okD(1,2) [OF ok, of c k] assms(2) by (cases "k = i") auto
next
  fix c d k assume "c < length cs" "d < length cs" "cs ! c = Some k" "cs ! d = Some k"
  then show "c = d" using cpus_okD(3) [OF ok, of d k c] by simp
next
  fix k assume "k < length (sts[i := x])" "sts[i := x] ! k = RUNNING"
  then show "\<exists>c < length cs. cs ! c = Some k"
    using cpus_ok_ex [OF ok, of k] assms(3) by (cases "k = i") auto
qed

lemma cpus_ok_dispatch:
  assumes ok: "cpus_ok sts cs" and "i < length sts" "sts ! i \<noteq> RUNNING" "c < length cs" "cs ! c = None"
  shows "cpus_ok (sts[i := RUNNING]) (cs[c := Some i])"
proof (rule cpus_okI)
  fix d k assume "d < length (cs[c := Some i])" "cs[c := Some i] ! d = Some k"
  then show "k < length (sts[i := RUNNING]) \<and> sts[i := RUNNING] ! k = RUNNING"
    using cpus_okD(1,2) [OF ok, of d k] assms(2) by (cases "d = c"; cases "k = i") auto
next
  fix d e k assume a: "d < length (cs[c := Some i])" "e < length (cs[c := Some i])"
    "cs[c := Some i] ! d = Some k" "cs[c := Some i] ! e = Some k"
  then show "d = e"
    using cpus_okD(2) [OF ok, of d k] cpus_okD(2) [OF ok, of e k] cpus_okD(3) [OF ok, of d k e] assms(3)
    by (cases "d = c"; cases "e = c") auto
next
  fix k assume k: "k < length (sts[i := RUNNING])" "sts[i := RUNNING] ! k = RUNNING"
  show "\<exists>d < length (cs[c := Some i]). cs[c := Some i] ! d = Some k"
  proof (cases "k = i")
    case True
    then show ?thesis using assms(4) by (intro exI [of _ c]) simp
  next
    case False
    then obtain d where "d < length cs" "cs ! d = Some k" using k cpus_ok_ex [OF ok, of k] by auto
    then show ?thesis using assms(5) by (intro exI [of _ d]) (cases "d = c"; simp)
  qed
qed

lemma cpus_ok_leave:
  assumes ok: "cpus_ok sts cs" and c: "c < length cs" "cs ! c = Some i" and "x \<noteq> RUNNING"
  shows "cpus_ok (sts[i := x]) (cs[c := None])"
proof (rule cpus_okI)
  fix d k assume "d < length (cs[c := None])" "cs[c := None] ! d = Some k"
  then show "k < length (sts[i := x]) \<and> sts[i := x] ! k = RUNNING"
  proof (cases "d = c")
    case False
    then have d: "d < length cs" "cs ! d = Some k"
      using \<open>d < length (cs[c := None])\<close> \<open>cs[c := None] ! d = Some k\<close> by simp_all
    then have "k \<noteq> i" using cpus_okD(3) [OF ok c d(1)] False by auto
    then show ?thesis using cpus_okD(1,2) [OF ok d] by simp
  qed (use c in simp)
next
  fix d e k assume "d < length (cs[c := None])" "e < length (cs[c := None])"
    "cs[c := None] ! d = Some k" "cs[c := None] ! e = Some k"
  then show "d = e"
    using cpus_okD(3) [OF ok, of d k e] c(1) by (cases "d = c"; cases "e = c") auto
next
  fix k assume k: "k < length (sts[i := x])" "sts[i := x] ! k = RUNNING"
  then have "k \<noteq> i" using assms(4) by auto
  then obtain d where "d < length cs" "cs ! d = Some k" using k cpus_ok_ex [OF ok, of k] by auto
  then show "\<exists>d < length (cs[c := None]). cs[c := None] ! d = Some k"
    using \<open>k \<noteq> i\<close> c by (intro exI [of _ d]) (cases "d = c"; simp)
qed

text \<open>
  Under LBS the counter \<^verbatim>\<open>totaltickets\<close> is the number of tickets of the runnable processes;
  under MLFQ every process is in one of the queues.
\<close>

definition tickets_ok :: "'a ptable_scheme \<Rightarrow> bool" where
  "tickets_ok s \<longleftrightarrow> policy s = LBS \<longrightarrow>
     totaltickets s = runnable_tickets (procs s) \<and> tickets_nonneg (procs s)"

definition queues_ok :: "'a ptable_scheme \<Rightarrow> bool" where
  "queues_ok s \<longleftrightarrow> policy s = MLFQ \<longrightarrow> (\<forall>p \<in> set (procs s). 0 \<le> queue p \<and> queue p < NQUEUE)"

definition sched_inv :: "'a ptable_scheme \<Rightarrow> bool" where
  "sched_inv s \<longleftrightarrow> length (procs s) = NPROC
     \<and> cpus_ok (map state (procs s)) (map cproc (cpu_tab s)) \<and> tickets_ok s \<and> queues_ok s"

lemma tickets_nonneg_upd:
  "tickets_nonneg ps \<Longrightarrow> 0 \<le> tickets p \<Longrightarrow> tickets_nonneg (ps[i := p])"
  by (auto simp: tickets_nonneg_def dest: set_update_subset_insert [THEN subsetD])

lemma tickets_nonnegD: "tickets_nonneg ps \<Longrightarrow> i < length ps \<Longrightarrow> 0 \<le> tickets (ps ! i)"
  by (simp add: tickets_nonneg_def)

text \<open>The change of a single slot, with \<open>d\<close> added to \<^verbatim>\<open>totaltickets\<close> under LBS.\<close>

definition slot_delta :: "proc \<Rightarrow> proc \<Rightarrow> int" where
  "slot_delta p q = (if state q = RUNNABLE then tickets q else 0) - (if state p = RUNNABLE then tickets p else 0)"

lemma sched_inv_slot:
  assumes "sched_inv s" "i < length (procs s)"
    and "procs s' = (procs s)[i := q]" "policy s' = policy s"
    and "policy s = LBS \<Longrightarrow> totaltickets s' = totaltickets s + slot_delta (procs s ! i) q \<and> 0 \<le> tickets q"
    and "policy s = MLFQ \<Longrightarrow> 0 \<le> queue q \<and> queue q < NQUEUE"
    and "cpus_ok ((map state (procs s))[i := state q]) (map cproc (cpu_tab s'))"
  shows "sched_inv s'"
proof -
  have "tickets_ok s'"
    using assms(1,2,3,4,5) tickets_nonneg_upd [of "procs s" q i]
    by (auto simp: sched_inv_def tickets_ok_def runnable_tickets_upd slot_delta_def)
  moreover have "queues_ok s'"
    using assms(1,3,4,6) by (auto simp: sched_inv_def queues_ok_def dest!: set_update_subset_insert [THEN subsetD])
  ultimately show ?thesis using assms(1,3,7) by (simp add: sched_inv_def map_update)
qed

lemma sched_invD:
  assumes "sched_inv s"
  shows "length (procs s) = NPROC" "cpus_ok (map state (procs s)) (map cproc (cpu_tab s))"
    "policy s = LBS \<Longrightarrow> totaltickets s = runnable_tickets (procs s)"
    "policy s = LBS \<Longrightarrow> i < length (procs s) \<Longrightarrow> 0 \<le> tickets (procs s ! i)"
    "policy s = MLFQ \<Longrightarrow> i < length (procs s) \<Longrightarrow> 0 \<le> queue (procs s ! i)"
    "policy s = MLFQ \<Longrightarrow> i < length (procs s) \<Longrightarrow> queue (procs s ! i) < NQUEUE"
  using assms by (auto simp: sched_inv_def tickets_ok_def queues_ok_def tickets_nonneg_def)

text \<open>A change of a slot that the invariant does not see.\<close>

lemma sched_inv_same_state:
  assumes "sched_inv s" "i < length (procs s)" "procs s' = (procs s)[i := q]" "policy s' = policy s"
    and "cpu_tab s' = cpu_tab s" "totaltickets s' = totaltickets s"
    and "state q = state (procs s ! i)" "tickets q = tickets (procs s ! i)"
    and "policy s = MLFQ \<Longrightarrow> 0 \<le> queue q \<and> queue q < NQUEUE"
  shows "sched_inv s'"
proof -
  have "(map state (procs s))[i := state q] = map state (procs s)"
    using assms(2,7) by (simp add: list_update_same_conv)
  then show ?thesis
    using assms sched_invD [OF assms(1)] by (intro sched_inv_slot [OF assms(1-4)]) (auto simp: slot_delta_def)
qed

lemma sched_inv_same:
  assumes "sched_inv s" "i < length (procs s)" "procs s' = (procs s)[i := q]" "policy s' = policy s"
    and "cpu_tab s' = cpu_tab s" "totaltickets s' = totaltickets s"
    and "state q = state (procs s ! i)" "tickets q = tickets (procs s ! i)" "queue q = queue (procs s ! i)"
  shows "sched_inv s'"
  using assms sched_invD(5,6) [OF assms(1)] by (intro sched_inv_same_state [OF assms(1-8)]) simp

text \<open>The process a CPU runs.\<close>

lemma current_proc:
  assumes "sched_inv s" "c < length (cpu_tab s)" "cproc (cpu_tab s ! c) = Some i"
  shows "i < length (procs s)" "state (procs s ! i) = RUNNING"
  using cpus_okD [OF sched_invD(2) [OF assms(1)], of c i] assms(2,3) by auto

section \<open>Each operation keeps the invariant\<close>

lemma recompute_niceness_simps [simp]:
  "state (recompute_niceness p) = state p" "tickets (recompute_niceness p) = tickets p"
  "queue (recompute_niceness p) = queue p" "chan (recompute_niceness p) = chan p"
  "pid (recompute_niceness p) = pid p" "killed_flag (recompute_niceness p) = killed_flag p"
  "parent (recompute_niceness p) = parent p"
  by (simp_all add: recompute_niceness_def)

lemma wake_fields_simps [simp]:
  "state (wake_fields pol now p) = RUNNABLE" "tickets (wake_fields pol now p) = tickets p"
  "queue (wake_fields pol now p) = queue p" "chan (wake_fields pol now p) = chan p"
  "pid (wake_fields pol now p) = pid p" "killed_flag (wake_fields pol now p) = killed_flag p"
  "parent (wake_fields pol now p) = parent p"
  by (cases pol; simp add: wake_fields_def)+

lemma dispatch_fields_simps [simp]:
  "state (dispatch_fields pol now p) = RUNNING" "tickets (dispatch_fields pol now p) = tickets p"
  "queue (dispatch_fields pol now p) = queue p"
  by (cases pol; simp add: dispatch_fields_def)+

lemma yield_fields_simps [simp]:
  "state (yield_fields pol now p) = RUNNABLE" "tickets (yield_fields pol now p) = tickets p"
  by (cases pol; simp add: yield_fields_def Let_def)+

lemma yield_fields_queue:
  "0 \<le> queue p \<Longrightarrow> queue p < NQUEUE \<Longrightarrow>
     0 \<le> queue (yield_fields pol now p) \<and> queue (yield_fields pol now p) < NQUEUE"
  by (cases pol) (auto simp: yield_fields_def Let_def)

lemma make_runnable_simps [simp]:
  "procs (make_runnable i s) = (procs s)[i := wake_fields (policy s) (ticks s) (procs s ! i)]"
  "policy (make_runnable i s) = policy s" "cpu_tab (make_runnable i s) = cpu_tab s"
  "ticks (make_runnable i s) = ticks s"
  "totaltickets (make_runnable i s) =
     totaltickets s + (if policy s = LBS then tickets (procs s ! i) else 0)"
  by (simp_all add: make_runnable_def Let_def)

lemma make_runnable_inv:
  assumes "sched_inv s" "i < length (procs s)" "state (procs s ! i) = SLEEPING"
  shows "sched_inv (make_runnable i s)"
  by (rule sched_inv_slot [OF assms(1,2)])
    (use assms sched_invD [OF assms(1)] in \<open>auto simp: slot_delta_def intro!: cpus_ok_other\<close>)

lemma wakeup_loop_inv:
  "sched_inv s \<Longrightarrow> \<forall>i \<in> set is. i < NPROC \<Longrightarrow> sched_inv (wakeup_loop is cur ch s)"
proof (induction "is" arbitrary: s)
  case (Cons i "is")
  then show ?case using make_runnable_inv [of s i] sched_invD(1) [of s] by auto
qed simp

lemma wakeup_inv: "sched_inv s \<Longrightarrow> sched_inv (wakeup cur ch s)"
  unfolding wakeup_def by (rule wakeup_loop_inv) auto

lemma setkilled_inv: "sched_inv s \<Longrightarrow> i < length (procs s) \<Longrightarrow> sched_inv (setkilled i s)"
  by (rule sched_inv_same [of s i _ "(procs s ! i)\<lparr>killed_flag := 1\<rparr>"]) (auto simp: setkilled_def)

lemma kill_inv:
  assumes "sched_inv s"
  shows "sched_inv (snd (kill k s))"
proof (cases "first_index (\<lambda>p. pid p = k) (procs s)")
  case (Some i)
  let ?s = "setkilled i s"
  have i: "i < length (procs s)" using first_index_SomeD(1) [OF Some] .
  then have inv: "sched_inv ?s" using assms by (rule setkilled_inv [rotated])
  have "kill k s = (0, if state (procs ?s ! i) = SLEEPING then make_runnable i ?s else ?s)"
    using Some by (simp add: kill_def setkilled_def Let_def)
  then show ?thesis using inv make_runnable_inv [OF inv] i by (simp add: setkilled_def)
qed (use assms in \<open>simp add: kill_def\<close>)

lemma switch_back_simps [simp]:
  "procs (switch_back c s) = procs s" "policy (switch_back c s) = policy s"
  "totaltickets (switch_back c s) = totaltickets s" "ticks (switch_back c s) = ticks s"
  "map cproc (cpu_tab (switch_back c s)) = (map cproc (cpu_tab s))[c := None]"
  by (simp_all add: switch_back_def upd_cpu_def map_update)

lemma leave_inv:
  assumes "sched_inv s" "c < length (cpu_tab s)" "cproc (cpu_tab s ! c) = Some i"
    and "procs t = (procs s)[i := q]" "policy t = policy s" "cpu_tab t = cpu_tab s" "state q \<noteq> RUNNING"
    and "policy s = LBS \<Longrightarrow> totaltickets t = totaltickets s + slot_delta (procs s ! i) q \<and> 0 \<le> tickets q"
    and "policy s = MLFQ \<Longrightarrow> 0 \<le> queue q \<and> queue q < NQUEUE"
  shows "sched_inv (switch_back c t)"
  by (rule sched_inv_slot [OF assms(1) current_proc(1) [OF assms(1-3)], of _ q])
    (use assms in \<open>auto intro!: cpus_ok_leave sched_invD(2)\<close>)

lemma yield_inv:
  assumes "sched_inv s" "c < length (cpu_tab s)" "cproc (cpu_tab s ! c) = Some i"
  shows "sched_inv (switch_back c (yield_proc i s))"
  by (rule leave_inv [OF assms, of _ "yield_fields (policy s) (ticks s) (procs s ! i)"])
    (use sched_invD [OF assms(1)] current_proc [OF assms] yield_fields_queue in
      \<open>auto simp: yield_proc_def Let_def slot_delta_def\<close>)

lemma sleep_inv:
  assumes "sched_inv s" "c < length (cpu_tab s)" "cproc (cpu_tab s ! c) = Some i"
  shows "sched_inv (switch_back c (sleep_enter i ch s))"
  by (rule leave_inv [OF assms])
    (use sched_invD [OF assms(1)] current_proc [OF assms] in
      \<open>auto simp: sleep_enter_def Let_def slot_delta_def\<close>)


lemma sleep_leave_inv: "sched_inv s \<Longrightarrow> i < length (procs s) \<Longrightarrow> sched_inv (sleep_leave i s)"
  by (rule sched_inv_same [of s i _ "(procs s ! i)\<lparr>chan := Chan0\<rparr>"]) (auto simp: sleep_leave_def)

lemma set_priority_inv: "sched_inv s \<Longrightarrow> set_priority np k s = (r, y, s') \<Longrightarrow> sched_inv s'"
proof -
  assume inv: "sched_inv s" and sp: "set_priority np k s = (r, y, s')"
  show "sched_inv s'"
  proof (cases "first_index (\<lambda>p. state p \<in> {SLEEPING, RUNNING, RUNNABLE} \<and> pid p = k) (procs s)")
    case (Some i)
    then have i: "i < length (procs s)" by (rule first_index_SomeD)
    have s': "s' = upd_proc i (\<lambda>p. p\<lparr>niceness := 5, priority := np\<rparr>) s"
      using sp Some by (auto simp: set_priority_def Let_def)
    show ?thesis
      by (rule sched_inv_same [OF inv i, of _ "(procs s ! i)\<lparr>niceness := 5, priority := np\<rparr>"])
        (simp_all add: s')
  next
    case None
    then have "s' = s" using sp unfolding set_priority_def by simp
    then show ?thesis using inv by simp
  qed
qed

lemma settickets_inv:
  assumes "sched_inv s" "c < length (cpu_tab s)" "cproc (cpu_tab s ! c) = Some i"
    and "settickets i n s = (r, s')"
  shows "sched_inv s'"
proof (cases "n < 0")
  case False
  note i = current_proc [OF assms(1-3)]
  let ?q = "(procs s ! i)\<lparr>tickets := n\<rparr>"
  have s': "s' = upd_proc i (\<lambda>p. p\<lparr>tickets := n\<rparr>) s"
    using assms(4) False by (auto simp: settickets_def)
  have "(map state (procs s))[i := state ?q] = map state (procs s)"
    using i(1) by (simp add: list_update_same_conv)
  then show ?thesis
    using i False sched_invD [OF assms(1)]
    by (intro sched_inv_slot [OF assms(1) i(1), of _ ?q]) (auto simp: s' slot_delta_def)
qed (use assms in \<open>simp add: settickets_def\<close>)

lemma tick_proc_simps [simp]:
  "state (tick_proc pol p) = state p" "tickets (tick_proc pol p) = tickets p"
  by (auto simp: tick_proc_def Let_def)

lemma tick_proc_queue:
  "0 \<le> queue p \<Longrightarrow> queue p < NQUEUE \<Longrightarrow> 0 \<le> queue (tick_proc pol p) \<and> queue (tick_proc pol p) < NQUEUE"
  by (auto simp: tick_proc_def Let_def)

lemma runnable_tickets_tick: "runnable_tickets (map (tick_proc pol) ps) = runnable_tickets ps"
  by (induction ps) simp_all

lemma clockintr_inv: "sched_inv s \<Longrightarrow> sched_inv (clockintr cur s)"
  unfolding clockintr_def
  by (rule wakeup_inv)
    (auto simp: sched_inv_def tickets_ok_def queues_ok_def tickets_nonneg_def comp_def
      runnable_tickets_tick tick_proc_queue)

lemma lottery_scan_runnable:
  "lottery_scan rn n ct k ps = Some i \<Longrightarrow> k \<le> i \<and> i - k < length ps \<and> state (ps ! (i - k)) = RUNNABLE"
proof (induction ps arbitrary: n ct k)
  case (Cons p ps)
  show ?case
  proof (cases "i = k")
    case True
    then show ?thesis
      using Cons.prems Cons.IH [of _ _ "Suc k"] by (auto simp: Let_def split: if_splits)
  next
    case False
    then have "Suc k \<le> i \<and> i - Suc k < length ps \<and> state (ps ! (i - Suc k)) = RUNNABLE"
      using Cons.prems Cons.IH [of _ _ "Suc k"] by (auto simp: Let_def split: if_splits)
    then show ?thesis by (auto simp: nth_Cons' Suc_diff_le)
  qed
qed simp

lemma next_runnable_Some:
  assumes "next_runnable pos ps = Some i"
  shows "i < length ps" "state (ps ! i) = RUNNABLE" "pos \<le> i"
  using assms by (auto simp: next_runnable_def first_index_Some)

lemma pick_next_runnable:
  assumes "pick_next pos s = (Some i, t)"
  shows "i < length (procs s)" "state (procs s ! i) = RUNNABLE"
proof -
  have "i < length (procs s) \<and> state (procs s ! i) = RUNNABLE"
  proof (cases "policy s")
    case LBS
    then show ?thesis
      using assms lottery_scan_runnable [of _ 0 0 0 "procs s" i]
      by (auto simp: pick_next_def rand_def Let_def)
  qed (use assms next_runnable_Some fcfs.select_best_Some(1,3) pbs.select_best_Some(1,3)
        mlfq.select_best_Some(1,3) in \<open>auto simp: pick_next_def\<close>)
  then show "i < length (procs s)" "state (procs s ! i) = RUNNABLE" by auto
qed

lemma pick_next_same:
  assumes "pick_next pos s = (r, t)"
  shows "procs t = procs s" "policy t = policy s" "cpu_tab t = cpu_tab s"
    "totaltickets t = totaltickets s" "ticks t = ticks s"
proof -
  have "t = snd (pick_next pos s)" using assms by simp
  moreover have "snd (pick_next pos s) = s\<lparr>rand_next := rand_next (snd (pick_next pos s))\<rparr>"
    by (cases "policy s") (simp_all add: pick_next_def rand_def Let_def)
  ultimately have t: "t = s\<lparr>rand_next := rand_next t\<rparr>" by simp
  show "procs t = procs s" "policy t = policy s" "cpu_tab t = cpu_tab s"
    "totaltickets t = totaltickets s" "ticks t = ticks s"
    by (subst t, simp)+
qed

lemma sched_inv_cong:
  "sched_inv s \<Longrightarrow> procs t = procs s \<Longrightarrow> policy t = policy s \<Longrightarrow> cpu_tab t = cpu_tab s \<Longrightarrow>
     totaltickets t = totaltickets s \<Longrightarrow> sched_inv t"
  by (simp add: sched_inv_def tickets_ok_def queues_ok_def)

lemma dispatch_simps [simp]:
  "procs (dispatch c i s) = (procs s)[i := dispatch_fields (policy s) (ticks s) (procs s ! i)]"
  "policy (dispatch c i s) = policy s" "ticks (dispatch c i s) = ticks s"
  "map cproc (cpu_tab (dispatch c i s)) = (map cproc (cpu_tab s))[c := Some i]"
  "totaltickets (dispatch c i s) =
     totaltickets s - (if policy s = LBS then tickets (procs s ! i) else 0)"
  by (simp_all add: dispatch_def upd_cpu_def Let_def map_update)

lemma dispatch_inv:
  assumes "sched_inv s" "i < length (procs s)" "state (procs s ! i) = RUNNABLE"
    and "c < length (cpu_tab s)" "cproc (cpu_tab s ! c) = None"
  shows "sched_inv (dispatch c i s)"
proof -
  have "cpus_ok ((map state (procs s))[i := RUNNING]) ((map cproc (cpu_tab s))[c := Some i])"
    by (rule cpus_ok_dispatch) (use assms sched_invD(2) [OF assms(1)] in simp_all)
  then show ?thesis
    using assms(2,3) sched_invD(4-6) [OF assms(1), of i]
    by (intro sched_inv_slot [OF assms(1,2), of _ "dispatch_fields (policy s) (ticks s) (procs s ! i)"])
      (simp_all add: slot_delta_def)
qed

lemma scheduler_inv:
  assumes "sched_inv s" "c < length (cpu_tab s)" "cproc (cpu_tab s ! c) = None"
    and "scheduler c pos s = (r, s')"
  shows "sched_inv s'"
proof -
  obtain q t where t: "pick_next pos s = (q, t)" by (cases "pick_next pos s")
  note same = pick_next_same [OF t]
  have inv: "sched_inv t" by (rule sched_inv_cong [OF assms(1)]) (simp_all add: same)
  show ?thesis
  proof (cases q)
    case (Some i)
    then show ?thesis
      using assms(2-4) t same dispatch_inv [OF inv, of i c] pick_next_runnable [of pos s i t]
      by (simp add: scheduler_def)
  qed (use assms(4) t inv in \<open>simp add: scheduler_def\<close>)
qed

section \<open>Creating and ending processes\<close>

lemma fork_ready_inv:
  assumes inv: "sched_inv s" and run: "c < length (cpu_tab s)" "cproc (cpu_tab s ! c) = Some i"
    and np: "np < length (procs s)" "state (procs s ! np) = USED"
  shows "sched_inv (fork_ready i np s)"
proof -
  note i = current_proc [OF inv run]
  have ne: "np \<noteq> i" using i np by auto
  have cp: "cpus_ok ((map state (procs s))[np := RUNNABLE]) (map cproc (cpu_tab s))"
    using sched_invD(2) [OF inv] np by (intro cpus_ok_other) simp_all
  show ?thesis
  proof (cases "policy s")
    case MLFQ
    let ?s = "upd_proc np (\<lambda>q. q\<lparr>state := RUNNABLE\<rparr>) s"
    have "sched_inv ?s"
      by (rule sched_inv_slot [OF inv np(1), of _ "(procs s ! np)\<lparr>state := RUNNABLE\<rparr>"])
        (use MLFQ cp np sched_invD(5,6) [OF inv MLFQ np(1)] in simp_all)
    then have "sched_inv (upd_proc i (\<lambda>q. q\<lparr>queue := 0, intime := i32 (ticks s)\<rparr>) ?s)"
      by (rule sched_inv_same_state [of _ i _ "(procs s ! i)\<lparr>queue := 0, intime := i32 (ticks s)\<rparr>"])
        (use MLFQ ne i in simp_all)
    then show ?thesis using MLFQ by (simp add: fork_ready_def)
  next
    case LBS
    let ?q = "(procs s ! np)\<lparr>state := RUNNABLE, tickets := tickets (procs s ! i)\<rparr>"
    show ?thesis
      by (rule sched_inv_slot [OF inv np(1), of _ ?q])
        (use LBS cp np ne i sched_invD(4) [OF inv LBS i(1)] in
          \<open>simp_all add: fork_ready_def Let_def slot_delta_def\<close>)
  qed (rule sched_inv_slot [OF inv np(1), of _ "(procs s ! np)\<lparr>state := RUNNABLE\<rparr>"],
       simp_all add: fork_ready_def Let_def cp)+
qed

lemma exit_zombie_inv:
  assumes "sched_inv s" "c < length (cpu_tab s)" "cproc (cpu_tab s ! c) = Some i"
  shows "sched_inv (switch_back c (exit_zombie i status s))"
  by (rule leave_inv [OF assms, of _ "(procs s ! i)\<lparr>xstate := status, state := ZOMBIE, etime := ticks s\<rparr>"])
    (use sched_invD(4-6) [OF assms(1)] current_proc [OF assms] in
      \<open>simp_all add: exit_zombie_def slot_delta_def\<close>)

lemma same_sched_slot_inv:
  assumes "sched_inv s" "i < length (procs s)" "state (procs s ! i) \<notin> {RUNNING, RUNNABLE}"
    and "same_sched s t" "procs t = (procs s)[i := q]" "state q \<notin> {RUNNING, RUNNABLE}"
    and "tickets q = (if policy s = LBS then 0 else tickets (procs s ! i))"
    and "queue q = (if policy s = MLFQ then 0 else queue (procs s ! i))"
  shows "sched_inv t"
  by (rule sched_inv_slot [OF assms(1,2,5)])
    (use assms sched_invD(2) [OF assms(1)] in
      \<open>auto simp: same_sched_def slot_delta_def intro!: cpus_ok_other\<close>)

lemma freeproc_inv:
  assumes "sched_inv s" "i < length (procs s)" "state (procs s ! i) \<notin> {RUNNING, RUNNABLE}"
    and "freeproc i s = OK s'"
  shows "sched_inv s'"
  by (rule same_sched_slot_inv [OF assms(1-3) freeproc_table(2,1) [OF assms(4,2)]]) simp_all

lemma filling_inv:
  assumes "sched_inv s" "i < length (procs s)" "state (procs s ! i) = UNUSED" "filling s i t"
  shows "sched_inv t" "i < length (procs t)" "state (procs t ! i) = USED"
proof -
  obtain p where p: "procs t = (procs s)[i := p]" "state p = USED" "same_sched s t"
     "tickets p = (if policy s = LBS then 0 else tickets (procs s ! i))"
     "queue p = (if policy s = MLFQ then 0 else queue (procs s ! i))"
    using assms(4) by (auto simp: filling_def)
  show "sched_inv t"
    by (rule same_sched_slot_inv [OF assms(1,2) _ p(3,1)]) (use assms(3) p in simp_all)
  show "i < length (procs t)" "state (procs t ! i) = USED" using p assms(2) by simp_all
qed

lemma allocproc_inv:
  assumes "sched_inv s" "allocproc s = OK (r, s')"
  shows "sched_inv s'"
  using assms(2)
proof (cases rule: allocproc_cases)
  case (2 i t)
  note i = first_index_SomeD(1,2) [OF 2(1)]
  note f = filling_inv [OF assms(1) i 2(3)]
  show ?thesis by (rule freeproc_inv [OF f(1,2) _ 2(4)]) (simp add: f(3))
next
  case (3 i)
  then show ?thesis using filling_inv(1) [OF assms(1) first_index_SomeD(1,2) [OF 3(1)]] by blast
qed (use assms(1) in simp)

lemma same_rest_inv: "sched_inv s \<Longrightarrow> same_rest s s' \<Longrightarrow> sched_inv s'"
  by (erule sched_inv_cong) (simp_all add: same_rest_ptable)

section \<open>Everything that happens to the table\<close>

definition running :: "'a ptable_scheme \<Rightarrow> nat \<Rightarrow> nat \<Rightarrow> bool" where
  "running s c i \<longleftrightarrow> c < length (cpu_tab s) \<and> cproc (cpu_tab s ! c) = Some i"

inductive sched_step :: "'a ptable_scheme \<Rightarrow> 'a ptable_scheme \<Rightarrow> bool" where
  schedule: "c < length (cpu_tab s) \<Longrightarrow> cproc (cpu_tab s ! c) = None \<Longrightarrow>
    scheduler c pos s = (r, s') \<Longrightarrow> sched_step s s'"
| yielding: "running s c i \<Longrightarrow> policy s \<noteq> FCFS \<Longrightarrow> sched_step s (switch_back c (yield_proc i s))"
| sleeping: "running s c i \<Longrightarrow> sched_step s (switch_back c (sleep_enter i ch s))"
| resuming: "running s c i \<Longrightarrow> sched_step s (sleep_leave i s)"
| waking: "sched_step s (wakeup cur ch s)"
| killing: "sched_step s (snd (kill k s))"
| killing_self: "running s c i \<Longrightarrow> sched_step s (setkilled i s)"
| ticking: "sched_step s (clockintr cur s)"
| prioritising: "set_priority np k s = (r, y, s') \<Longrightarrow> sched_step s s'"
| ticketing: "running s c i \<Longrightarrow> settickets i n s = (r, s') \<Longrightarrow> sched_step s s'"
| allocating: "allocproc s = OK (r, s') \<Longrightarrow> sched_step s s'"
| forking: "running s c i \<Longrightarrow> np < length (procs s) \<Longrightarrow> state (procs s ! np) = USED \<Longrightarrow>
    sched_step s (fork_ready i np s)"
| exiting: "running s c i \<Longrightarrow> sched_step s (switch_back c (exit_zombie i status s))"
| reaping: "i < length (procs s) \<Longrightarrow> state (procs s ! i) \<in> {USED, ZOMBIE} \<Longrightarrow>
    freeproc i s = OK s' \<Longrightarrow> sched_step s s'"
| memory: "same_rest s s' \<Longrightarrow> sched_step s s'"

text \<open>
  The machine after \<^verbatim>\<open>procinit\<close>: every slot unused, every CPU in its scheduler, the fields
  of C's zero-initialised table zero.
\<close>

definition sched_boot :: "'a ptable_scheme \<Rightarrow> bool" where
  "sched_boot s \<longleftrightarrow> length (procs s) = NPROC
     \<and> (\<forall>p \<in> set (procs s). state p = UNUSED \<and> tickets p = 0 \<and> queue p = 0)
     \<and> (\<forall>cp \<in> set (cpu_tab s). cproc cp = None) \<and> totaltickets s = 0"

inductive sched_reachable :: "'a ptable_scheme \<Rightarrow> bool" where
  boot: "sched_boot s \<Longrightarrow> sched_reachable s"
| step: "sched_reachable s \<Longrightarrow> sched_step s s' \<Longrightarrow> sched_reachable s'"

lemma sched_step_inv: "sched_step s s' \<Longrightarrow> sched_inv s \<Longrightarrow> sched_inv s'"
proof (induction rule: sched_step.induct)
  case (schedule c s pos r s')
  then show ?case by (blast intro: scheduler_inv)
next
  case (reaping i s s')
  show ?case by (rule freeproc_inv [OF reaping.prems reaping.hyps(1) _ reaping.hyps(3)])
      (use reaping.hyps(2) in auto)
qed (auto simp: running_def intro: yield_inv sleep_inv sleep_leave_inv wakeup_inv kill_inv
      setkilled_inv clockintr_inv set_priority_inv settickets_inv allocproc_inv fork_ready_inv
      exit_zombie_inv same_rest_inv current_proc(1))

lemma sched_boot_inv: "sched_boot s \<Longrightarrow> sched_inv s"
proof -
  assume b: "sched_boot s"
  have "runnable_tickets ps = 0" if "\<forall>p \<in> set ps. state p = UNUSED" for ps
    using that by (induction ps) auto
  moreover have "cpus_ok (map state (procs s)) (map cproc (cpu_tab s))"
    using b by (auto simp: cpus_ok_def sched_boot_def)
  ultimately show ?thesis
    using b by (auto simp: sched_inv_def tickets_ok_def queues_ok_def tickets_nonneg_def sched_boot_def)
qed

lemma sched_reachable_inv: "sched_reachable s \<Longrightarrow> sched_inv s"
  by (induction rule: sched_reachable.induct) (auto intro: sched_boot_inv sched_step_inv)

section \<open>Properties\<close>

text \<open>A table with one runnable process for each ticket count of \<open>ts\<close>, the other slots unused.\<close>

definition idle_proc :: proc where
  "idle_proc = \<lparr>state = UNUSED, chan = Chan0, killed_flag = 0, xstate = 0, pid = 0, stick = 0,
     priority = 0, tickls = 0, tickslp = 0, tickrng = 0, niceness = 0, nscheduled = 0, queue = 0,
     waittime = 0, ticksused = 0, intime = 0, tickets = 0, parent = None, kstack = 0, psz = 0,
     pagetable = 0, trapframe = 0, ctxt = \<lparr>ctx_ra = 0, ctx_sp = 0, ctx_s = []\<rparr>, ofile = [],
     cwd = None, pname = [], ticksn = 0, ticksp = 0, tickspa = 0, sigalarm = 0, handler = 0,
     trapcopy = 0, trace = 0, tracemask = 0, rtime = 0, ctime = 0, etime = 0\<rparr>"

definition idle_cpu :: cpu where
  "idle_cpu = \<lparr>cproc = None, noff = 0, intena = False, sie = False\<rparr>"

definition boot_table :: "sched_policy \<Rightarrow> ptable" where
  "boot_table pol = \<lparr>mem = (\<lambda>_. 0), freelist = 0, pgrc = (\<lambda>_. 0), kend = 0x87FFF000,
     kernel_pagetable = 0, etext = 0, trampoline = 0, satp = 0,
     procs = replicate 64 idle_proc, initproc = None, nextpid = 1, totaltickets = 0, rand_next = 1,
     ticks = 0, cpu_tab = replicate 8 idle_cpu, policy = pol, forkret_addr = 0\<rparr>"

lemma boot_table_reachable: "sched_reachable (boot_table pol)"
  by (rule sched_reachable.boot) (simp add: sched_boot_def boot_table_def idle_proc_def idle_cpu_def)








text \<open>
  C13 (random numbers). \<^verbatim>\<open>do_rand\<close> computes the Park-Miller step
  \<open>16807 * x mod (2^31 - 1)\<close> for \<open>x\<close> in \<open>1..2^31 - 2\<close>, although it never forms the product, and
  its result stays in the documented range \<open>0..0x7ffffffd\<close>.
\<close>

theorem do_rand_park_miller:
  "do_rand ctx = 16807 * (ctx mod 0x7ffffffe + 1) mod (2 ^ 31 - 1) - 1
   \<and> 0 \<le> do_rand ctx \<and> do_rand ctx \<le> 0x7ffffffd"
proof -
  have "16807 * (ctx mod 0x7ffffffe + 1) mod 0x7fffffff < 0x7fffffff" by simp
  then have "do_rand ctx \<le> 0x7ffffffd" unfolding do_rand_conv by linarith
  then show ?thesis using do_rand_nonneg [of ctx] do_rand_conv [of ctx] by simp
qed

text \<open>Whether the policy prefers \<open>a\<close> to \<open>b\<close>.\<close>

definition policy_prefers :: "sched_policy \<Rightarrow> proc \<Rightarrow> proc \<Rightarrow> bool" where
  "policy_prefers pol a b =
     (case pol of FCFS \<Rightarrow> compare_stick b a | PBS \<Rightarrow> compare_priority b a
      | MLFQ \<Rightarrow> compare_queue b a | _ \<Rightarrow> False)"

lemma scheduler_best:
  assumes "policy s \<in> {FCFS, PBS, MLFQ}" "scheduler c pos s = (r, s')"
  shows "(r = None \<longleftrightarrow> (\<forall>p \<in> set (procs s). state p \<noteq> RUNNABLE))"
    "r = Some i \<Longrightarrow> i < length (procs s) \<and> state (procs s ! i) = RUNNABLE"
    "r = Some i \<Longrightarrow> j < length (procs s) \<Longrightarrow> state (procs s ! j) = RUNNABLE \<Longrightarrow>
       \<not> policy_prefers (policy s) (procs s ! j) (procs s ! i)"
    "r = Some i \<Longrightarrow> procs s' = (procs s)[i := dispatch_fields (policy s) (ticks s) (procs s ! i)]"
proof -
  let ?better = "\<lambda>b a. policy_prefers (policy s) a b"
  have sel: "selection ?better"
    using assms(1) fcfs.selection_axioms pbs.selection_axioms mlfq.selection_axioms
    by (auto simp: policy_prefers_def)
  have "pick_next pos s = (map_option fst (select_best ?better 0 (procs s) None), s)"
    using assms(1) by (auto simp: pick_next_def policy_prefers_def)
  then have r: "r = map_option fst (select_best ?better 0 (procs s) None)"
    and s': "r = Some i \<Longrightarrow> s' = dispatch c i s" for i
    using assms(2) by (auto simp: scheduler_def split: option.splits)
  show "r = None \<longleftrightarrow> (\<forall>p \<in> set (procs s). state p \<noteq> RUNNABLE)"
    using r selection.select_best_None [OF sel, of "procs s"] by simp
  assume i: "r = Some i"
  then obtain p where p: "select_best ?better 0 (procs s) None = Some (i, p)" using r by auto
  show "i < length (procs s) \<and> state (procs s ! i) = RUNNABLE"
    using selection.select_best_Some(1,3) [OF sel p] by simp
  show "procs s' = (procs s)[i := dispatch_fields (policy s) (ticks s) (procs s ! i)]"
    using s' [OF i] by simp
  assume "j < length (procs s)" "state (procs s ! j) = RUNNABLE"
  then show "\<not> policy_prefers (policy s) (procs s ! j) (procs s ! i)"
    using selection.select_best_Some(4) [OF sel p] by simp
qed


definition three_runnable :: "sched_policy \<Rightarrow> ptable" where
  "three_runnable pol = (boot_table pol)\<lparr>procs :=
     [idle_proc\<lparr>state := RUNNABLE, stick := 5, queue := 1, priority := 60, niceness := 5\<rparr>,
      idle_proc\<lparr>state := RUNNABLE, stick := 3, queue := 0, priority := 50, niceness := 5\<rparr>,
      idle_proc\<lparr>state := RUNNABLE, stick := 4, queue := 0, priority := 70, niceness := 5\<rparr>]\<rparr>"


section \<open>Waking processes\<close>

lemma wakeup_loop_simps [simp]:
  "length (procs (wakeup_loop is cur ch s)) = length (procs s)"
  "policy (wakeup_loop is cur ch s) = policy s" "ticks (wakeup_loop is cur ch s) = ticks s"
  "cpu_tab (wakeup_loop is cur ch s) = cpu_tab s"
  by (induction "is" arbitrary: s) auto

lemma wakeup_loop_procs:
  assumes "distinct is" "\<forall>i \<in> set is. i < length (procs s)" "k < length (procs s)"
  shows "procs (wakeup_loop is cur ch s) ! k =
    (if k \<in> set is \<and> Some k \<noteq> cur \<and> state (procs s ! k) = SLEEPING \<and> chan (procs s ! k) = ch
     then wake_fields (policy s) (ticks s) (procs s ! k) else procs s ! k)"
  using assms
proof (induction "is" arbitrary: s)
  case (Cons i "is")
  let ?t = "if Some i \<noteq> cur \<and> state (procs s ! i) = SLEEPING \<and> chan (procs s ! i) = ch
    then make_runnable i s else s"
  have "procs (wakeup_loop is cur ch ?t) ! k =
    (if k \<in> set is \<and> Some k \<noteq> cur \<and> state (procs ?t ! k) = SLEEPING \<and> chan (procs ?t ! k) = ch
     then wake_fields (policy ?t) (ticks ?t) (procs ?t ! k) else procs ?t ! k)"
    using Cons.prems by (intro Cons.IH) auto
  then show ?case using Cons.prems by (cases "k = i") auto
qed simp

lemma wakeup_procs:
  assumes "length (procs s) = NPROC" "k < NPROC"
  shows "procs (wakeup cur ch s) ! k =
    (if Some k \<noteq> cur \<and> state (procs s ! k) = SLEEPING \<and> chan (procs s ! k) = ch
     then wake_fields (policy s) (ticks s) (procs s ! k) else procs s ! k)"
  using wakeup_loop_procs [of "[0..<NPROC]" s k cur ch] assms by (simp add: wakeup_def)

lemma wakeup_simps [simp]:
  "length (procs (wakeup cur ch s)) = length (procs s)" "policy (wakeup cur ch s) = policy s"
  "ticks (wakeup cur ch s) = ticks s" "cpu_tab (wakeup cur ch s) = cpu_tab s"
  by (simp_all add: wakeup_def)



section \<open>Aging\<close>

lemma clockintr_procs:
  assumes "length (procs s) = NPROC" "i < NPROC" "state (procs s ! i) = RUNNABLE"
  shows "procs (clockintr cur s) ! i = tick_proc (policy s) (procs s ! i)"
  using assms by (simp add: clockintr_def wakeup_procs)

lemma clockintr_simps [simp]:
  "length (procs (clockintr cur s)) = length (procs s)" "policy (clockintr cur s) = policy s"
  by (simp_all add: clockintr_def)

lemma aging_step:
  assumes "state p = RUNNABLE" "0 \<le> waittime p" "waittime p < 32" "0 \<le> queue p"
  shows "state (tick_proc MLFQ p) = RUNNABLE"
    "waittime (tick_proc MLFQ p) = (waittime p + 1) mod 32"
    "queue (tick_proc MLFQ p) = max 0 (queue p - (waittime p + 1) div 32)"
proof -
  have "waittime p + 1 < 32 \<or> waittime p + 1 = 32" using assms(3) by linarith
  then show "state (tick_proc MLFQ p) = RUNNABLE"
    "waittime (tick_proc MLFQ p) = (waittime p + 1) mod 32"
    "queue (tick_proc MLFQ p) = max 0 (queue p - (waittime p + 1) div 32)"
    using assms by (auto simp: tick_proc_def Let_def)
qed

lemma max_diff_diff:
  "b + a = c \<Longrightarrow> 0 \<le> b \<Longrightarrow> max 0 (max 0 (q - a) - b) = max 0 (q - c)" for a b c q :: int
  by linarith




end
