(* ===== verification/Sleeplock.thy ===== *)
theory Sleeplock
  imports Sched_Inv
begin

text \<open>
  Sleep locks, \<^verbatim>\<open>kernel/sleeplock.c\<close>: long-term locks whose waiters sleep on the address of the
  lock.  \<open>acquiresleep_try\<close> is one iteration of the waiting loop; \<open>acquiresleep\<close> is the call as
  a sequential piece of kernel code sees it, which blocks when the lock is held.
\<close>

record sleeplock =
  slocked :: u32
  sname :: string
  spid :: int

definition initsleeplock :: "string \<Rightarrow> sleeplock" where
  "initsleeplock name = \<lparr>slocked = 0, sname = name, spid = 0\<rparr>"

definition take_sleeplock :: "nat \<Rightarrow> 'a ptable_scheme \<Rightarrow> sleeplock \<Rightarrow> sleeplock" where
  "take_sleeplock cur s lk = lk\<lparr>slocked := 1, spid := pid (procs s ! cur)\<rparr>"

definition acquiresleep_try ::
  "nat \<Rightarrow> channel \<Rightarrow> sleeplock \<Rightarrow> 'a ptable_scheme \<Rightarrow> bool \<times> sleeplock \<times> 'a ptable_scheme" where
  "acquiresleep_try cur ch lk s =
     (if slocked lk \<noteq> 0 then (False, lk, sleep_enter cur ch s)
      else (True, take_sleeplock cur s lk, s))"

definition acquiresleep :: "nat \<Rightarrow> sleeplock \<Rightarrow> 'a ptable_scheme \<Rightarrow> sleeplock res" where
  "acquiresleep cur lk s = (if slocked lk \<noteq> 0 then Block else OK (take_sleeplock cur s lk))"

definition releasesleep ::
  "nat \<Rightarrow> channel \<Rightarrow> sleeplock \<Rightarrow> 'a ptable_scheme \<Rightarrow> sleeplock \<times> 'a ptable_scheme" where
  "releasesleep cur ch lk s = (lk\<lparr>slocked := 0, spid := 0\<rparr>, wakeup (Some cur) ch s)"

definition holdingsleep :: "nat \<Rightarrow> sleeplock \<Rightarrow> 'a ptable_scheme \<Rightarrow> bool" where
  "holdingsleep cur lk s \<longleftrightarrow> slocked lk \<noteq> 0 \<and> spid lk = pid (procs s ! cur)"

section \<open>Properties\<close>



end
