(* ===== verification/Bio.thy ===== *)
theory Bio
  imports Sleeplock
begin

text \<open>
  The buffer cache, \<^verbatim>\<open>kernel/bio.c\<close>.  The doubly linked list through \<^verbatim>\<open>bcache.head\<close> is the list
  \<open>lru\<close> of buffer indices, most recently used first.  The disk is a map from block numbers to
  blocks of 1024 bytes; a completed call of \<^verbatim>\<open>virtio_disk_rw\<close> transfers one block.  \<open>dhist\<close> is a
  history of the block writes the disk has performed, oldest first, which the crash analysis
  of the log refers to; no code reads it.
\<close>

section \<open>State\<close>

abbreviation (input) BSIZE :: nat where "BSIZE \<equiv> 1024"

record buf =
  valid :: bool
  bdev :: u32
  blockno :: u32
  block :: sleeplock
  refcnt :: int
  bdata :: "u8 list"

record bcache = ptable +
  bufs :: "buf list"
  lru :: "nat list"
  disk :: "u32 \<Rightarrow> u8 list"
  dhist :: "(u32 \<times> u8 list) list"

definition upd_buf :: "nat \<Rightarrow> (buf \<Rightarrow> buf) \<Rightarrow> 'a bcache_scheme \<Rightarrow> 'a bcache_scheme" where
  "upd_buf i f s = s\<lparr>bufs := (bufs s)[i := f (bufs s ! i)]\<rparr>"

section \<open>Operations\<close>

text \<open>\<^verbatim>\<open>binit\<close> links every buffer in at the front, so the list ends up in reverse order.\<close>

fun binit_link :: "nat list \<Rightarrow> 'a bcache_scheme \<Rightarrow> 'a bcache_scheme" where
  "binit_link [] s = s"
| "binit_link (i # is) s =
     binit_link is ((upd_buf i (\<lambda>b. b\<lparr>block := initsleeplock ''buffer''\<rparr>) s)\<lparr>lru := i # lru s\<rparr>)"

definition binit :: "'a bcache_scheme \<Rightarrow> 'a bcache_scheme" where
  "binit s = binit_link [0..<NBUF] (s\<lparr>lru := []\<rparr>)"

text \<open>The transfer of a block between a buffer and the disk.\<close>

definition virtio_disk_rw :: "nat \<Rightarrow> bool \<Rightarrow> 'a bcache_scheme \<Rightarrow> 'a bcache_scheme" where
  "virtio_disk_rw i write s =
     (let b = bufs s ! i in
      if write then s\<lparr>disk := (disk s)(blockno b := bdata b), dhist := dhist s @ [(blockno b, bdata b)]\<rparr>
      else upd_buf i (\<lambda>b. b\<lparr>bdata := disk s (blockno b)\<rparr>) s)"

definition lock_buf :: "nat \<Rightarrow> nat \<Rightarrow> 'a bcache_scheme \<Rightarrow> (nat \<times> 'a bcache_scheme) res" where
  "lock_buf cur i s =
     rbind (acquiresleep cur (block (bufs s ! i)) s) (\<lambda>lk.
       OK (i, upd_buf i (\<lambda>b. b\<lparr>block := lk\<rparr>) s))"

definition bget :: "nat \<Rightarrow> u32 \<Rightarrow> u32 \<Rightarrow> 'a bcache_scheme \<Rightarrow> (nat \<times> 'a bcache_scheme) res" where
  "bget cur dev bno s =
     (case find (\<lambda>i. bdev (bufs s ! i) = dev \<and> blockno (bufs s ! i) = bno) (lru s) of
        Some i \<Rightarrow> lock_buf cur i (upd_buf i (\<lambda>b. b\<lparr>refcnt := ui32 (refcnt b + 1)\<rparr>) s)
      | None \<Rightarrow>
          (case find (\<lambda>i. refcnt (bufs s ! i) = 0) (rev (lru s)) of
             Some i \<Rightarrow> lock_buf cur i (upd_buf i (\<lambda>b.
               b\<lparr>bdev := dev, blockno := bno, valid := False, refcnt := 1\<rparr>) s)
           | None \<Rightarrow> Panic ''bget: no buffers''))"

definition bread :: "nat \<Rightarrow> u32 \<Rightarrow> u32 \<Rightarrow> 'a bcache_scheme \<Rightarrow> (nat \<times> 'a bcache_scheme) res" where
  "bread cur dev bno s =
     rbind (bget cur dev bno s) (\<lambda>(i, s).
       if \<not> valid (bufs s ! i)
       then OK (i, upd_buf i (\<lambda>b. b\<lparr>valid := True\<rparr>) (virtio_disk_rw i False s))
       else OK (i, s))"

definition bwrite :: "nat \<Rightarrow> nat \<Rightarrow> 'a bcache_scheme \<Rightarrow> 'a bcache_scheme res" where
  "bwrite cur i s =
     (if \<not> holdingsleep cur (block (bufs s ! i)) s then Panic ''bwrite''
      else OK (virtio_disk_rw i True s))"

definition brelse :: "nat \<Rightarrow> nat \<Rightarrow> 'a bcache_scheme \<Rightarrow> 'a bcache_scheme res" where
  "brelse cur i s =
     (if \<not> holdingsleep cur (block (bufs s ! i)) s then Panic ''brelse''
      else
        (let (lk, s) = releasesleep cur (ChBufLock i) (block (bufs s ! i)) s;
             s = upd_buf i (\<lambda>b. b\<lparr>block := lk, refcnt := ui32 (refcnt b - 1)\<rparr>) s
         in OK (if refcnt (bufs s ! i) = 0 then s\<lparr>lru := i # removeAll i (lru s)\<rparr> else s)))"

definition bpin :: "nat \<Rightarrow> 'a bcache_scheme \<Rightarrow> 'a bcache_scheme" where
  "bpin i s = upd_buf i (\<lambda>b. b\<lparr>refcnt := ui32 (refcnt b + 1)\<rparr>) s"

definition bunpin :: "nat \<Rightarrow> 'a bcache_scheme \<Rightarrow> 'a bcache_scheme" where
  "bunpin i s = upd_buf i (\<lambda>b. b\<lparr>refcnt := ui32 (refcnt b - 1)\<rparr>) s"

text \<open>Overwriting the data of a locked buffer, which callers of \<^verbatim>\<open>bread\<close> do.\<close>

definition set_data :: "nat \<Rightarrow> u8 list \<Rightarrow> 'a bcache_scheme \<Rightarrow> 'a bcache_scheme" where
  "set_data i d s = upd_buf i (\<lambda>b. b\<lparr>bdata := d\<rparr>) s"

section \<open>The cache after start-up\<close>

definition zero_buf :: buf where
  "zero_buf = \<lparr>valid = False, bdev = 0, blockno = 0, block = initsleeplock ''buffer'', refcnt = 0,
     bdata = replicate 1024 0\<rparr>"

definition boot_cache :: "sched_policy \<Rightarrow> bcache" where
  "boot_cache pol = ptable.extend (boot_table pol)
     (bcache.fields (replicate 30 zero_buf) (rev [0..<30]) (\<lambda>_. replicate 1024 0) [])"

lemma boot_cache_simps [simp]:
  "mem (boot_cache pol) = mem (boot_table pol)" "freelist (boot_cache pol) = freelist (boot_table pol)"
  "pgrc (boot_cache pol) = pgrc (boot_table pol)" "kend (boot_cache pol) = kend (boot_table pol)"
  "procs (boot_cache pol) = procs (boot_table pol)" "policy (boot_cache pol) = pol"
  "ticks (boot_cache pol) = ticks (boot_table pol)" "initproc (boot_cache pol) = None"
  "bufs (boot_cache pol) = replicate 30 zero_buf" "lru (boot_cache pol) = rev [0..<30]"
  "disk (boot_cache pol) = (\<lambda>_. replicate 1024 0)" "dhist (boot_cache pol) = []"
  by (simp_all add: boot_cache_def ptable.defs bcache.defs boot_table_def)

end
