(* ===== verification/Log.thy ===== *)
theory Log
  imports Bio
begin

text \<open>
  The write-ahead log, \<^verbatim>\<open>kernel/log.c\<close>.  The log on disk is a header block at \<open>log_start\<close> followed
  by copies of the logged blocks.  \<open>lh_n\<close> and \<open>lh_block\<close> are the in-memory header
  \<^verbatim>\<open>log.lh\<close>; the header block holds \<^verbatim>\<open>n\<close> in its first four bytes and the block numbers after it.
\<close>

section \<open>State\<close>

record logst = bcache +
  log_start :: int
  log_size :: int
  outstanding :: int
  committing :: bool
  log_dev :: u32
  lh_n :: int
  lh_block :: "u32 list"

text \<open>The number of the block that holds the \<open>tail\<close>-th logged block.\<close>

definition log_slot :: "'a logst_scheme \<Rightarrow> nat \<Rightarrow> u32" where
  "log_slot s tail = of_int (log_start s + int tail + 1)"

section \<open>Committing and recovering\<close>

fun install_loop :: "nat \<Rightarrow> bool \<Rightarrow> nat list \<Rightarrow> 'a logst_scheme \<Rightarrow> 'a logst_scheme res" where
  "install_loop cur recovering [] s = OK s"
| "install_loop cur recovering (tail # tails) s =
     rbind (bread cur (log_dev s) (log_slot s tail) s) (\<lambda>(lbuf, s).
     rbind (bread cur (log_dev s) (lh_block s ! tail) s) (\<lambda>(dbuf, s).
     let s = set_data dbuf (bdata (bufs s ! lbuf)) s in
     rbind (bwrite cur dbuf s) (\<lambda>s.
     let s = (if \<not> recovering then bunpin dbuf s else s) in
     rbind (brelse cur lbuf s) (\<lambda>s.
     rbind (brelse cur dbuf s) (install_loop cur recovering tails)))))"

definition install_trans :: "nat \<Rightarrow> bool \<Rightarrow> 'a logst_scheme \<Rightarrow> 'a logst_scheme res" where
  "install_trans cur recovering s = install_loop cur recovering [0..<nat (lh_n s)] s"

fun read_blocks :: "nat list \<Rightarrow> u8 list \<Rightarrow> u32 list \<Rightarrow> u32 list" where
  "read_blocks [] d bs = bs"
| "read_blocks (i # is) d bs = read_blocks is d (bs[i := get32 (4 + 4 * i) d])"

definition read_head :: "nat \<Rightarrow> 'a logst_scheme \<Rightarrow> 'a logst_scheme res" where
  "read_head cur s =
     rbind (bread cur (log_dev s) (of_int (log_start s)) s) (\<lambda>(i, s).
       let d = bdata (bufs s ! i);
           n = sint (get32 0 d);
           s = s\<lparr>lh_n := n, lh_block := read_blocks [0..<nat n] d (lh_block s)\<rparr>
       in brelse cur i s)"

fun write_blocks :: "nat list \<Rightarrow> u32 list \<Rightarrow> u8 list \<Rightarrow> u8 list" where
  "write_blocks [] bs d = d"
| "write_blocks (i # is) bs d = write_blocks is bs (put32 (4 + 4 * i) (bs ! i) d)"

text \<open>The header block that \<^verbatim>\<open>write_head\<close> makes of the old contents \<open>d\<close> of the block.\<close>

definition head_data :: "int \<Rightarrow> u32 list \<Rightarrow> u8 list \<Rightarrow> u8 list" where
  "head_data n bs d = write_blocks [0..<nat n] bs (put32 0 (of_int n) d)"

definition write_head :: "nat \<Rightarrow> 'a logst_scheme \<Rightarrow> 'a logst_scheme res" where
  "write_head cur s =
     rbind (bread cur (log_dev s) (of_int (log_start s)) s) (\<lambda>(i, s).
       let s = set_data i (head_data (lh_n s) (lh_block s) (bdata (bufs s ! i))) s
       in rbind (bwrite cur i s) (brelse cur i))"

definition recover_from_log :: "nat \<Rightarrow> 'a logst_scheme \<Rightarrow> 'a logst_scheme res" where
  "recover_from_log cur s =
     rbind (read_head cur s) (\<lambda>s.
     rbind (install_trans cur True s) (\<lambda>s.
     write_head cur (s\<lparr>lh_n := 0\<rparr>)))"

text \<open>
  \<^verbatim>\<open>initlog\<close> takes the position of the log from the super block; its size check on the header
  structure (124 bytes) is decided at compile time.
\<close>

definition initlog :: "nat \<Rightarrow> u32 \<Rightarrow> u32 \<Rightarrow> u32 \<Rightarrow> 'a logst_scheme \<Rightarrow> 'a logst_scheme res" where
  "initlog cur dev logstart nlog s =
     recover_from_log cur (s\<lparr>log_start := sint logstart, log_size := sint nlog, log_dev := dev\<rparr>)"

fun write_log_loop :: "nat \<Rightarrow> nat list \<Rightarrow> 'a logst_scheme \<Rightarrow> 'a logst_scheme res" where
  "write_log_loop cur [] s = OK s"
| "write_log_loop cur (tail # tails) s =
     rbind (bread cur (log_dev s) (log_slot s tail) s) (\<lambda>(to_buf, s).
     rbind (bread cur (log_dev s) (lh_block s ! tail) s) (\<lambda>(from_buf, s).
     let s = set_data to_buf (bdata (bufs s ! from_buf)) s in
     rbind (bwrite cur to_buf s) (\<lambda>s.
     rbind (brelse cur from_buf s) (\<lambda>s.
     rbind (brelse cur to_buf s) (write_log_loop cur tails)))))"

definition write_log :: "nat \<Rightarrow> 'a logst_scheme \<Rightarrow> 'a logst_scheme res" where
  "write_log cur s = write_log_loop cur [0..<nat (lh_n s)] s"

definition commit :: "nat \<Rightarrow> 'a logst_scheme \<Rightarrow> 'a logst_scheme res" where
  "commit cur s =
     (if lh_n s > 0 then
        rbind (write_log cur s) (\<lambda>s.
        rbind (write_head cur s) (\<lambda>s.
        rbind (install_trans cur False s) (\<lambda>s.
        write_head cur (s\<lparr>lh_n := 0\<rparr>))))
      else OK s)"

section \<open>Transactions\<close>

text \<open>
  One iteration of the loop of \<^verbatim>\<open>begin_op\<close>; when it has to wait, the process sleeps on the log
  and runs the iteration again after a wakeup.
\<close>

definition begin_op :: "'a logst_scheme \<Rightarrow> 'a logst_scheme res" where
  "begin_op s =
     (if committing s then Block
      else if lh_n s + (outstanding s + 1) * int MAXOPBLOCKS > int LOGSIZE then Block
      else OK (s\<lparr>outstanding := outstanding s + 1\<rparr>))"

definition end_op :: "nat \<Rightarrow> 'a logst_scheme \<Rightarrow> 'a logst_scheme res" where
  "end_op cur s =
     (let s = s\<lparr>outstanding := outstanding s - 1\<rparr> in
      if committing s then Panic ''log.committing''
      else if outstanding s = 0 then
        rbind (commit cur (s\<lparr>committing := True\<rparr>)) (\<lambda>s.
          OK (wakeup (Some cur) ChLog (s\<lparr>committing := False\<rparr>)))
      else OK (wakeup (Some cur) ChLog s))"

text \<open>\<^verbatim>\<open>log_write\<close> of buffer \<open>i\<close>: absorb the block or append it and pin the buffer.\<close>

definition log_write :: "nat \<Rightarrow> 'a logst_scheme \<Rightarrow> 'a logst_scheme res" where
  "log_write i s =
     (if lh_n s \<ge> int LOGSIZE \<or> lh_n s \<ge> log_size s - 1 then Panic ''too big a transaction''
      else if outstanding s < 1 then Panic ''log_write outside of trans''
      else
        (let b = blockno (bufs s ! i);
             n = nat (lh_n s);
             k = (case first_index (\<lambda>x. x = b) (take n (lh_block s)) of Some k \<Rightarrow> k | None \<Rightarrow> n);
             s = s\<lparr>lh_block := (lh_block s)[k := b]\<rparr>
         in if k = n then OK ((bpin i s)\<lparr>lh_n := lh_n s + 1\<rparr>) else OK s))"

section \<open>The log after start-up\<close>

definition boot_log :: "sched_policy \<Rightarrow> logst" where
  "boot_log pol = bcache.extend (boot_cache pol) (logst.fields 2 30 0 False 1 0 (replicate 30 0))"

lemma boot_log_simps [simp]:
  "mem (boot_log pol) = mem (boot_table pol)" "freelist (boot_log pol) = freelist (boot_table pol)"
  "pgrc (boot_log pol) = pgrc (boot_table pol)" "kend (boot_log pol) = kend (boot_table pol)"
  "procs (boot_log pol) = procs (boot_table pol)" "policy (boot_log pol) = pol"
  "ticks (boot_log pol) = ticks (boot_table pol)" "initproc (boot_log pol) = None"
  "bufs (boot_log pol) = replicate 30 zero_buf" "lru (boot_log pol) = rev [0..<30]"
  "disk (boot_log pol) = (\<lambda>_. replicate 1024 0)" "dhist (boot_log pol) = []"
  "log_start (boot_log pol) = 2" "log_size (boot_log pol) = 30" "outstanding (boot_log pol) = 0"
  "\<not> committing (boot_log pol)" "log_dev (boot_log pol) = 1" "lh_n (boot_log pol) = 0"
  "lh_block (boot_log pol) = replicate 30 0"
  by (simp_all add: boot_log_def boot_cache_def ptable.defs bcache.defs logst.defs boot_table_def)

end
