(* ===== verification/Fs.thy ===== *)
theory Fs
  imports Log
begin

text \<open>
  The file system, \<^verbatim>\<open>kernel/fs.c\<close>: block allocation, inodes, the content of inodes, directories
  and path names.  An inode pointer is an index into the inode table.  Byte strings are lists
  whose end reads as the terminating NUL.  \<open>cur\<close> is the process that executes the code.
\<close>

section \<open>On-disk format (fs.h) and state\<close>

abbreviation (input) FSMAGIC :: u32 where "FSMAGIC \<equiv> 0x10203040"
abbreviation (input) NDIRECT :: nat where "NDIRECT \<equiv> 12"
abbreviation (input) NINDIRECT :: nat where "NINDIRECT \<equiv> 256"
abbreviation (input) MAXFILE :: nat where "MAXFILE \<equiv> NDIRECT + NINDIRECT"
abbreviation (input) IPB :: nat where "IPB \<equiv> 16"
abbreviation (input) BPB :: nat where "BPB \<equiv> 8192"
abbreviation (input) DIRSIZ :: nat where "DIRSIZ \<equiv> 14"
abbreviation (input) ROOTINO :: u32 where "ROOTINO \<equiv> 1"
abbreviation (input) T_DIR :: u16 where "T_DIR \<equiv> 1"
abbreviation (input) T_FILE :: u16 where "T_FILE \<equiv> 2"
abbreviation (input) T_DEVICE :: u16 where "T_DEVICE \<equiv> 3"

record superblock =
  magic :: u32
  fssize :: u32
  nblocks :: u32
  ninodes :: u32
  nlog :: u32
  logstart :: u32
  inodestart :: u32
  bmapstart :: u32

text \<open>The in-memory inode of \<^verbatim>\<open>kernel/file.h\<close>.\<close>

record inode =
  idev :: u32
  inum :: u32
  iref :: int
  ilk :: sleeplock
  ivalid :: bool
  itype :: u16
  imajor :: u16
  iminor :: u16
  inlink :: u16
  isize :: u32
  addrs :: "u32 list"

record fsst = logst +
  sb :: superblock
  itable :: "inode list"

definition upd_inode :: "nat \<Rightarrow> (inode \<Rightarrow> inode) \<Rightarrow> 'a fsst_scheme \<Rightarrow> 'a fsst_scheme" where
  "upd_inode i f s = s\<lparr>itable := (itable s)[i := f (itable s ! i)]\<rparr>"

definition IBLOCK :: "u32 \<Rightarrow> superblock \<Rightarrow> u32" where
  "IBLOCK i b = i div 16 + inodestart b"

definition BBLOCK :: "u32 \<Rightarrow> superblock \<Rightarrow> u32" where
  "BBLOCK b sp = b div 8192 + bmapstart sp"

section \<open>Super block\<close>

definition parse_superblock :: "u8 list \<Rightarrow> superblock" where
  "parse_superblock d =
     \<lparr>magic = get32 0 d, fssize = get32 4 d, nblocks = get32 8 d, ninodes = get32 12 d,
      nlog = get32 16 d, logstart = get32 20 d, inodestart = get32 24 d, bmapstart = get32 28 d\<rparr>"

definition readsb :: "nat \<Rightarrow> u32 \<Rightarrow> 'a fsst_scheme \<Rightarrow> 'a fsst_scheme res" where
  "readsb cur dev s =
     rbind (bread cur dev 1 s) (\<lambda>(bp, s).
       brelse cur bp (s\<lparr>sb := parse_superblock (bdata (bufs s ! bp))\<rparr>))"

definition fsinit :: "nat \<Rightarrow> u32 \<Rightarrow> 'a fsst_scheme \<Rightarrow> 'a fsst_scheme res" where
  "fsinit cur dev s =
     rbind (readsb cur dev s) (\<lambda>s.
       if magic (sb s) \<noteq> FSMAGIC then Panic ''invalid file system''
       else initlog cur dev (logstart (sb s)) (nlog (sb s)) s)"

section \<open>Blocks\<close>

definition bzero :: "nat \<Rightarrow> u32 \<Rightarrow> u32 \<Rightarrow> 'a logst_scheme \<Rightarrow> 'a logst_scheme res" where
  "bzero cur dev bno s =
     rbind (bread cur dev bno s) (\<lambda>(bp, s).
     rbind (log_write bp (set_data bp (replicate BSIZE 0) s)) (brelse cur bp))"

definition block_used :: "u8 list \<Rightarrow> nat \<Rightarrow> bool" where
  "block_used d bi \<longleftrightarrow> d ! (bi div 8) AND push_bit (bi mod 8) 1 \<noteq> 0"

definition mark_used :: "u8 list \<Rightarrow> nat \<Rightarrow> u8 list" where
  "mark_used d bi = d[bi div 8 := d ! (bi div 8) OR push_bit (bi mod 8) 1]"

definition mark_free :: "u8 list \<Rightarrow> nat \<Rightarrow> u8 list" where
  "mark_free d bi = d[bi div 8 := d ! (bi div 8) AND NOT (push_bit (bi mod 8) 1)]"

text \<open>The inner loop of \<^verbatim>\<open>balloc\<close>: the first clear bit of the map block that starts at block \<open>b\<close>.\<close>

definition balloc_find :: "u8 list \<Rightarrow> nat \<Rightarrow> nat \<Rightarrow> nat option" where
  "balloc_find d b sz = find (\<lambda>bi. \<not> block_used d bi) (takeWhile (\<lambda>bi. b + bi < sz) [0..<BPB])"

fun balloc_loop :: "nat \<Rightarrow> u32 \<Rightarrow> nat list \<Rightarrow> 'a fsst_scheme \<Rightarrow> (u32 \<times> 'a fsst_scheme) res" where
  "balloc_loop cur dev [] s = OK (0, s)"
| "balloc_loop cur dev (b # bs) s =
     rbind (bread cur dev (BBLOCK (of_nat b) (sb s)) s) (\<lambda>(bp, s).
       case balloc_find (bdata (bufs s ! bp)) b (unat (fssize (sb s))) of
         Some bi \<Rightarrow>
           rbind (log_write bp (set_data bp (mark_used (bdata (bufs s ! bp)) bi) s)) (\<lambda>s.
           rbind (brelse cur bp s) (\<lambda>s.
           rbind (bzero cur dev (of_nat (b + bi)) s) (\<lambda>s. OK (of_nat (b + bi), s))))
       | None \<Rightarrow> rbind (brelse cur bp s) (balloc_loop cur dev bs))"

text \<open>The first blocks of the bitmap's groups: \<^verbatim>\<open>b = 0, BPB, 2*BPB, ...\<close> below \<^verbatim>\<open>sb.size\<close>.\<close>

definition balloc_groups :: "nat \<Rightarrow> nat list" where
  "balloc_groups sz = map (\<lambda>k. k * BPB) [0..<(sz + BPB - 1) div BPB]"

definition balloc :: "nat \<Rightarrow> u32 \<Rightarrow> 'a fsst_scheme \<Rightarrow> (u32 \<times> 'a fsst_scheme) res" where
  "balloc cur dev s = balloc_loop cur dev (balloc_groups (unat (fssize (sb s)))) s"

definition bfree :: "nat \<Rightarrow> u32 \<Rightarrow> u32 \<Rightarrow> 'a fsst_scheme \<Rightarrow> 'a fsst_scheme res" where
  "bfree cur dev b s =
     rbind (bread cur dev (BBLOCK b (sb s)) s) (\<lambda>(bp, s).
       let bi = unat b mod BPB; d = bdata (bufs s ! bp) in
       if \<not> block_used d bi then Panic ''freeing free block''
       else rbind (log_write bp (set_data bp (mark_free d bi) s)) (brelse cur bp))"

section \<open>Inodes\<close>

text \<open>The on-disk inode \<open>inum\<close> inside its block: 64 bytes at \<open>dinode_off\<close>.\<close>

definition dinode_off :: "u32 \<Rightarrow> nat" where
  "dinode_off n = 64 * (unat n mod IPB)"

definition store_dinode :: "nat \<Rightarrow> inode \<Rightarrow> u8 list \<Rightarrow> u8 list" where
  "store_dinode off ip d =
     splice (off + 12) (concat (map (le_bytes 4) (addrs ip)))
       (put32 (off + 8) (isize ip)
         (put16 (off + 6) (inlink ip)
           (put16 (off + 4) (iminor ip)
             (put16 (off + 2) (imajor ip)
               (put16 off (itype ip) d)))))"

definition load_dinode :: "nat \<Rightarrow> u8 list \<Rightarrow> inode \<Rightarrow> inode" where
  "load_dinode off d ip =
     ip\<lparr>itype := get16 off d, imajor := get16 (off + 2) d, iminor := get16 (off + 4) d,
        inlink := get16 (off + 6) d, isize := get32 (off + 8) d,
        addrs := map (\<lambda>k. get32 (off + 12 + 4 * k) d) [0..<NDIRECT + 1]\<rparr>"

definition iinit :: "'a fsst_scheme \<Rightarrow> 'a fsst_scheme" where
  "iinit s = s\<lparr>itable := map (\<lambda>ip. ip\<lparr>ilk := initsleeplock ''inode''\<rparr>) (itable s)\<rparr>"

definition iget :: "u32 \<Rightarrow> u32 \<Rightarrow> 'a fsst_scheme \<Rightarrow> (nat \<times> 'a fsst_scheme) res" where
  "iget dev n s =
     (case first_index (\<lambda>ip. iref ip > 0 \<and> idev ip = dev \<and> inum ip = n) (itable s) of
        Some i \<Rightarrow> OK (i, upd_inode i (\<lambda>ip. ip\<lparr>iref := iref ip + 1\<rparr>) s)
      | None \<Rightarrow>
          (case first_index (\<lambda>ip. iref ip = 0) (itable s) of
             None \<Rightarrow> Panic ''iget: no inodes''
           | Some i \<Rightarrow> OK (i, upd_inode i (\<lambda>ip.
               ip\<lparr>idev := dev, inum := n, iref := 1, ivalid := False\<rparr>) s)))"

fun ialloc_loop :: "nat \<Rightarrow> u32 \<Rightarrow> u16 \<Rightarrow> nat list \<Rightarrow> 'a fsst_scheme \<Rightarrow> (nat option \<times> 'a fsst_scheme) res" where
  "ialloc_loop cur dev type [] s = OK (None, s)"
| "ialloc_loop cur dev type (n # ns) s =
     rbind (bread cur dev (IBLOCK (of_nat n) (sb s)) s) (\<lambda>(bp, s).
       let off = dinode_off (of_nat n); d = bdata (bufs s ! bp) in
       if get16 off d = 0 then
         rbind (log_write bp (set_data bp (put16 off type (splice off (replicate 64 0) d)) s)) (\<lambda>s.
         rbind (brelse cur bp s) (\<lambda>s.
         rbind (iget dev (of_nat n) s) (\<lambda>(ip, s). OK (Some ip, s))))
       else rbind (brelse cur bp s) (ialloc_loop cur dev type ns))"

definition ialloc :: "nat \<Rightarrow> u32 \<Rightarrow> u16 \<Rightarrow> 'a fsst_scheme \<Rightarrow> (nat option \<times> 'a fsst_scheme) res" where
  "ialloc cur dev type s = ialloc_loop cur dev type [1..<unat (ninodes (sb s))] s"

definition iupdate :: "nat \<Rightarrow> nat \<Rightarrow> 'a fsst_scheme \<Rightarrow> 'a fsst_scheme res" where
  "iupdate cur ip s =
     (let n = itable s ! ip in
      rbind (bread cur (idev n) (IBLOCK (inum n) (sb s)) s) (\<lambda>(bp, s).
      rbind (log_write bp (set_data bp (store_dinode (dinode_off (inum n)) n (bdata (bufs s ! bp))) s))
        (brelse cur bp)))"

definition idup :: "nat \<Rightarrow> 'a fsst_scheme \<Rightarrow> nat \<times> 'a fsst_scheme" where
  "idup ip s = (ip, upd_inode ip (\<lambda>n. n\<lparr>iref := iref n + 1\<rparr>) s)"

definition ilock :: "nat \<Rightarrow> nat \<Rightarrow> 'a fsst_scheme \<Rightarrow> 'a fsst_scheme res" where
  "ilock cur ip s =
     (if iref (itable s ! ip) < 1 then Panic ''ilock''
      else
        rbind (acquiresleep cur (ilk (itable s ! ip)) s) (\<lambda>lk.
          let s = upd_inode ip (\<lambda>n. n\<lparr>ilk := lk\<rparr>) s; n = itable s ! ip in
          if \<not> ivalid n then
            rbind (bread cur (idev n) (IBLOCK (inum n) (sb s)) s) (\<lambda>(bp, s).
              let s = upd_inode ip (load_dinode (dinode_off (inum n)) (bdata (bufs s ! bp))) s in
              rbind (brelse cur bp s) (\<lambda>s.
                let s = upd_inode ip (\<lambda>n. n\<lparr>ivalid := True\<rparr>) s
                in if itype (itable s ! ip) = 0 then Panic ''ilock: no type'' else OK s))
          else OK s))"

definition iunlock :: "nat \<Rightarrow> nat \<Rightarrow> 'a fsst_scheme \<Rightarrow> 'a fsst_scheme res" where
  "iunlock cur ip s =
     (if \<not> holdingsleep cur (ilk (itable s ! ip)) s \<or> iref (itable s ! ip) < 1 then Panic ''iunlock''
      else
        (let (lk, s) = releasesleep cur (ChInodeLock ip) (ilk (itable s ! ip)) s
         in OK (upd_inode ip (\<lambda>n. n\<lparr>ilk := lk\<rparr>) s)))"

section \<open>Content of inodes\<close>

definition bmap :: "nat \<Rightarrow> nat \<Rightarrow> nat \<Rightarrow> 'a fsst_scheme \<Rightarrow> (u32 \<times> 'a fsst_scheme) res" where
  "bmap cur ip bn s =
     (let dev = idev (itable s ! ip) in
      if bn < NDIRECT then
        (let addr = addrs (itable s ! ip) ! bn in
         if addr = 0 then
           rbind (balloc cur dev s) (\<lambda>(addr, s).
             if addr = 0 then OK (0, s)
             else OK (addr, upd_inode ip (\<lambda>n. n\<lparr>addrs := (addrs n)[bn := addr]\<rparr>) s))
         else OK (addr, s))
      else
        (let bn = bn - NDIRECT in
         if bn < NINDIRECT then
           (let addr = addrs (itable s ! ip) ! NDIRECT in
            rbind (if addr = 0 then
                     rbind (balloc cur dev s) (\<lambda>(addr, s).
                       if addr = 0 then OK (0, s)
                       else OK (addr, upd_inode ip (\<lambda>n. n\<lparr>addrs := (addrs n)[NDIRECT := addr]\<rparr>) s))
                   else OK (addr, s)) (\<lambda>(addr, s).
              if addr = 0 then OK (0, s)
              else
                rbind (bread cur dev addr s) (\<lambda>(bp, s).
                  let addr = get32 (4 * bn) (bdata (bufs s ! bp)) in
                  if addr = 0 then
                    rbind (balloc cur dev s) (\<lambda>(addr, s).
                      rbind (if addr \<noteq> 0
                             then log_write bp (set_data bp (put32 (4 * bn) addr (bdata (bufs s ! bp))) s)
                             else OK s) (\<lambda>s.
                        rbind (brelse cur bp s) (\<lambda>s. OK (addr, s))))
                  else rbind (brelse cur bp s) (\<lambda>s. OK (addr, s)))))
         else Panic ''bmap: out of range''))"

fun itrunc_direct :: "nat \<Rightarrow> nat \<Rightarrow> nat list \<Rightarrow> 'a fsst_scheme \<Rightarrow> 'a fsst_scheme res" where
  "itrunc_direct cur ip [] s = OK s"
| "itrunc_direct cur ip (i # is) s =
     (let n = itable s ! ip in
      if addrs n ! i \<noteq> 0 then
        rbind (bfree cur (idev n) (addrs n ! i) s) (\<lambda>s.
          itrunc_direct cur ip is (upd_inode ip (\<lambda>n. n\<lparr>addrs := (addrs n)[i := 0]\<rparr>) s))
      else itrunc_direct cur ip is s)"

text \<open>
  The loop over the indirect block: the array \<open>a\<close> is the data of the locked buffer, which
  \<^verbatim>\<open>bfree\<close> does not change.
\<close>

fun itrunc_indirect :: "nat \<Rightarrow> u32 \<Rightarrow> nat \<Rightarrow> nat list \<Rightarrow> 'a fsst_scheme \<Rightarrow> 'a fsst_scheme res" where
  "itrunc_indirect cur dev bp [] s = OK s"
| "itrunc_indirect cur dev bp (j # js) s =
     (let a = get32 (4 * j) (bdata (bufs s ! bp)) in
      if a \<noteq> 0 then rbind (bfree cur dev a s) (itrunc_indirect cur dev bp js)
      else itrunc_indirect cur dev bp js s)"

definition itrunc :: "nat \<Rightarrow> nat \<Rightarrow> 'a fsst_scheme \<Rightarrow> 'a fsst_scheme res" where
  "itrunc cur ip s =
     rbind (itrunc_direct cur ip [0..<NDIRECT] s) (\<lambda>s.
     let n = itable s ! ip; ind = addrs n ! NDIRECT in
     rbind (if ind \<noteq> 0 then
              rbind (bread cur (idev n) ind s) (\<lambda>(bp, s).
              rbind (itrunc_indirect cur (idev n) bp [0..<NINDIRECT] s) (\<lambda>s.
              rbind (brelse cur bp s) (\<lambda>s.
              rbind (bfree cur (idev n) ind s) (\<lambda>s.
              OK (upd_inode ip (\<lambda>n. n\<lparr>addrs := (addrs n)[NDIRECT := 0]\<rparr>) s)))))
            else OK s) (\<lambda>s.
     iupdate cur ip (upd_inode ip (\<lambda>n. n\<lparr>isize := 0\<rparr>) s)))"

definition iput :: "nat \<Rightarrow> nat \<Rightarrow> 'a fsst_scheme \<Rightarrow> 'a fsst_scheme res" where
  "iput cur ip s =
     (let n = itable s ! ip in
      rbind (if iref n = 1 \<and> ivalid n \<and> inlink n = 0 then
               rbind (acquiresleep cur (ilk n) s) (\<lambda>lk.
               rbind (itrunc cur ip (upd_inode ip (\<lambda>n. n\<lparr>ilk := lk\<rparr>) s)) (\<lambda>s.
               rbind (iupdate cur ip (upd_inode ip (\<lambda>n. n\<lparr>itype := 0\<rparr>) s)) (\<lambda>s.
                 let s = upd_inode ip (\<lambda>n. n\<lparr>ivalid := False\<rparr>) s;
                     (lk, s) = releasesleep cur (ChInodeLock ip) (ilk (itable s ! ip)) s
                 in OK (upd_inode ip (\<lambda>n. n\<lparr>ilk := lk\<rparr>) s))))
             else OK s) (\<lambda>s.
        OK (upd_inode ip (\<lambda>n. n\<lparr>iref := iref n - 1\<rparr>) s)))"

definition iunlockput :: "nat \<Rightarrow> nat \<Rightarrow> 'a fsst_scheme \<Rightarrow> 'a fsst_scheme res" where
  "iunlockput cur ip s = rbind (iunlock cur ip s) (iput cur ip)"

text \<open>
  The bytes of \<^verbatim>\<open>struct stat\<close> after \<^verbatim>\<open>stati\<close>; \<open>pad\<close> are the four padding bytes before \<^verbatim>\<open>size\<close>, which
  nobody writes.
\<close>

definition stati :: "u8 list \<Rightarrow> inode \<Rightarrow> u8 list" where
  "stati pad n =
     le_bytes 4 (idev n) @ le_bytes 4 (inum n) @ le_bytes 2 (itype n) @ le_bytes 2 (inlink n)
       @ pad @ le_bytes 8 (ucast (isize n) :: u64)"

text \<open>
  The destination of \<^verbatim>\<open>readi\<close> and the source of \<^verbatim>\<open>writei\<close>: a user address, a kernel address, or a
  local variable of the caller, whose bytes are passed by value.
\<close>

datatype rdst = ToUser u64 | ToKernel u64 | ToLocal
datatype wsrc = FromUser u64 | FromKernel u64 | FromLocal "u8 list"

fun put_dst :: "nat \<Rightarrow> rdst \<Rightarrow> u8 list \<Rightarrow> 'a ptable_scheme \<Rightarrow> (int \<times> 'a ptable_scheme) res" where
  "put_dst cur (ToUser a) bs s = either_copyout cur True a bs s"
| "put_dst cur (ToKernel a) bs s = either_copyout cur False a bs s"
| "put_dst cur ToLocal bs s = OK (0, s)"

fun adv_dst :: "rdst \<Rightarrow> nat \<Rightarrow> rdst" where
  "adv_dst (ToUser a) m = ToUser (a + of_nat m)"
| "adv_dst (ToKernel a) m = ToKernel (a + of_nat m)"
| "adv_dst ToLocal m = ToLocal"

fun get_src :: "nat \<Rightarrow> wsrc \<Rightarrow> nat \<Rightarrow> 'a ptable_scheme \<Rightarrow> (int \<times> u8 list) res" where
  "get_src cur (FromUser a) m s = either_copyin cur True a m s"
| "get_src cur (FromKernel a) m s = either_copyin cur False a m s"
| "get_src cur (FromLocal bs) m s = OK (0, take m bs)"

fun adv_src :: "wsrc \<Rightarrow> nat \<Rightarrow> wsrc" where
  "adv_src (FromUser a) m = FromUser (a + of_nat m)"
| "adv_src (FromKernel a) m = FromKernel (a + of_nat m)"
| "adv_src (FromLocal bs) m = FromLocal (drop m bs)"

text \<open>
  The loop of \<^verbatim>\<open>readi\<close>: \<open>tot\<close> bytes are done, \<open>left\<close> are to do.  The entry checks exclude that
  \<open>off + left\<close> exceeds 32 bits, so the counters are natural numbers.  The bytes read are returned
  beside the count.
\<close>

function readi_loop ::
  "nat \<Rightarrow> nat \<Rightarrow> rdst \<Rightarrow> nat \<Rightarrow> nat \<Rightarrow> nat \<Rightarrow> u8 list \<Rightarrow> 'a fsst_scheme \<Rightarrow> (int \<times> u8 list \<times> 'a fsst_scheme) res"
where
  "readi_loop cur ip dst off left tot acc s =
     (if left = 0 then OK (i32 (int tot), acc, s)
      else
        rbind (bmap cur ip (off div BSIZE) s) (\<lambda>(addr, s).
          if addr = 0 then OK (i32 (int tot), acc, s)
          else
            rbind (bread cur (idev (itable s ! ip)) addr s) (\<lambda>(bp, s).
              let m = min left (BSIZE - off mod BSIZE);
                  bs = slice (off mod BSIZE) m (bdata (bufs s ! bp)) in
              rbind (put_dst cur dst bs s) (\<lambda>(r, s).
                if r = - 1 then rbind (brelse cur bp s) (\<lambda>s. OK (- 1, acc, s))
                else
                  rbind (brelse cur bp s) (\<lambda>s.
                    readi_loop cur ip (adv_dst dst m) (off + m) (left - m) (tot + m) (acc @ bs) s)))))"
  by pat_completeness auto
termination
  by (relation "measure (\<lambda>(_, _, _, _, left, _, _, _). left)") auto

definition readi ::
  "nat \<Rightarrow> nat \<Rightarrow> rdst \<Rightarrow> u32 \<Rightarrow> u32 \<Rightarrow> 'a fsst_scheme \<Rightarrow> (int \<times> u8 list \<times> 'a fsst_scheme) res"
where
  "readi cur ip dst off n s =
     (let sz = isize (itable s ! ip) in
      if off > sz \<or> off + n < off then OK (0, [], s)
      else
        (let n = (if off + n > sz then sz - off else n)
         in readi_loop cur ip dst (unat off) (unat n) 0 [] s))"

text \<open>
  The loop of \<^verbatim>\<open>writei\<close> returns the offset reached and the count.  When the copy of a chunk fails
  the bytes copied before the failing page stay in the buffer.
\<close>

function writei_loop ::
  "nat \<Rightarrow> nat \<Rightarrow> wsrc \<Rightarrow> nat \<Rightarrow> nat \<Rightarrow> nat \<Rightarrow> 'a fsst_scheme \<Rightarrow> (nat \<times> nat \<times> 'a fsst_scheme) res"
where
  "writei_loop cur ip src off left tot s =
     (if left = 0 then OK (off, tot, s)
      else
        rbind (bmap cur ip (off div BSIZE) s) (\<lambda>(addr, s).
          if addr = 0 then OK (off, tot, s)
          else
            rbind (bread cur (idev (itable s ! ip)) addr s) (\<lambda>(bp, s).
              let m = min left (BSIZE - off mod BSIZE) in
              rbind (get_src cur src m s) (\<lambda>(r, bs).
                let s = set_data bp (splice (off mod BSIZE) bs (bdata (bufs s ! bp))) s in
                if r = - 1 then rbind (brelse cur bp s) (\<lambda>s. OK (off, tot, s))
                else
                  rbind (log_write bp s) (\<lambda>s.
                  rbind (brelse cur bp s) (\<lambda>s.
                    writei_loop cur ip (adv_src src m) (off + m) (left - m) (tot + m) s))))))"
  by pat_completeness auto
termination
  by (relation "measure (\<lambda>(_, _, _, _, left, _, _). left)") auto

definition writei ::
  "nat \<Rightarrow> nat \<Rightarrow> wsrc \<Rightarrow> u32 \<Rightarrow> u32 \<Rightarrow> 'a fsst_scheme \<Rightarrow> (int \<times> 'a fsst_scheme) res"
where
  "writei cur ip src off n s =
     (if off > isize (itable s ! ip) \<or> off + n < off then OK (- 1, s)
      else if unat (off + n) > MAXFILE * BSIZE then OK (- 1, s)
      else
        rbind (writei_loop cur ip src (unat off) (unat n) 0 s) (\<lambda>(off, tot, s).
          let s = (if off > unat (isize (itable s ! ip))
                   then upd_inode ip (\<lambda>n. n\<lparr>isize := of_nat off\<rparr>) s else s) in
          rbind (iupdate cur ip s) (\<lambda>s. OK (int tot, s))))"

section \<open>Directories\<close>

text \<open>\<^verbatim>\<open>strncmp\<close> and \<^verbatim>\<open>strncpy\<close> of \<^verbatim>\<open>kernel/string.c\<close> on byte strings held by value.\<close>

definition head0 :: "u8 list \<Rightarrow> u8" where
  "head0 bs = (case bs of [] \<Rightarrow> 0 | b # _ \<Rightarrow> b)"

fun bstrncmp :: "u8 list \<Rightarrow> u8 list \<Rightarrow> nat \<Rightarrow> int" where
  "bstrncmp p q 0 = 0"
| "bstrncmp p q (Suc n) =
     (if head0 p \<noteq> 0 \<and> head0 p = head0 q then bstrncmp (tl p) (tl q) n
      else uint (head0 p) - uint (head0 q))"

fun bstrncpy :: "u8 list \<Rightarrow> nat \<Rightarrow> u8 list" where
  "bstrncpy t 0 = []"
| "bstrncpy t (Suc n) =
     (if head0 t \<noteq> 0 then head0 t # bstrncpy (tl t) n else replicate (Suc n) 0)"

definition namecmp :: "u8 list \<Rightarrow> u8 list \<Rightarrow> int" where
  "namecmp s t = bstrncmp s t DIRSIZ"

text \<open>\<^verbatim>\<open>struct dirent\<close>: a 16-bit inode number and 14 bytes of name.\<close>

definition de_inum :: "u8 list \<Rightarrow> u16" where
  "de_inum de = get16 0 de"

definition de_name :: "u8 list \<Rightarrow> u8 list" where
  "de_name de = slice 2 DIRSIZ de"

function dirlookup_loop ::
  "nat \<Rightarrow> nat \<Rightarrow> u8 list \<Rightarrow> nat \<Rightarrow> 'a fsst_scheme \<Rightarrow> ((nat \<times> nat) option \<times> 'a fsst_scheme) res"
where
  "dirlookup_loop cur dp name off s =
     (if off < unat (isize (itable s ! dp)) then
        rbind (readi cur dp ToLocal (of_nat off) 16 s) (\<lambda>(r, de, s).
          if r \<noteq> 16 then Panic ''dirlookup read''
          else if de_inum de = 0 then dirlookup_loop cur dp name (off + 16) s
          else if namecmp name (de_name de) = 0 then
            rbind (iget (idev (itable s ! dp)) (ucast (de_inum de)) s) (\<lambda>(ip, s). OK (Some (ip, off), s))
          else dirlookup_loop cur dp name (off + 16) s)
      else OK (None, s))"
  by pat_completeness auto
termination
proof (relation "measure (\<lambda>(_, _, _, off, _). 2 ^ 32 - off)", goal_cases)
  case (2 cur dp name off s)
  then show ?case using unsigned_less[where ?'a = nat, of "isize (itable s ! dp)"] by auto
next
  case (3 cur dp name off s)
  then show ?case using unsigned_less[where ?'a = nat, of "isize (itable s ! dp)"] by auto
qed simp

text \<open>\<^verbatim>\<open>dirlookup\<close> returns the inode and the offset it stores through \<^verbatim>\<open>poff\<close>.\<close>

definition dirlookup ::
  "nat \<Rightarrow> nat \<Rightarrow> u8 list \<Rightarrow> 'a fsst_scheme \<Rightarrow> ((nat \<times> nat) option \<times> 'a fsst_scheme) res" where
  "dirlookup cur dp name s =
     (if itype (itable s ! dp) \<noteq> T_DIR then Panic ''dirlookup not DIR''
      else dirlookup_loop cur dp name 0 s)"

function dirlink_find :: "nat \<Rightarrow> nat \<Rightarrow> nat \<Rightarrow> 'a fsst_scheme \<Rightarrow> (nat \<times> 'a fsst_scheme) res" where
  "dirlink_find cur dp off s =
     (if off < unat (isize (itable s ! dp)) then
        rbind (readi cur dp ToLocal (of_nat off) 16 s) (\<lambda>(r, de, s).
          if r \<noteq> 16 then Panic ''dirlink read''
          else if de_inum de = 0 then OK (off, s)
          else dirlink_find cur dp (off + 16) s)
      else OK (off, s))"
  by pat_completeness auto
termination
proof (relation "measure (\<lambda>(_, _, off, _). 2 ^ 32 - off)", goal_cases)
  case (2 cur dp off s)
  then show ?case using unsigned_less[where ?'a = nat, of "isize (itable s ! dp)"] by auto
qed simp

definition dirlink :: "nat \<Rightarrow> nat \<Rightarrow> u8 list \<Rightarrow> u32 \<Rightarrow> 'a fsst_scheme \<Rightarrow> (int \<times> 'a fsst_scheme) res" where
  "dirlink cur dp name n s =
     rbind (dirlookup cur dp name s) (\<lambda>(r, s).
       case r of
         Some (ip, _) \<Rightarrow> rbind (iput cur ip s) (\<lambda>s. OK (- 1, s))
       | None \<Rightarrow>
           rbind (dirlink_find cur dp 0 s) (\<lambda>(off, s).
             let de = le_bytes 2 (ucast n :: u16) @ bstrncpy name DIRSIZ in
             rbind (writei cur dp (FromLocal de) (of_nat off) 16 s) (\<lambda>(r, s).
               OK (if r \<noteq> 16 then - 1 else 0, s))))"

section \<open>Paths\<close>

abbreviation (input) SLASH :: u8 where "SLASH \<equiv> 47"

text \<open>
  The path is a byte string without NUL.  The result is the element, cut to \<^verbatim>\<open>DIRSIZ\<close> bytes, and
  the rest of the path without leading slashes.
\<close>

definition skipelem :: "u8 list \<Rightarrow> (u8 list \<times> u8 list) option" where
  "skipelem path =
     (let s = dropWhile (\<lambda>c. c = SLASH) path in
      if s = [] then None
      else
        (let elem = takeWhile (\<lambda>c. c \<noteq> SLASH) s; rest = dropWhile (\<lambda>c. c \<noteq> SLASH) s
         in Some (if length elem \<ge> DIRSIZ then take DIRSIZ elem else elem,
                  dropWhile (\<lambda>c. c = SLASH) rest)))"

lemma length_dropWhile_lt: "xs \<noteq> [] \<Longrightarrow> P (hd xs) \<Longrightarrow> length (dropWhile P xs) < length xs"
  by (cases xs) (auto simp: le_imp_less_Suc length_dropWhile_le)

lemma skipelem_shorter: "skipelem path = Some (name, rest) \<Longrightarrow> length rest < length path"
  using length_dropWhile_lt[of "dropWhile (\<lambda>c. c = SLASH) path" "\<lambda>c. c \<noteq> SLASH"]
    length_dropWhile_le[of "\<lambda>c. c = SLASH" path]
    length_dropWhile_le[of "\<lambda>c. c = SLASH" "dropWhile (\<lambda>c. c \<noteq> SLASH) (dropWhile (\<lambda>c. c = SLASH) path)"]
    hd_dropWhile[of "\<lambda>c. c = SLASH" path]
  by (auto simp: skipelem_def Let_def split: if_splits)

text \<open>
  The loop of \<^verbatim>\<open>namex\<close>: the name buffer keeps the element copied last.
\<close>

function namex_loop ::
  "nat \<Rightarrow> u8 list \<Rightarrow> bool \<Rightarrow> u8 list \<Rightarrow> nat \<Rightarrow> 'a fsst_scheme \<Rightarrow> (nat option \<times> u8 list \<times> 'a fsst_scheme) res"
where
  "namex_loop cur path nameiparent name ip s =
     (case skipelem path of
        None \<Rightarrow>
          if nameiparent then rbind (iput cur ip s) (\<lambda>s. OK (None, name, s))
          else OK (Some ip, name, s)
      | Some (name, path) \<Rightarrow>
          rbind (ilock cur ip s) (\<lambda>s.
            if itype (itable s ! ip) \<noteq> T_DIR then
              rbind (iunlockput cur ip s) (\<lambda>s. OK (None, name, s))
            else if nameiparent \<and> path = [] then
              rbind (iunlock cur ip s) (\<lambda>s. OK (Some ip, name, s))
            else
              rbind (dirlookup cur ip name s) (\<lambda>(r, s).
                case r of
                  None \<Rightarrow> rbind (iunlockput cur ip s) (\<lambda>s. OK (None, name, s))
                | Some (next, _) \<Rightarrow>
                    rbind (iunlockput cur ip s) (\<lambda>s. namex_loop cur path nameiparent name next s))))"
  by pat_completeness auto
termination
  by (relation "measure (\<lambda>(_, path, _). length path)") (auto dest: skipelem_shorter)

definition namex ::
  "nat \<Rightarrow> u8 list \<Rightarrow> bool \<Rightarrow> 'a fsst_scheme \<Rightarrow> (nat option \<times> u8 list \<times> 'a fsst_scheme) res" where
  "namex cur path nameiparent s =
     (if path \<noteq> [] \<and> hd path = SLASH then
        rbind (iget ROOTDEV ROOTINO s) (\<lambda>(ip, s). namex_loop cur path nameiparent [] ip s)
      else
        (case cwd (procs s ! cur) of
           None \<Rightarrow> kernel_fault
         | Some c \<Rightarrow> (let (ip, s) = idup c s in namex_loop cur path nameiparent [] ip s)))"

definition namei :: "nat \<Rightarrow> u8 list \<Rightarrow> 'a fsst_scheme \<Rightarrow> (nat option \<times> 'a fsst_scheme) res" where
  "namei cur path s = rbind (namex cur path False s) (\<lambda>(ip, _, s). OK (ip, s))"

definition nameiparent ::
  "nat \<Rightarrow> u8 list \<Rightarrow> 'a fsst_scheme \<Rightarrow> (nat option \<times> u8 list \<times> 'a fsst_scheme) res" where
  "nameiparent cur path s = namex cur path True s"

declare readi_loop.simps [simp del] writei_loop.simps [simp del] dirlookup_loop.simps [simp del]
  dirlink_find.simps [simp del] namex_loop.simps [simp del]

section \<open>The file system after start-up\<close>

text \<open>The layout that \<^verbatim>\<open>mkfs\<close> writes, and an empty inode table.\<close>

definition zero_inode :: inode where
  "zero_inode = \<lparr>idev = 0, inum = 0, iref = 0, ilk = initsleeplock ''inode'', ivalid = False, itype = 0,
     imajor = 0, iminor = 0, inlink = 0, isize = 0, addrs = replicate 13 0\<rparr>"

definition mkfs_sb :: superblock where
  "mkfs_sb = \<lparr>magic = FSMAGIC, fssize = 2000, nblocks = 1954, ninodes = 200, nlog = 30,
     logstart = 2, inodestart = 32, bmapstart = 45\<rparr>"

definition boot_fs :: "sched_policy \<Rightarrow> fsst" where
  "boot_fs pol = logst.extend (boot_log pol) (fsst.fields mkfs_sb (replicate 50 zero_inode))"

lemma boot_fs_simps [simp]:
  "mem (boot_fs pol) = mem (boot_table pol)" "freelist (boot_fs pol) = freelist (boot_table pol)"
  "pgrc (boot_fs pol) = pgrc (boot_table pol)" "kend (boot_fs pol) = kend (boot_table pol)"
  "procs (boot_fs pol) = procs (boot_table pol)" "policy (boot_fs pol) = pol"
  "ticks (boot_fs pol) = ticks (boot_table pol)" "initproc (boot_fs pol) = None"
  "bufs (boot_fs pol) = replicate 30 zero_buf" "lru (boot_fs pol) = rev [0..<30]"
  "disk (boot_fs pol) = (\<lambda>_. replicate 1024 0)" "dhist (boot_fs pol) = []"
  "log_start (boot_fs pol) = 2" "log_size (boot_fs pol) = 30" "outstanding (boot_fs pol) = 0"
  "\<not> committing (boot_fs pol)" "log_dev (boot_fs pol) = 1" "lh_n (boot_fs pol) = 0"
  "lh_block (boot_fs pol) = replicate 30 0"
  "sb (boot_fs pol) = mkfs_sb" "itable (boot_fs pol) = replicate 50 zero_inode"
  by (simp_all add: boot_fs_def boot_log_def boot_cache_def ptable.defs bcache.defs logst.defs fsst.defs boot_table_def)

end
