(* ===== verification/Kprintf.thy ===== *)
theory Kprintf
  imports Prelude
begin

text \<open>
  Formatted output of the kernel, \<^verbatim>\<open>kernel/printf.c\<close>, as the sequence of characters handed to
  \<^verbatim>\<open>consputc\<close>.
\<close>

section \<open>Numbers\<close>

definition digits :: string where
  "digits = ''0123456789abcdef''"

text \<open>
  The do-while loop of \<^verbatim>\<open>printint\<close>, least significant digit first.  The callers pass base 10 or
  16; for a base below 2 the C loop does not end (or divides by zero), and the model stops.
\<close>

function digit_loop :: "nat \<Rightarrow> nat \<Rightarrow> string" where
  "digit_loop base x =
     digits ! (x mod base) # (if x div base = 0 \<or> base < 2 then [] else digit_loop base (x div base))"
  by pat_completeness auto
termination
  by (relation "measure snd") (auto intro: div_less_dividend simp: div_eq_0_iff)

text \<open>\<open>xx\<close> is a C int; the magnitude is computed in 32-bit unsigned arithmetic.\<close>

definition printint :: "int \<Rightarrow> nat \<Rightarrow> bool \<Rightarrow> string" where
  "printint xx base sign =
     (let neg = (sign \<and> xx < 0);
          x = (if neg then of_int (- xx) else of_int xx) :: u32;
          buf = digit_loop base (unat x) @ (if neg then ''-'' else [])
      in rev buf)"

primrec printptr_loop :: "nat \<Rightarrow> u64 \<Rightarrow> string" where
  "printptr_loop 0 x = []"
| "printptr_loop (Suc k) x = digits ! unat (drop_bit 60 x) # printptr_loop k (push_bit 4 x)"

definition printptr :: "u64 \<Rightarrow> string" where
  "printptr x = ''0x'' @ printptr_loop 16 x"

section \<open>Formats\<close>

text \<open>
  The variable arguments.  A null string pointer is \<open>FStr None\<close>.  Reading an argument that is not
  there, or of the wrong type, is undefined in C: the model returns \<open>None\<close>.
\<close>

datatype farg = FInt int | FPtr u64 | FStr "string option"

fun printf_loop :: "string \<Rightarrow> farg list \<Rightarrow> string option" where
  "printf_loop [] args = Some []"
| "printf_loop [c] args = Some (if c \<noteq> CHR ''%'' then [c] else [])"
| "printf_loop (c # d # fmt) args =
     (if c \<noteq> CHR ''%'' then map_option (Cons c) (printf_loop (d # fmt) args)
      else if d = CHR ''d'' then
        (case args of FInt n # as \<Rightarrow> map_option (append (printint n 10 True)) (printf_loop fmt as) | _ \<Rightarrow> None)
      else if d = CHR ''x'' then
        (case args of FInt n # as \<Rightarrow> map_option (append (printint n 16 True)) (printf_loop fmt as) | _ \<Rightarrow> None)
      else if d = CHR ''p'' then
        (case args of FPtr x # as \<Rightarrow> map_option (append (printptr x)) (printf_loop fmt as) | _ \<Rightarrow> None)
      else if d = CHR ''s'' then
        (case args of
           FStr t # as \<Rightarrow>
             map_option (append (case t of None \<Rightarrow> ''(null)'' | Some t \<Rightarrow> t)) (printf_loop fmt as)
         | _ \<Rightarrow> None)
      else if d = CHR ''%'' then map_option (Cons CHR ''%'') (printf_loop fmt args)
      else map_option (append [CHR ''%'', d]) (printf_loop fmt args))"

definition kprintf :: "string \<Rightarrow> farg list \<Rightarrow> string option" where
  "kprintf fmt args = printf_loop fmt args"

text \<open>What \<^verbatim>\<open>panic\<close> prints before it stops the machine.\<close>

definition panic_text :: "string \<Rightarrow> string option" where
  "panic_text msg =
     (case (kprintf ''panic: '' [], kprintf msg [], kprintf [CHR 0x0A] []) of
        (Some a, Some b, Some c) \<Rightarrow> Some (a @ b @ c)
      | _ \<Rightarrow> None)"

declare digit_loop.simps [simp del]

section \<open>Reading printed numbers back\<close>

text \<open>The value of a digit, of a string of digits, and of a string with an optional minus sign.\<close>

definition digit_value :: "char \<Rightarrow> nat" where
  "digit_value c = (let n = of_char c in if n \<le> 57 then n - 48 else n - 87)"

definition read_nat :: "nat \<Rightarrow> string \<Rightarrow> nat" where
  "read_nat base = foldl (\<lambda>v c. v * base + digit_value c) 0"

definition read_int :: "nat \<Rightarrow> string \<Rightarrow> int" where
  "read_int base s = (if s \<noteq> [] \<and> hd s = CHR ''-'' then - int (read_nat base (tl s)) else int (read_nat base s))"

lemma digit_value: "k < 16 \<Longrightarrow> digit_value (digits ! k) = k" "k < 16 \<Longrightarrow> digits ! k \<noteq> CHR ''-''"
proof -
  have all: "\<forall>k \<in> set [0..<16]. digit_value (digits ! k) = k \<and> digits ! k \<noteq> CHR ''-''" by code_simp
  show "k < 16 \<Longrightarrow> digit_value (digits ! k) = k" "k < 16 \<Longrightarrow> digits ! k \<noteq> CHR ''-''" using all by auto
qed

lemma read_nat_snoc: "read_nat base (s @ [c]) = read_nat base s * base + digit_value c"
  by (simp add: read_nat_def)

lemma digit_loop_read:
  assumes "2 \<le> base" "base \<le> 16"
  shows "read_nat base (rev (digit_loop base x)) = x \<and> (\<forall>c \<in> set (digit_loop base x). c \<noteq> CHR ''-'')"
  using assms
proof (induction base x rule: digit_loop.induct)
  case (1 base x)
  have d: "x mod base < 16" using 1(2,3) mod_less_divisor[of base x] by linarith
  show ?case
  proof (cases "x div base = 0 \<or> base < 2")
    case True
    then have "x < base" using 1(2) by (simp add: div_eq_0_iff)
    then show ?thesis using True d digit_value[OF d] by (simp add: digit_loop.simps[of base x] read_nat_def)
  next
    case False
    then show ?thesis using 1(1)[OF False 1(2,3)] digit_value[OF d]
      by (simp add: digit_loop.simps[of base x] read_nat_snoc)
  qed
qed

lemma digit_loop_length:
  assumes "2 \<le> base" "x < base ^ k" "0 < k"
  shows "length (digit_loop base x) \<le> k"
  using assms
proof (induction k arbitrary: x)
  case (Suc k)
  show ?case
  proof (cases "x div base = 0")
    case False
    then have "0 < k" using Suc.prems by (cases k) (auto simp: div_eq_0_iff)
    moreover have "x div base < base ^ k" using Suc.prems(1,2) by (simp add: less_mult_imp_div_less mult.commute)
    ultimately show ?thesis using Suc.IH[of "x div base"] Suc.prems(1) by (simp add: digit_loop.simps[of base x])
  qed (simp add: digit_loop.simps[of base x])
qed simp

lemma length_printptr_loop [simp]: "length (printptr_loop k x) = k"
  by (induction k arbitrary: x) auto

lemma read_nat_Cons: "read_nat base (c # s) = digit_value c * base ^ length s + read_nat base s"
proof -
  have "foldl (\<lambda>v c. v * base + digit_value c) a s = a * base ^ length s + foldl (\<lambda>v c. v * base + digit_value c) 0 s" for a
  proof (induction s arbitrary: a)
    case (Cons d s)
    show ?case
      unfolding foldl.simps Cons[of "a * base + digit_value d"] Cons[of "0 * base + digit_value d"] by (simp add: algebra_simps)
  qed simp
  from this[of "digit_value c"] show ?thesis by (simp add: read_nat_def)
qed

lemma printptr_loop_read:
  assumes "k \<le> 16"
  shows "read_nat 16 (printptr_loop k x) = unat x div 16 ^ (16 - k)"
  using assms
proof (induction k arbitrary: x)
  case 0
  have "unat x < 16 ^ 16" using unsigned_less[where ?'a = nat, of x] by simp
  then show ?case by (simp add: read_nat_def)
next
  case (Suc k)
  define d where "d = unat x div 16 ^ 15"
  define r where "r = unat x mod 16 ^ 15"
  have x: "unat x = d * 16 ^ 15 + r" unfolding d_def r_def by (simp only: div_mult_mod_eq)
  have r: "r < 16 ^ 15" unfolding r_def by simp
  have d16: "d < 16" using unsigned_less[where ?'a = nat, of x] x by simp
  have d: "unat (drop_bit 60 x) = d" by (simp add: d_def drop_bit_eq_div unat_div)
  have "unat (push_bit 4 x) = 16 * unat x mod 2 ^ 64"
    by (simp add: unat_word_ariths push_bit_eq_mult mult.commute)
  also have "16 * unat x = 16 * r + d * 2 ^ 64" unfolding x by simp
  also have "(16 * r + d * 2 ^ 64) mod 2 ^ 64 = 16 * r mod 2 ^ 64" by (rule mod_mult_self1)
  also have "\<dots> = 16 * r" using r by (intro mod_less) simp
  finally have p: "unat (push_bit 4 x) = 16 * r" .
  have e: "16 - k = Suc (15 - k)" "16 ^ 15 = (16 :: nat) ^ k * 16 ^ (15 - k)"
    using Suc.prems by (auto simp flip: power_add)
  have "read_nat 16 (printptr_loop (Suc k) x) = d * 16 ^ k + 16 * r div 16 ^ (16 - k)"
    using Suc digit_value(1)[OF d16] by (simp add: read_nat_Cons d p)
  also have "16 * r div 16 ^ (16 - k) = r div 16 ^ (15 - k)" unfolding e(1) power_Suc by simp
  also have "d * 16 ^ k + r div 16 ^ (15 - k) = unat x div 16 ^ (15 - k)"
  proof -
    have "unat x = r + (d * 16 ^ k) * 16 ^ (15 - k)" unfolding x e(2) by simp
    then show ?thesis by (simp only: div_mult_self1) simp
  qed
  finally show ?case using Suc.prems by simp
qed

text \<open>
  C29 (numbers are printed as they are). For the bases the kernel uses, what \<^verbatim>\<open>printint\<close> prints for a C int
  reads back as that int, sign included, and fits the 16 characters of its buffer; and the
  hexadecimal digits that \<^verbatim>\<open>printptr\<close> prints read back as the address.
\<close>

theorem printint_roundtrip:
  assumes "10 \<le> base" "base \<le> 16" "- (2 ^ 31) \<le> xx" "xx < 2 ^ 31"
  shows "read_int base (printint xx base True) = xx \<and> length (printint xx base True) \<le> 16
    \<and> read_nat 16 (drop 2 (printptr p)) = unat p"
proof -
  have "read_nat 16 (drop 2 (printptr p)) = unat p" using printptr_loop_read[of 16 p] by (simp add: printptr_def)
  moreover
  define x where "x = nat \<bar>xx\<bar>"
  have x: "x < 2 ^ 32" "x \<le> 2 ^ 31" using assms(3,4) by (auto simp: x_def)
  have u: "unat (if xx < 0 then of_int (- xx) else of_int xx :: u32) = x"
  proof -
    have "unat (of_int y :: u32) = nat y" if "0 \<le> y" "y < 2 ^ 32" for y
      using that by (simp add: unsigned_of_int take_bit_int_eq_self)
    from this[of "- xx"] this[of xx] show ?thesis using assms(3,4) by (simp add: x_def split: if_split)
  qed
  let ?d = "digit_loop base x"
  have D: "read_nat base (rev ?d) = x" "\<forall>c \<in> set ?d. c \<noteq> CHR ''-''"
    using digit_loop_read[of base x] assms(1,2) by auto
  have "x < base ^ 10"
  proof -
    have "x < 10 ^ 10" using x(1) by simp
    also have "(10 :: nat) ^ 10 \<le> base ^ 10" using assms(1) by (rule power_mono) simp
    finally show ?thesis .
  qed
  then have l: "length ?d \<le> 10" using digit_loop_length[of base x 10] assms(1) by simp
  have ne: "rev ?d \<noteq> []" "hd (rev ?d) \<noteq> CHR ''-''"
  proof -
    show "rev ?d \<noteq> []" by (subst digit_loop.simps) simp
    then show "hd (rev ?d) \<noteq> CHR ''-''" using D(2) hd_in_set[of "rev ?d"] by auto
  qed
  have p: "printint xx base True = (if xx < 0 then ''-'' else []) @ rev ?d"
    using u by (cases "xx < 0") (simp_all add: printint_def)
  have "read_int base (printint xx base True) = xx \<and> length (printint xx base True) \<le> 16"
    using p D(1) l ne by (cases "xx < 0") (simp_all add: read_int_def x_def)
  ultimately show ?thesis by blast
qed

theorem printint_roundtrip_witness:
  "read_int 10 (printint (- 2147483648) 10 True) = - 2147483648 \<and> read_nat 16 (drop 2 (printptr 0x87FFF000)) = 0x87FFF000"
  using printint_roundtrip[of 10 "- 2147483648" "0x87FFF000"] by simp

end
