(* ===== verification/Ring.thy ===== *)
theory Ring
  imports Prelude
begin

text \<open>
  Ring buffers with free-running indices, the data structure of pipes, of the UART's output
  buffer and of the console's input line: an array of \<open>n\<close> bytes, a read index and a write index
  that only grow (and wrap around with the machine word), \<open>n\<close> a divisor of the word size.
  The locale \<open>bounded_queue\<close> is the contract these components rely on.
\<close>

section \<open>Content of a ring\<close>

definition ring :: "nat \<Rightarrow> 'b list \<Rightarrow> 'l::len word \<Rightarrow> 'l word \<Rightarrow> 'b list" where
  "ring n d r w = map (\<lambda>k. d ! (unat (r + of_nat k) mod n)) [0..<unat (w - r)]"

lemma length_ring [simp]: "length (ring n d r w) = unat (w - r)"
  by (simp add: ring_def)

lemma ring_empty_iff [simp]: "ring n d r w = [] \<longleftrightarrow> r = w"
  by (auto simp: ring_def unat_eq_0)

lemma unat_mod_add:
  fixes r :: "'l::len word"
  assumes "n dvd 2 ^ LENGTH('l)"
  shows "unat (r + of_nat k) mod n = (unat r + k) mod n"
  using assms by (simp add: unat_word_ariths unat_of_nat mod_mod_cancel mod_add_right_eq)

lemma ring_conv:
  fixes r w :: "'l::len word"
  assumes "n dvd 2 ^ LENGTH('l)"
  shows "ring n d r w = map (\<lambda>k. d ! ((unat r + k) mod n)) [0..<unat (w - r)]"
  by (simp add: ring_def unat_mod_add[OF assms])

lemma unat_Suc_diff:
  fixes r w :: "'l::len word"
  assumes "unat (w - r) < 2 ^ LENGTH('l) - 1"
  shows "unat (w + 1 - r) = Suc (unat (w - r))"
proof -
  have "unat (w - r + 1) = unat (w - r) + 1"
    using assms by (subst unat_word_ariths) simp
  then show ?thesis by (simp add: algebra_simps)
qed

lemma ring_put:
  fixes r w :: "'l::len word"
  assumes "n dvd 2 ^ LENGTH('l)" "n < 2 ^ LENGTH('l)" "length d = n" "unat (w - r) < n"
  shows "ring n (d[unat w mod n := x]) r (w + 1) = ring n d r w @ [x]"
proof -
  let ?k = "unat (w - r)"
  have k: "unat (w + 1 - r) = Suc ?k" using assms by (intro unat_Suc_diff) simp
  have w: "unat w mod n = (unat r + ?k) mod n"
    using unat_mod_add[OF assms(1), of r ?k] by simp
  have n: "0 < n" using assms(4) by simp
  have other: "(unat r + j) mod n \<noteq> (unat r + ?k) mod n" if "j < ?k" for j
  proof
    assume "(unat r + j) mod n = (unat r + ?k) mod n"
    then have "n dvd (unat r + ?k) - (unat r + j)"
      using that mod_eq_dvd_iff_nat[of "unat r + j" "unat r + ?k" n] by simp
    then have "n dvd ?k - j" by simp
    then show False using that assms(4) by (auto dest: dvd_imp_le)
  qed
  have "d[(unat r + ?k) mod n := x] ! ((unat r + j) mod n) = d ! ((unat r + j) mod n)" if "j < ?k" for j
    using other[OF that] by (intro nth_list_update_neq) simp
  then show ?thesis
    using n assms(3) by (auto simp: ring_conv[OF assms(1)] k w)
qed

lemma ring_get:
  fixes r w :: "'l::len word"
  assumes "n dvd 2 ^ LENGTH('l)" "r \<noteq> w"
  shows "ring n d r w = d ! (unat r mod n) # ring n d (r + 1) w"
proof -
  have "unat (w - r - 1) = unat (w - r) - 1" using assms(2) by (intro unat_minus_one) simp
  moreover have "0 < unat (w - r)" using assms(2) by (simp add: unat_gt_0)
  ultimately have "unat (w - r) = Suc (unat (w - (r + 1)))" by (simp add: diff_diff_eq)
  moreover have "unat (r + 1 + of_nat k) = unat (r + of_nat (Suc k))" for k
    by (simp add: algebra_simps)
  ultimately show ?thesis
    by (simp add: ring_def upt_conv_Cons map_Suc_upt[symmetric] del: upt_Suc)
qed

section \<open>Bounded queues\<close>

text \<open>
  A sequence of requests: \<open>Some x\<close> puts \<open>x\<close>, \<open>None\<close> gets.  A request that cannot be served (a put
  on a full queue, a get on an empty one) is not performed.  The result is what was accepted,
  what was delivered and the final state.
\<close>

fun serve ::
  "('s \<Rightarrow> 'b list) \<Rightarrow> nat \<Rightarrow> ('b \<Rightarrow> 's \<Rightarrow> 's) \<Rightarrow> ('s \<Rightarrow> 'b \<times> 's) \<Rightarrow> 'b option list \<Rightarrow> 's \<Rightarrow> 'b list \<times> 'b list \<times> 's"
where
  "serve content cap put get [] s = ([], [], s)"
| "serve content cap put get (Some x # qs) s =
     (if length (content s) < cap
      then let (acc, out, s') = serve content cap put get qs (put x s) in (x # acc, out, s')
      else serve content cap put get qs s)"
| "serve content cap put get (None # qs) s =
     (if content s \<noteq> []
      then let (acc, out, s') = serve content cap put get qs (snd (get s)) in (acc, fst (get s) # out, s')
      else serve content cap put get qs s)"

locale bounded_queue =
  fixes inv :: "'s \<Rightarrow> bool"
    and content :: "'s \<Rightarrow> 'b list"
    and cap :: nat
    and put :: "'b \<Rightarrow> 's \<Rightarrow> 's"
    and get :: "'s \<Rightarrow> 'b \<times> 's"
  assumes put_inv: "inv s \<Longrightarrow> length (content s) < cap \<Longrightarrow> inv (put x s)"
    and put_content: "inv s \<Longrightarrow> length (content s) < cap \<Longrightarrow> content (put x s) = content s @ [x]"
    and get_inv: "inv s \<Longrightarrow> content s \<noteq> [] \<Longrightarrow> inv (snd (get s))"
    and get_content: "inv s \<Longrightarrow> content s \<noteq> [] \<Longrightarrow> content s = fst (get s) # content (snd (get s))"
begin

lemma serve_fifo:
  "inv s \<Longrightarrow> serve content cap put get qs s = (acc, out, s') \<Longrightarrow> inv s' \<and> content s @ acc = out @ content s'"
proof (induction qs arbitrary: s acc out s')
  case (Cons q qs)
  show ?case
  proof (cases q)
    case (Some x)
    then show ?thesis
      using Cons.IH[OF put_inv[OF Cons.prems(1)]] Cons.IH[OF Cons.prems(1)] Cons.prems
      by (auto simp: put_content split: if_splits prod.splits)
  next
    case None
    obtain acc1 out1 s1 where r: "serve content cap put get qs (snd (get s)) = (acc1, out1, s1)"
      using prod_cases3 by blast
    show ?thesis
    proof (cases "content s = []")
      case False
      have "inv s1 \<and> content (snd (get s)) @ acc1 = out1 @ content s1"
        using Cons.IH[OF get_inv[OF Cons.prems(1) False] r] .
      then show ?thesis
        using get_content[OF Cons.prems(1) False] Cons.prems(2) None r False by auto
    next
      case True
      then show ?thesis using Cons.IH[OF Cons.prems(1), of acc out s'] Cons.prems None by simp
    qed
  qed
qed auto

end

end
