(* ===== verification/Console.thy ===== *)
theory Console
  imports Fs Kprintf Ring
begin

text \<open>
  The UART driver (\<^verbatim>\<open>kernel/uart.c\<close>) and the console (\<^verbatim>\<open>kernel/console.c\<close>).  The device is a stream of
  readings: the \<open>k\<close>-th read of the line status register finds the transmitter idle iff
  \<open>lsr_tx k\<close>, and \<open>rx\<close> are the characters waiting in the receive register.  \<open>thr\<close> collects the
  bytes written to the transmit register, the oldest first; \<open>uregs\<close> the other register writes.
\<close>

record uart =
  uart_tx_buf :: "u8 list"
  uart_tx_w :: u64
  uart_tx_r :: u64
  thr :: "u8 list"
  rx :: "u8 list"
  lsr_tx :: "nat \<Rightarrow> bool"
  lsr_n :: nat
  uregs :: "(nat \<times> u8) list"

record cons =
  cbuf :: "u8 list"
  cr :: u32
  cw :: u32
  ce :: u32

record conss = fsst +
  uart_dev :: uart
  cons_in :: cons
  panicked :: bool

text \<open>
  How far a call that may sleep has got: it returned a value, or it is asleep on a channel with
  \<open>k\<close> bytes still to transfer.
\<close>

datatype 's run = Done int 's | Sleeps channel nat 's

lemma wakeup_loop_uart_dev [simp]: "uart_dev (wakeup_loop is cur ch s) = uart_dev s"
  by (induction "is" cur ch s rule: wakeup_loop.induct) (auto simp: make_runnable_def upd_proc_def Let_def)

lemma wakeup_uart_dev [simp]: "uart_dev (wakeup cur ch s) = uart_dev s"
  by (simp add: wakeup_def)

section \<open>UART\<close>

definition uartinit :: "'a conss_scheme \<Rightarrow> 'a conss_scheme" where
  "uartinit s = s\<lparr>uart_dev := (uart_dev s)\<lparr>uregs := uregs (uart_dev s) @
     [(1, 0), (3, 0x80), (0, 3), (1, 0), (3, 3), (2, 7), (1, 3)]\<rparr>\<rparr>"

text \<open>The busy-waiting of \<^verbatim>\<open>uartputc_sync\<close>: not returning is \<open>None\<close>.\<close>

partial_function (option) spin_tx :: "(nat \<Rightarrow> bool) \<Rightarrow> nat \<Rightarrow> nat option" where
  "spin_tx lsr n = (if lsr n then Some (Suc n) else spin_tx lsr (Suc n))"

definition uartputc_sync :: "u8 \<Rightarrow> 'a conss_scheme \<Rightarrow> 'a conss_scheme res" where
  "uartputc_sync c s =
     (if panicked s then Block
      else
        (let u = uart_dev s in
         case spin_tx (lsr_tx u) (lsr_n u) of
           None \<Rightarrow> Block
         | Some n \<Rightarrow> OK (s\<lparr>uart_dev := u\<lparr>lsr_n := n, thr := thr u @ [c]\<rparr>\<rparr>)))"

text \<open>The output buffer: 32 bytes with 64-bit indices.\<close>

definition uart_put :: "u8 \<Rightarrow> uart \<Rightarrow> uart" where
  "uart_put c u = u\<lparr>uart_tx_buf := (uart_tx_buf u)[unat (uart_tx_w u) mod 32 := c], uart_tx_w := uart_tx_w u + 1\<rparr>"

definition uart_get :: "uart \<Rightarrow> u8 \<times> uart" where
  "uart_get u = (uart_tx_buf u ! (unat (uart_tx_r u) mod 32), u\<lparr>uart_tx_r := uart_tx_r u + 1\<rparr>)"

text \<open>
  \<^verbatim>\<open>uartstart\<close>: every iteration that continues takes one byte out of the buffer.  \<open>cur\<close> is
  \<^verbatim>\<open>myproc()\<close>, which \<^verbatim>\<open>wakeup\<close> skips.
\<close>

function uartstart :: "nat option \<Rightarrow> 'a conss_scheme \<Rightarrow> 'a conss_scheme" where
  "uartstart cur s =
     (let u = uart_dev s in
      if uart_tx_w u = uart_tx_r u then s
      else if \<not> lsr_tx u (lsr_n u) then s\<lparr>uart_dev := u\<lparr>lsr_n := Suc (lsr_n u)\<rparr>\<rparr>
      else
        (let (c, u) = uart_get u;
             s = s\<lparr>uart_dev := u\<lparr>lsr_n := Suc (lsr_n u)\<rparr>\<rparr>;
             s = wakeup cur ChUart s
         in uartstart cur (s\<lparr>uart_dev := (uart_dev s)\<lparr>thr := thr (uart_dev s) @ [c]\<rparr>\<rparr>)))"
  by pat_completeness auto

termination
proof (relation "measure (\<lambda>(_, s). unat (uart_tx_w (uart_dev s) - uart_tx_r (uart_dev s)))", goal_cases)
  case (2 cur s u g c u' s1 s2)
  have "unat (uart_tx_w u - uart_tx_r u - 1) < unat (uart_tx_w u - uart_tx_r u)"
    using 2 by (intro word_less_nat_alt[THEN iffD1]) (simp add: measure_unat word_less_nat_alt)
  then show ?case using 2 by (auto simp: uart_get_def algebra_simps)
qed simp

definition uartputc :: "nat \<Rightarrow> u8 \<Rightarrow> 'a conss_scheme \<Rightarrow> 'a conss_scheme run res" where
  "uartputc cur c s =
     (if panicked s then Block
      else
        (let u = uart_dev s in
         if uart_tx_w u = uart_tx_r u + 32 then OK (Sleeps ChUart 1 (sleep_enter cur ChUart s))
         else
           OK (Done 0 (uartstart (Some cur) (s\<lparr>uart_dev := uart_put c u\<rparr>)))))"

definition uartgetc :: "'a conss_scheme \<Rightarrow> int \<times> 'a conss_scheme" where
  "uartgetc s =
     (case rx (uart_dev s) of
        [] \<Rightarrow> (- 1, s)
      | c # cs \<Rightarrow> (uint c, s\<lparr>uart_dev := (uart_dev s)\<lparr>rx := cs\<rparr>\<rparr>))"

section \<open>Console\<close>

abbreviation (input) BACKSPACE :: int where "BACKSPACE \<equiv> 0x100"

definition consputc :: "int \<Rightarrow> 'a conss_scheme \<Rightarrow> 'a conss_scheme res" where
  "consputc c s =
     (if c = BACKSPACE then
        rbind (uartputc_sync 8 s) (\<lambda>s. rbind (uartputc_sync 32 s) (uartputc_sync 8))
      else uartputc_sync (of_int c) s)"

fun consputs :: "string \<Rightarrow> 'a conss_scheme \<Rightarrow> 'a conss_scheme res" where
  "consputs [] s = OK s"
| "consputs (c # cs) s = rbind (consputc (of_char c) s) (consputs cs)"

text \<open>
  \<^verbatim>\<open>consolewrite\<close> from byte \<open>i\<close> on, \<open>left\<close> bytes to go.  The C loop sleeps inside \<^verbatim>\<open>uartputc\<close> when the
  output buffer is full.
\<close>

fun consolewrite_loop ::
  "nat \<Rightarrow> bool \<Rightarrow> u64 \<Rightarrow> nat \<Rightarrow> nat \<Rightarrow> 'a conss_scheme \<Rightarrow> 'a conss_scheme run res"
where
  "consolewrite_loop cur user_src src i 0 s = OK (Done (int i) s)"
| "consolewrite_loop cur user_src src i (Suc left) s =
     rbind (either_copyin cur user_src (src + of_nat i) 1 s) (\<lambda>(r, bs).
       if r = - 1 then OK (Done (int i) s)
       else
         rbind (uartputc cur (hd bs) s) (\<lambda>o1.
           case o1 of
             Sleeps ch _ s \<Rightarrow> OK (Sleeps ch (Suc left) s)
           | Done _ s \<Rightarrow> consolewrite_loop cur user_src src (Suc i) left s))"

definition consolewrite ::
  "nat \<Rightarrow> bool \<Rightarrow> u64 \<Rightarrow> int \<Rightarrow> 'a conss_scheme \<Rightarrow> 'a conss_scheme run res" where
  "consolewrite cur user_src src n s = consolewrite_loop cur user_src src 0 (nat n) s"

text \<open>
  \<^verbatim>\<open>consoleread\<close> with \<open>left\<close> bytes still wanted out of \<open>target\<close>; \<open>dst\<close> has already advanced.
\<close>

definition cons_put :: "u8 \<Rightarrow> cons \<Rightarrow> cons" where
  "cons_put c k = k\<lparr>cbuf := (cbuf k)[unat (ce k) mod 128 := c], ce := ce k + 1\<rparr>"

definition cons_get :: "cons \<Rightarrow> u8 \<times> cons" where
  "cons_get k = (cbuf k ! (unat (cr k) mod 128), k\<lparr>cr := cr k + 1\<rparr>)"

abbreviation (input) CTRL_D :: u8 where "CTRL_D \<equiv> 4"
abbreviation (input) NEWLINE :: u8 where "NEWLINE \<equiv> 10"

fun consoleread_loop ::
  "nat \<Rightarrow> bool \<Rightarrow> u64 \<Rightarrow> nat \<Rightarrow> nat \<Rightarrow> 'a conss_scheme \<Rightarrow> 'a conss_scheme run res"
where
  "consoleread_loop cur user_dst dst target 0 s = OK (Done (int target) s)"
| "consoleread_loop cur user_dst dst target (Suc n) s =
     (let k = cons_in s in
      if cr k = cw k then
        (if killed cur s \<noteq> 0 then OK (Done (- 1) s)
         else OK (Sleeps ChConsole (Suc n) (sleep_enter cur ChConsole s)))
      else
        (let (c, k') = cons_get k in
         if c = CTRL_D then
           OK (Done (int target - int (Suc n))
                 (if Suc n < target then s else s\<lparr>cons_in := k'\<rparr>))
         else
           (let s = s\<lparr>cons_in := k'\<rparr> in
            rbind (either_copyout cur user_dst dst [c] s) (\<lambda>(r, s).
              if r = - 1 then OK (Done (int target - int (Suc n)) s)
              else if c = NEWLINE then OK (Done (int target - int n) s)
              else consoleread_loop cur user_dst (dst + 1) target n s))))"

definition consoleread ::
  "nat \<Rightarrow> bool \<Rightarrow> u64 \<Rightarrow> int \<Rightarrow> 'a conss_scheme \<Rightarrow> 'a conss_scheme run res" where
  "consoleread cur user_dst dst n s = consoleread_loop cur user_dst dst (nat n) (nat n) s"

text \<open>\<^verbatim>\<open>procdump\<close>: the lines printed for the slots in use.\<close>

fun state_name :: "procstate \<Rightarrow> string" where
  "state_name UNUSED = ''unused''"
| "state_name USED = ''used''"
| "state_name SLEEPING = ''sleep ''"
| "state_name RUNNABLE = ''runble''"
| "state_name RUNNING = ''run   ''"
| "state_name ZOMBIE = ''zombie''"

definition name_string :: "u8 list \<Rightarrow> string" where
  "name_string bs = map (\<lambda>b. char_of (unat b)) (takeWhile (\<lambda>b. b \<noteq> 0) bs)"

definition procdump_line :: "sched_policy \<Rightarrow> proc \<Rightarrow> string option" where
  "procdump_line pol p =
     (let st = FStr (Some (state_name (state p))); nm = FStr (Some (name_string (pname p))) in
      case pol of
        PBS \<Rightarrow> kprintf ''%d %d %d %s %s'' [FInt (pid p), FInt (priority p), FInt (niceness p), st, nm]
      | FCFS \<Rightarrow> kprintf ''%d %d %s %s'' [FInt (pid p), FInt (stick p), st, nm]
      | MLFQ \<Rightarrow> kprintf ''%d %d %d %d %d %s %s''
                 [FInt (pid p), FInt (queue p), FInt (intime p), FInt (waittime p), FInt (ticksused p), st, nm]
      | LBS \<Rightarrow> kprintf ''%d %d %s %s'' [FInt (pid p), FInt (tickets p), st, nm]
      | _ \<Rightarrow> kprintf ''%d %s %s'' [FInt (pid p), st, nm])"

definition procdump :: "'a conss_scheme \<Rightarrow> 'a conss_scheme res" where
  "procdump s =
     consputs ([CHR 0x0A] @ concat (map (\<lambda>p.
        (case procdump_line (policy s) p of Some l \<Rightarrow> l | None \<Rightarrow> []) @ [CHR 0x0A])
        (filter (\<lambda>p. state p \<noteq> UNUSED) (procs s)))) s"

text \<open>
  The kill-line loop of \<^verbatim>\<open>consoleintr\<close>: it ends because the edit index moves towards the write
  index.
\<close>

fun kill_line :: "nat \<Rightarrow> 'a conss_scheme \<Rightarrow> 'a conss_scheme res" where
  "kill_line 0 s = OK s"
| "kill_line (Suc k) s =
     (let c = cons_in s in
      if ce c \<noteq> cw c \<and> cbuf c ! (unat (ce c - 1) mod 128) \<noteq> NEWLINE then
        rbind (consputc BACKSPACE (s\<lparr>cons_in := c\<lparr>ce := ce c - 1\<rparr>\<rparr>)) (kill_line k)
      else OK s)"

definition consoleintr :: "nat option \<Rightarrow> int \<Rightarrow> 'a conss_scheme \<Rightarrow> 'a conss_scheme res" where
  "consoleintr cur c s =
     (let k = cons_in s in
      if c = 16 then procdump s
      else if c = 21 then kill_line (unat (ce k - cw k)) s
      else if c = 8 \<or> c = 127 then
        (if ce k \<noteq> cw k then consputc BACKSPACE (s\<lparr>cons_in := k\<lparr>ce := ce k - 1\<rparr>\<rparr>) else OK s)
      else if c \<noteq> 0 \<and> ce k - cr k < 128 then
        (let c = (if c = 13 then 10 else c) in
         rbind (consputc c s) (\<lambda>s.
           let k = cons_put (of_int c) (cons_in s) in
           if c = 10 \<or> c = 4 \<or> ce k - cr k = 128
           then OK (wakeup cur ChConsole (s\<lparr>cons_in := k\<lparr>cw := ce k\<rparr>\<rparr>))
           else OK (s\<lparr>cons_in := k\<rparr>)))
      else OK s)"

text \<open>\<^verbatim>\<open>uartintr\<close>: the characters that have arrived, then the output buffer.\<close>

fun uartintr_rx :: "nat option \<Rightarrow> u8 list \<Rightarrow> 'a conss_scheme \<Rightarrow> 'a conss_scheme res" where
  "uartintr_rx cur [] s = OK s"
| "uartintr_rx cur (_ # cs) s =
     (let (c, s) = uartgetc s in
      if c = - 1 then OK s else rbind (consoleintr cur c s) (uartintr_rx cur cs))"

definition uartintr :: "nat option \<Rightarrow> 'a conss_scheme \<Rightarrow> 'a conss_scheme res" where
  "uartintr cur s = rbind (uartintr_rx cur (rx (uart_dev s)) s) (\<lambda>s. OK (uartstart cur s))"

declare uartstart.simps [simp del]

section \<open>The output buffer as a queue\<close>

definition uart_ok :: "uart \<Rightarrow> bool" where
  "uart_ok u \<longleftrightarrow> length (uart_tx_buf u) = 32 \<and> unat (uart_tx_w u - uart_tx_r u) \<le> 32"

definition uart_content :: "uart \<Rightarrow> u8 list" where
  "uart_content u = ring 32 (uart_tx_buf u) (uart_tx_r u) (uart_tx_w u)"

interpretation utx: bounded_queue uart_ok uart_content 32 uart_put uart_get
proof (unfold_locales, goal_cases)
  case (1 s x)
  then show ?case using unat_Suc_diff[of "uart_tx_w s" "uart_tx_r s"]
    by (simp add: uart_ok_def uart_put_def uart_content_def)
next
  case (2 s x)
  then show ?case by (simp add: uart_ok_def uart_put_def uart_content_def ring_put)
next
  case (3 s)
  then show ?case using ring_get[of 32 "uart_tx_r s" "uart_tx_w s" "uart_tx_buf s"]
    by (auto simp: uart_ok_def uart_get_def uart_content_def dest!: arg_cong[where f = length])
next
  case (4 s)
  then show ?case using ring_get[of 32 "uart_tx_r s" "uart_tx_w s" "uart_tx_buf s"]
    by (simp add: uart_ok_def uart_get_def uart_content_def)
qed

text \<open>What has been sent and what is waiting, oldest byte first.\<close>

definition uart_stream :: "uart \<Rightarrow> u8 list" where
  "uart_stream u = thr u @ uart_content u"

lemma uart_fields_irrelevant [simp]:
  "uart_ok (u\<lparr>lsr_n := n\<rparr>) = uart_ok u" "uart_content (u\<lparr>lsr_n := n\<rparr>) = uart_content u"
  "uart_ok (u\<lparr>thr := t\<rparr>) = uart_ok u" "uart_content (u\<lparr>thr := t\<rparr>) = uart_content u"
  by (simp_all add: uart_ok_def uart_content_def)

lemma uart_get_other [simp]: "thr (snd (uart_get u)) = thr u" "thr (uart_put c u) = thr u"
  by (simp_all add: uart_get_def uart_put_def)

lemma uartstart_stream:
  "uart_ok (uart_dev s) \<Longrightarrow>
     uart_ok (uart_dev (uartstart cur s)) \<and> uart_stream (uart_dev (uartstart cur s)) = uart_stream (uart_dev s)"
proof (induction cur s rule: uartstart.induct)
  case (1 cur s)
  let ?u = "uart_dev s"
  show ?case
  proof (cases "uart_tx_w ?u = uart_tx_r ?u \<or> \<not> lsr_tx ?u (lsr_n ?u)")
    case True
    then show ?thesis using 1(2) by (subst (1 2) uartstart.simps) (auto simp: uart_stream_def Let_def)
  next
    case False
    obtain c u where g: "uart_get ?u = (c, u)" by fastforce
    let ?s = "wakeup cur ChUart (s\<lparr>uart_dev := u\<lparr>lsr_n := Suc (lsr_n u)\<rparr>\<rparr>)"
    let ?s' = "?s\<lparr>uart_dev := (uart_dev ?s)\<lparr>thr := thr (uart_dev ?s) @ [c]\<rparr>\<rparr>"
    have ne: "uart_content ?u \<noteq> []" using False by (auto simp: uart_content_def)
    have u: "uart_ok u" "uart_content ?u = c # uart_content u" "thr u = thr ?u"
      using utx.get_inv[OF 1(2) ne] utx.get_content[OF 1(2) ne] g uart_get_other(1)[of ?u] by simp_all
    have eq: "uartstart cur s = uartstart cur ?s'"
      using False g by (subst uartstart.simps) (simp add: Let_def)
    have "uart_ok (uart_dev (uartstart cur ?s')) \<and>
        uart_stream (uart_dev (uartstart cur ?s')) = uart_stream (uart_dev ?s')"
      using False g u(1) by (intro 1(1)[OF refl _ _ g[symmetric] refl]) simp_all
    then show ?thesis using u by (simp add: eq uart_stream_def)
  qed
qed


text \<open>The console after start-up, with a transmitter that is always idle.\<close>

definition boot_cons :: "sched_policy \<Rightarrow> conss" where
  "boot_cons pol = fsst.extend (boot_fs pol)
     (conss.fields
        \<lparr>uart_tx_buf = replicate 32 0, uart_tx_w = 0, uart_tx_r = 0, thr = [], rx = [],
         lsr_tx = (\<lambda>_. True), lsr_n = 0, uregs = []\<rparr>
        \<lparr>cbuf = replicate 128 0, cr = 0, cw = 0, ce = 0\<rparr> False)"

lemma boot_cons_simps [simp]:
  "mem (boot_cons pol) = mem (boot_table pol)" "procs (boot_cons pol) = procs (boot_table pol)"
  "policy (boot_cons pol) = pol" "ticks (boot_cons pol) = ticks (boot_table pol)"
  "uart_dev (boot_cons pol) = \<lparr>uart_tx_buf = replicate 32 0, uart_tx_w = 0, uart_tx_r = 0, thr = [], rx = [],
     lsr_tx = (\<lambda>_. True), lsr_n = 0, uregs = []\<rparr>"
  "cons_in (boot_cons pol) = \<lparr>cbuf = replicate 128 0, cr = 0, cw = 0, ce = 0\<rparr>"
  "\<not> panicked (boot_cons pol)"
  by (simp_all add: boot_cons_def boot_fs_def boot_log_def boot_cache_def
        ptable.defs bcache.defs logst.defs fsst.defs conss.defs boot_table_def)


end
