(* ===== verification/Pipe.thy ===== *)
theory Pipe
  imports Console
begin

text \<open>
  Pipes, \<^verbatim>\<open>kernel/pipe.c\<close>.  A pipe is identified by the address of the page it lives in; \<open>pipes\<close>
  gives the \<^verbatim>\<open>struct pipe\<close> in that page.  \<^verbatim>\<open>pipealloc\<close>, which also allocates file structures, is in
  the theory of \<^verbatim>\<open>kernel/file.c\<close>.
\<close>

abbreviation (input) PIPESIZE :: nat where "PIPESIZE \<equiv> 512"

record pipe =
  pdata :: "u8 list"
  nread :: u32
  nwrite :: u32
  readopen :: bool
  writeopen :: bool

record pipest = conss +
  pipes :: "u64 \<Rightarrow> pipe option"

definition the_pipe :: "u64 \<Rightarrow> 'a pipest_scheme \<Rightarrow> pipe" where
  "the_pipe pi s = (case pipes s pi of Some p \<Rightarrow> p | None \<Rightarrow> \<lparr>pdata = [], nread = 0, nwrite = 0, readopen = False, writeopen = False\<rparr>)"

definition upd_pipe :: "u64 \<Rightarrow> (pipe \<Rightarrow> pipe) \<Rightarrow> 'a pipest_scheme \<Rightarrow> 'a pipest_scheme" where
  "upd_pipe pi f s = s\<lparr>pipes := (pipes s)(pi := Some (f (the_pipe pi s)))\<rparr>"

section \<open>The ring buffer\<close>

definition pipe_full :: "pipe \<Rightarrow> bool" where
  "pipe_full p \<longleftrightarrow> nwrite p = nread p + 512"

definition pipe_empty :: "pipe \<Rightarrow> bool" where
  "pipe_empty p \<longleftrightarrow> nread p = nwrite p"

definition pipe_put :: "u8 \<Rightarrow> pipe \<Rightarrow> pipe" where
  "pipe_put ch p = p\<lparr>pdata := (pdata p)[unat (nwrite p) mod PIPESIZE := ch], nwrite := nwrite p + 1\<rparr>"

definition pipe_get :: "pipe \<Rightarrow> u8 \<times> pipe" where
  "pipe_get p = (pdata p ! (unat (nread p) mod PIPESIZE), p\<lparr>nread := nread p + 1\<rparr>)"

section \<open>Operations\<close>

definition pipeclose :: "nat \<Rightarrow> u64 \<Rightarrow> bool \<Rightarrow> 'a pipest_scheme \<Rightarrow> 'a pipest_scheme res" where
  "pipeclose cur pi wr s =
     (let s = (if wr then wakeup (Some cur) (ChPipeRead pi) (upd_pipe pi (\<lambda>p. p\<lparr>writeopen := False\<rparr>) s)
               else wakeup (Some cur) (ChPipeWrite pi) (upd_pipe pi (\<lambda>p. p\<lparr>readopen := False\<rparr>) s))
      in if \<not> readopen (the_pipe pi s) \<and> \<not> writeopen (the_pipe pi s)
         then kfree pi (s\<lparr>pipes := (pipes s)(pi := None)\<rparr>)
         else OK s)"

text \<open>
  \<^verbatim>\<open>pipewrite\<close> with \<open>i\<close> bytes written and \<open>left\<close> to go, up to its return or to the first time it
  sleeps.  A woken writer continues with the same arguments.
\<close>

fun pipewrite_loop ::
  "nat \<Rightarrow> u64 \<Rightarrow> u64 \<Rightarrow> nat \<Rightarrow> nat \<Rightarrow> 'a pipest_scheme \<Rightarrow> 'a pipest_scheme run res"
where
  "pipewrite_loop cur pi addr i 0 s = OK (Done (int i) (wakeup (Some cur) (ChPipeRead pi) s))"
| "pipewrite_loop cur pi addr i (Suc left) s =
     (if \<not> readopen (the_pipe pi s) \<or> killed cur s \<noteq> 0 then OK (Done (- 1) s)
      else if pipe_full (the_pipe pi s) then
        OK (Sleeps (ChPipeWrite pi) (Suc left)
             (sleep_enter cur (ChPipeWrite pi) (wakeup (Some cur) (ChPipeRead pi) s)))
      else
        rbind (copyin (pagetable (procs s ! cur)) (addr + of_nat i) 1 s) (\<lambda>(r, bs).
          if r = - 1 then OK (Done (int i) (wakeup (Some cur) (ChPipeRead pi) s))
          else pipewrite_loop cur pi addr (Suc i) left (upd_pipe pi (pipe_put (hd bs)) s)))"

definition pipewrite ::
  "nat \<Rightarrow> u64 \<Rightarrow> u64 \<Rightarrow> int \<Rightarrow> 'a pipest_scheme \<Rightarrow> 'a pipest_scheme run res" where
  "pipewrite cur pi addr n s = pipewrite_loop cur pi addr 0 (nat n) s"

fun piperead_loop ::
  "nat \<Rightarrow> u64 \<Rightarrow> u64 \<Rightarrow> nat \<Rightarrow> nat \<Rightarrow> 'a pipest_scheme \<Rightarrow> (int \<times> 'a pipest_scheme) res"
where
  "piperead_loop cur pi addr i 0 s = OK (int i, s)"
| "piperead_loop cur pi addr i (Suc left) s =
     (if pipe_empty (the_pipe pi s) then OK (int i, s)
      else
        (let (ch, p) = pipe_get (the_pipe pi s); s = upd_pipe pi (\<lambda>_. p) s in
         rbind (copyout (pagetable (procs s ! cur)) (addr + of_nat i) [ch] s) (\<lambda>(r, s).
           if r = - 1 then OK (int i, s) else piperead_loop cur pi addr (Suc i) left s)))"

definition piperead ::
  "nat \<Rightarrow> u64 \<Rightarrow> u64 \<Rightarrow> int \<Rightarrow> 'a pipest_scheme \<Rightarrow> 'a pipest_scheme run res" where
  "piperead cur pi addr n s =
     (if pipe_empty (the_pipe pi s) \<and> writeopen (the_pipe pi s) then
        (if killed cur s \<noteq> 0 then OK (Done (- 1) s)
         else OK (Sleeps (ChPipeRead pi) (nat n) (sleep_enter cur (ChPipeRead pi) s)))
      else
        rbind (piperead_loop cur pi addr 0 (nat n) s) (\<lambda>(i, s).
          OK (Done i (wakeup (Some cur) (ChPipeWrite pi) s))))"

section \<open>The ring buffer as a queue\<close>

definition pipe_ok :: "pipe \<Rightarrow> bool" where
  "pipe_ok p \<longleftrightarrow> length (pdata p) = PIPESIZE \<and> unat (nwrite p - nread p) \<le> PIPESIZE"

definition pipe_content :: "pipe \<Rightarrow> u8 list" where
  "pipe_content p = ring PIPESIZE (pdata p) (nread p) (nwrite p)"

lemma pipe_empty_iff: "pipe_empty p \<longleftrightarrow> pipe_content p = []"
  by (simp add: pipe_empty_def pipe_content_def)

lemma pipe_full_iff:
  assumes "pipe_ok p"
  shows "pipe_full p \<longleftrightarrow> length (pipe_content p) = PIPESIZE"
proof
  assume "length (pipe_content p) = PIPESIZE"
  then have "nwrite p - nread p = 512" by (simp add: pipe_content_def word_unat_eq_iff)
  then show "pipe_full p" by (simp add: pipe_full_def algebra_simps)
qed (simp add: pipe_full_def pipe_content_def)

interpretation pq: bounded_queue pipe_ok pipe_content PIPESIZE pipe_put pipe_get
proof (unfold_locales, goal_cases)
  case (1 p x)
  then show ?case using unat_Suc_diff[of "nwrite p" "nread p"]
    by (simp add: pipe_ok_def pipe_put_def pipe_content_def)
next
  case (2 p x)
  then show ?case by (simp add: pipe_ok_def pipe_put_def pipe_content_def ring_put)
next
  case (3 p)
  then show ?case using ring_get[of PIPESIZE "nread p" "nwrite p" "pdata p"]
    by (auto simp: pipe_ok_def pipe_get_def pipe_content_def dest!: arg_cong[where f = length])
next
  case (4 p)
  then show ?case using ring_get[of PIPESIZE "nread p" "nwrite p" "pdata p"]
    by (simp add: pipe_ok_def pipe_get_def pipe_content_def)
qed



section \<open>Transfers\<close>

lemma the_pipe_upd [simp]: "the_pipe pi (upd_pipe pi f s) = f (the_pipe pi s)"
  by (simp add: the_pipe_def upd_pipe_def)

lemma upd_pipe_simps [simp]:
  "procs (upd_pipe pi f s) = procs s" "mem (upd_pipe pi f s) = mem s"
  by (simp_all add: upd_pipe_def)

lemma wakeup_loop_pipes [simp]: "pipes (wakeup_loop is cur ch s) = pipes s"
  by (induction "is" cur ch s rule: wakeup_loop.induct) (auto simp: make_runnable_def upd_proc_def Let_def)

lemma the_pipe_wakeup [simp]:
  "the_pipe pi (wakeup cur ch s) = the_pipe pi s" "the_pipe pi (sleep_enter i ch s) = the_pipe pi s"
  by (simp_all add: wakeup_def the_pipe_def sleep_enter_def upd_proc_def)

end
