(* ===== verification/File.thy ===== *)
theory File
  imports Pipe
begin

text \<open>
  Open files, \<^verbatim>\<open>kernel/file.c\<close>, and \<^verbatim>\<open>pipealloc\<close> of \<^verbatim>\<open>kernel/pipe.c\<close>.  A file pointer is an index
  into the file table.  A transfer on a pipe or a device that goes to sleep is \<open>Block\<close> here; the
  theories of those components say what has happened by then.
\<close>

datatype fdtype = FD_NONE | FD_PIPE | FD_INODE | FD_DEVICE

record file_obj =
  ftype :: fdtype
  fref :: int
  readable :: bool
  writable :: bool
  fpipe :: u64
  fip :: nat
  foff :: u32
  fmajor :: u16

text \<open>The device switch: the only device functions of the kernel are those of the console.\<close>

datatype dev_read = Consoleread
datatype dev_write = Consolewrite

record devsw_entry =
  dread :: "dev_read option"
  dwrite :: "dev_write option"

text \<open>\<open>stat_pad\<close> are the padding bytes of the \<^verbatim>\<open>struct stat\<close> on the kernel stack.\<close>

record filest = pipest +
  ftable :: "file_obj list"
  devsw :: "devsw_entry list"
  stat_pad :: "u8 list"

definition upd_file :: "nat \<Rightarrow> (file_obj \<Rightarrow> file_obj) \<Rightarrow> 'a filest_scheme \<Rightarrow> 'a filest_scheme" where
  "upd_file f g s = s\<lparr>ftable := (ftable s)[f := g (ftable s ! f)]\<rparr>"

definition consoleinit :: "'a filest_scheme \<Rightarrow> 'a filest_scheme" where
  "consoleinit s =
     (uartinit s)\<lparr>devsw := (devsw s)[1 := \<lparr>dread = Some Consoleread, dwrite = Some Consolewrite\<rparr>]\<rparr>"

section \<open>References\<close>

definition filealloc :: "'a filest_scheme \<Rightarrow> nat option \<times> 'a filest_scheme" where
  "filealloc s =
     (case first_index (\<lambda>f. fref f = 0) (ftable s) of
        None \<Rightarrow> (None, s)
      | Some f \<Rightarrow> (Some f, upd_file f (\<lambda>x. x\<lparr>fref := 1\<rparr>) s))"

definition filedup :: "nat \<Rightarrow> 'a filest_scheme \<Rightarrow> (nat \<times> 'a filest_scheme) res" where
  "filedup f s =
     (if fref (ftable s ! f) < 1 then Panic ''filedup''
      else OK (f, upd_file f (\<lambda>x. x\<lparr>fref := fref x + 1\<rparr>) s))"

definition fileclose :: "nat \<Rightarrow> nat \<Rightarrow> 'a filest_scheme \<Rightarrow> 'a filest_scheme res" where
  "fileclose cur f s =
     (let ff = ftable s ! f in
      if fref ff < 1 then Panic ''fileclose''
      else if fref ff - 1 > 0 then OK (upd_file f (\<lambda>x. x\<lparr>fref := fref x - 1\<rparr>) s)
      else
        (let s = upd_file f (\<lambda>x. x\<lparr>fref := 0, ftype := FD_NONE\<rparr>) s in
         case ftype ff of
           FD_PIPE \<Rightarrow> pipeclose cur (fpipe ff) (writable ff) s
         | FD_NONE \<Rightarrow> OK s
         | _ \<Rightarrow> rbind (begin_op s) (\<lambda>s. rbind (iput cur (fip ff) s) (end_op cur))))"

text \<open>
  \<^verbatim>\<open>pipealloc\<close>: \<open>Some (f0, f1)\<close> for success.  The data of the ring buffer is what the page holds.
\<close>

definition pipealloc :: "nat \<Rightarrow> 'a filest_scheme \<Rightarrow> ((nat \<times> nat) option \<times> 'a filest_scheme) res" where
  "pipealloc cur s =
     (let (f0, s) = filealloc s in
      case f0 of
        None \<Rightarrow> OK (None, s)
      | Some f0 \<Rightarrow>
          (let (f1, s) = filealloc s in
           case f1 of
             None \<Rightarrow> rbind (fileclose cur f0 s) (\<lambda>s. OK (None, s))
           | Some f1 \<Rightarrow>
               rbind (kalloc s) (\<lambda>(pi, s).
                 if pi = 0 then
                   rbind (fileclose cur f0 s) (\<lambda>s. rbind (fileclose cur f1 s) (\<lambda>s. OK (None, s)))
                 else
                   (let s = s\<lparr>pipes := (pipes s)(pi \<mapsto>
                               \<lparr>pdata = load_bytes (mem s) (pi + 24) PIPESIZE, nread = 0, nwrite = 0,
                                readopen = True, writeopen = True\<rparr>)\<rparr>;
                        s = upd_file f0 (\<lambda>x. x\<lparr>ftype := FD_PIPE, readable := True, writable := False, fpipe := pi\<rparr>) s;
                        s = upd_file f1 (\<lambda>x. x\<lparr>ftype := FD_PIPE, readable := False, writable := True, fpipe := pi\<rparr>) s
                    in OK (Some (f0, f1), s)))))"

section \<open>Data\<close>

definition filestat :: "nat \<Rightarrow> nat \<Rightarrow> u64 \<Rightarrow> 'a filest_scheme \<Rightarrow> (int \<times> 'a filest_scheme) res" where
  "filestat cur f addr s =
     (let ff = ftable s ! f in
      if ftype ff = FD_INODE \<or> ftype ff = FD_DEVICE then
        rbind (ilock cur (fip ff) s) (\<lambda>s.
          let st = stati (stat_pad s) (itable s ! fip ff) in
          rbind (iunlock cur (fip ff) s) (\<lambda>s.
          rbind (copyout (pagetable (procs s ! cur)) addr st s) (\<lambda>(r, s).
            OK (if r < 0 then - 1 else 0, s))))
      else OK (- 1, s))"

text \<open>The end of a transfer as the caller sees it.\<close>

fun run_result :: "'s run \<Rightarrow> (int \<times> 's) res" where
  "run_result (Done r s) = OK (r, s)"
| "run_result (Sleeps ch k s) = Block"

definition dev_ok :: "u16 \<Rightarrow> bool" where
  "dev_ok major \<longleftrightarrow> \<not> (sint major < 0 \<or> sint major \<ge> 10)"

definition fileread :: "nat \<Rightarrow> nat \<Rightarrow> u64 \<Rightarrow> int \<Rightarrow> 'a filest_scheme \<Rightarrow> (int \<times> 'a filest_scheme) res" where
  "fileread cur f addr n s =
     (let ff = ftable s ! f in
      if \<not> readable ff then OK (- 1, s)
      else
        (case ftype ff of
           FD_PIPE \<Rightarrow> rbind (piperead cur (fpipe ff) addr n s) run_result
         | FD_DEVICE \<Rightarrow>
             if \<not> dev_ok (fmajor ff) then OK (- 1, s)
             else
               (case dread (devsw s ! unat (fmajor ff)) of
                  None \<Rightarrow> OK (- 1, s)
                | Some Consoleread \<Rightarrow> rbind (consoleread cur True addr n s) run_result)
         | FD_INODE \<Rightarrow>
             rbind (ilock cur (fip ff) s) (\<lambda>s.
             rbind (readi cur (fip ff) (ToUser addr) (foff ff) (of_int n) s) (\<lambda>(r, _, s).
               let s = (if r > 0 then upd_file f (\<lambda>x. x\<lparr>foff := foff x + of_int r\<rparr>) s else s) in
               rbind (iunlock cur (fip ff) s) (\<lambda>s. OK (r, s))))
         | FD_NONE \<Rightarrow> Panic ''fileread''))"

text \<open>
  The loop of \<^verbatim>\<open>filewrite\<close>: transactions of at most \<^verbatim>\<open>((MAXOPBLOCKS-1-1-2) / 2) * BSIZE\<close> = 3072 bytes.
\<close>

abbreviation (input) max_write :: nat where "max_write \<equiv> 3072"

function filewrite_loop ::
  "nat \<Rightarrow> nat \<Rightarrow> u64 \<Rightarrow> nat \<Rightarrow> nat \<Rightarrow> 'a filest_scheme \<Rightarrow> (nat \<times> 'a filest_scheme) res"
where
  "filewrite_loop cur f addr n i s =
     (if i < n then
        (let n1 = min (n - i) max_write; ip = fip (ftable s ! f) in
         rbind (begin_op s) (\<lambda>s.
         rbind (ilock cur ip s) (\<lambda>s.
         rbind (writei cur ip (FromUser (addr + of_nat i)) (foff (ftable s ! f)) (of_nat n1) s) (\<lambda>(r, s).
           let s = (if r > 0 then upd_file f (\<lambda>x. x\<lparr>foff := foff x + of_int r\<rparr>) s else s) in
           rbind (iunlock cur ip s) (\<lambda>s.
           rbind (end_op cur s) (\<lambda>s.
             if r \<noteq> int n1 then OK (i, s) else filewrite_loop cur f addr n (i + n1) s))))))
      else OK (i, s))"
  by pat_completeness auto
termination
  by (relation "measure (\<lambda>(_, _, _, n, i, _). n - i)") auto

definition filewrite :: "nat \<Rightarrow> nat \<Rightarrow> u64 \<Rightarrow> int \<Rightarrow> 'a filest_scheme \<Rightarrow> (int \<times> 'a filest_scheme) res" where
  "filewrite cur f addr n s =
     (let ff = ftable s ! f in
      if \<not> writable ff then OK (- 1, s)
      else
        (case ftype ff of
           FD_PIPE \<Rightarrow> rbind (pipewrite cur (fpipe ff) addr n s) run_result
         | FD_DEVICE \<Rightarrow>
             if \<not> dev_ok (fmajor ff) then OK (- 1, s)
             else
               (case dwrite (devsw s ! unat (fmajor ff)) of
                  None \<Rightarrow> OK (- 1, s)
                | Some Consolewrite \<Rightarrow> rbind (consolewrite cur True addr n s) run_result)
         | FD_INODE \<Rightarrow>
             rbind (filewrite_loop cur f addr (nat n) 0 s) (\<lambda>(i, s).
               OK (if int i = n then n else - 1, s))
         | FD_NONE \<Rightarrow> Panic ''filewrite''))"

declare filewrite_loop.simps [simp del]

end
