(* ===== verification/Process.thy ===== *)
theory Process
  imports File
begin

text \<open>
  The life of a process, the rest of \<^verbatim>\<open>kernel/proc.c\<close>: \<^verbatim>\<open>userinit\<close>, \<^verbatim>\<open>fork\<close>, \<^verbatim>\<open>exit\<close>, \<^verbatim>\<open>wait\<close> and \<^verbatim>\<open>waitx\<close>.  The
  saved user registers are in the trapframe page of the process, at the offsets of
  \<^verbatim>\<open>struct trapframe\<close>.
\<close>

section \<open>Trapframes\<close>

abbreviation (input) TF_SIZE :: nat where "TF_SIZE \<equiv> 288"
abbreviation (input) TF_kernel_satp :: u64 where "TF_kernel_satp \<equiv> 0"
abbreviation (input) TF_kernel_sp :: u64 where "TF_kernel_sp \<equiv> 8"
abbreviation (input) TF_kernel_trap :: u64 where "TF_kernel_trap \<equiv> 16"
abbreviation (input) TF_epc :: u64 where "TF_epc \<equiv> 24"
abbreviation (input) TF_kernel_hartid :: u64 where "TF_kernel_hartid \<equiv> 32"
abbreviation (input) TF_sp :: u64 where "TF_sp \<equiv> 48"
abbreviation (input) TF_a0 :: u64 where "TF_a0 \<equiv> 112"
abbreviation (input) TF_a1 :: u64 where "TF_a1 \<equiv> 120"
abbreviation (input) TF_a7 :: u64 where "TF_a7 \<equiv> 168"

definition tf_get :: "nat \<Rightarrow> u64 \<Rightarrow> 'a ptable_scheme \<Rightarrow> u64" where
  "tf_get p r s = load64 (mem s) (trapframe (procs s ! p) + r)"

definition tf_set :: "nat \<Rightarrow> u64 \<Rightarrow> u64 \<Rightarrow> 'a ptable_scheme \<Rightarrow> 'a ptable_scheme" where
  "tf_set p r v s = s\<lparr>mem := store64 (mem s) (trapframe (procs s ! p) + r) v\<rparr>"

definition copy_frame :: "u64 \<Rightarrow> u64 \<Rightarrow> 'a kmem_scheme \<Rightarrow> 'a kmem_scheme" where
  "copy_frame dst src s = s\<lparr>mem := store_bytes (mem s) dst (load_bytes (mem s) src TF_SIZE)\<rparr>"

text \<open>
  \<^verbatim>\<open>safestrcpy\<close> into a buffer held by value.  After the loop has copied the NUL of a short string the
  code writes one more NUL behind it.
\<close>

definition bsafestrcpy :: "u8 list \<Rightarrow> u8 list \<Rightarrow> nat \<Rightarrow> u8 list" where
  "bsafestrcpy buf t n =
     (let cs = takeWhile (\<lambda>c. c \<noteq> 0) t in
      if n = 0 then buf
      else if length cs < n - 1 then splice 0 (cs @ [0, 0]) buf
      else splice 0 (take (n - 1) cs @ [0]) buf)"

section \<open>The first process\<close>

definition initcode :: "u8 list" where
  "initcode =
     [0x17, 0x05, 0x00, 0x00, 0x13, 0x05, 0x45, 0x02,
      0x97, 0x05, 0x00, 0x00, 0x93, 0x85, 0x35, 0x02,
      0x93, 0x08, 0x70, 0x00, 0x73, 0x00, 0x00, 0x00,
      0x93, 0x08, 0x20, 0x00, 0x73, 0x00, 0x00, 0x00,
      0xef, 0xf0, 0x9f, 0xff, 0x2f, 0x69, 0x6e, 0x69,
      0x74, 0x00, 0x00, 0x24, 0x00, 0x00, 0x00, 0x00,
      0x00, 0x00, 0x00, 0x00]"

definition userinit_ready :: "nat \<Rightarrow> 'a ptable_scheme \<Rightarrow> 'a ptable_scheme" where
  "userinit_ready p s =
     (let s = upd_proc p (\<lambda>q. q\<lparr>state := RUNNABLE\<rparr>) s in
      case policy s of
        MLFQ \<Rightarrow> upd_proc p (\<lambda>q. q\<lparr>queue := 0, intime := i32 (ticks s)\<rparr>) s
      | LBS \<Rightarrow> (upd_proc p (\<lambda>q. q\<lparr>tickets := 1\<rparr>) s)\<lparr>totaltickets := totaltickets s + 1\<rparr>
      | _ \<Rightarrow> s)"

definition userinit :: "'a filest_scheme \<Rightarrow> 'a filest_scheme res" where
  "userinit s =
     rbind (allocproc s) (\<lambda>(np, s).
       case np of
         None \<Rightarrow> kernel_fault
       | Some p \<Rightarrow>
           (let s = s\<lparr>initproc := Some p\<rparr> in
            rbind (uvmfirst (pagetable (procs s ! p)) initcode s) (\<lambda>s.
              let s = upd_proc p (\<lambda>q. q\<lparr>psz := PGSIZE\<rparr>) s;
                  s = tf_set p TF_sp PGSIZE (tf_set p TF_epc 0 s);
                  s = upd_proc p (\<lambda>q. q\<lparr>pname := bsafestrcpy (pname q) (map of_char ''initcode'') 16\<rparr>) s in
              rbind (namei p [SLASH] s) (\<lambda>(d, s).
                OK (userinit_ready p (upd_proc p (\<lambda>q. q\<lparr>cwd := d\<rparr>) s))))))"

section \<open>Fork\<close>

fun fork_files :: "nat \<Rightarrow> nat \<Rightarrow> nat list \<Rightarrow> 'a filest_scheme \<Rightarrow> 'a filest_scheme res" where
  "fork_files p np [] s = OK s"
| "fork_files p np (i # is) s =
     (case ofile (procs s ! p) ! i of
        None \<Rightarrow> fork_files p np is s
      | Some f \<Rightarrow>
          rbind (filedup f s) (\<lambda>(f, s).
            fork_files p np is (upd_proc np (\<lambda>q. q\<lparr>ofile := (ofile q)[i := Some f]\<rparr>) s)))"

definition fork :: "nat \<Rightarrow> 'a filest_scheme \<Rightarrow> (int \<times> 'a filest_scheme) res" where
  "fork p s =
     rbind (allocproc s) (\<lambda>(np, s).
       case np of
         None \<Rightarrow> OK (- 1, s)
       | Some np \<Rightarrow>
           rbind (uvmcopy (pagetable (procs s ! p)) (pagetable (procs s ! np)) (psz (procs s ! p)) s) (\<lambda>(r, s).
             if r < 0 then rbind (freeproc np s) (\<lambda>s. OK (- 1, s))
             else
               (let s = upd_proc np (\<lambda>q. q\<lparr>psz := psz (procs s ! p), trace := trace (procs s ! p),
                                             tracemask := tracemask (procs s ! p)\<rparr>) s;
                    s = copy_frame (trapframe (procs s ! np)) (trapframe (procs s ! p)) s;
                    s = tf_set np TF_a0 0 s in
                rbind (fork_files p np [0..<NOFILE] s) (\<lambda>s.
                  case cwd (procs s ! p) of
                    None \<Rightarrow> kernel_fault
                  | Some d \<Rightarrow>
                      (let (d, s) = idup d s;
                           s = upd_proc np (\<lambda>q. q\<lparr>cwd := Some d,
                                 pname := bsafestrcpy (pname q) (pname (procs s ! p)) 16\<rparr>) s;
                           npid = pid (procs s ! np);
                           s = upd_proc np (\<lambda>q. q\<lparr>parent := Some p\<rparr>) s
                       in OK (npid, fork_ready p np s))))))"

section \<open>Exit\<close>

definition proc_chan :: "nat option \<Rightarrow> channel" where
  "proc_chan p = (case p of None \<Rightarrow> Chan0 | Some i \<Rightarrow> ChProc i)"

fun reparent_loop :: "nat \<Rightarrow> nat list \<Rightarrow> 'a ptable_scheme \<Rightarrow> 'a ptable_scheme" where
  "reparent_loop p [] s = s"
| "reparent_loop p (i # is) s =
     (if parent (procs s ! i) = Some p then
        reparent_loop p is
          (wakeup (Some p) (proc_chan (initproc s)) (upd_proc i (\<lambda>q. q\<lparr>parent := initproc s\<rparr>) s))
      else reparent_loop p is s)"

definition reparent :: "nat \<Rightarrow> 'a ptable_scheme \<Rightarrow> 'a ptable_scheme" where
  "reparent p s = reparent_loop p [0..<NPROC] s"

fun exit_files :: "nat \<Rightarrow> nat list \<Rightarrow> 'a filest_scheme \<Rightarrow> 'a filest_scheme res" where
  "exit_files p [] s = OK s"
| "exit_files p (fd # fds) s =
     (case ofile (procs s ! p) ! fd of
        None \<Rightarrow> exit_files p fds s
      | Some f \<Rightarrow>
          rbind (fileclose p f s) (\<lambda>s.
            exit_files p fds (upd_proc p (\<lambda>q. q\<lparr>ofile := (ofile q)[fd := None]\<rparr>) s)))"

text \<open>
  \<^verbatim>\<open>exit\<close> up to its call of \<^verbatim>\<open>sched\<close>, from which it does not come back: the result is the state in
  which the scheduler of its CPU continues.
\<close>

definition exit_proc :: "nat \<Rightarrow> int \<Rightarrow> 'a filest_scheme \<Rightarrow> 'a filest_scheme res" where
  "exit_proc p status s =
     (if initproc s = Some p then Panic ''init exiting''
      else
        rbind (exit_files p [0..<NOFILE] s) (\<lambda>s.
        rbind (begin_op s) (\<lambda>s.
          case cwd (procs s ! p) of
            None \<Rightarrow> kernel_fault
          | Some d \<Rightarrow>
              rbind (iput p d s) (\<lambda>s.
              rbind (end_op p s) (\<lambda>s.
                let s = upd_proc p (\<lambda>q. q\<lparr>cwd := None\<rparr>) s;
                    s = reparent p s;
                    s = wakeup (Some p) (proc_chan (parent (procs s ! p))) s
                in OK (exit_zombie p status s))))))"

section \<open>Wait\<close>

definition is_child :: "nat \<Rightarrow> proc \<Rightarrow> bool" where
  "is_child p q \<longleftrightarrow> parent q = Some p"

text \<open>
  \<^verbatim>\<open>wait\<close> and \<^verbatim>\<open>waitx\<close> up to their return or to the first time they sleep; a woken waiter scans
  again.  \<^verbatim>\<open>waitx\<close> returns \<open>Some (wtime, rtime)\<close> when it has written its two output variables.
\<close>

definition wait :: "nat \<Rightarrow> u64 \<Rightarrow> 'a ptable_scheme \<Rightarrow> 'a ptable_scheme run res" where
  "wait p addr s =
     (case first_index (\<lambda>q. is_child p q \<and> state q = ZOMBIE) (procs s) of
        Some i \<Rightarrow>
          (let cpid = pid (procs s ! i) in
           rbind (if addr \<noteq> 0
                  then copyout (pagetable (procs s ! p)) addr (le_bytes 4 (of_int (xstate (procs s ! i)) :: u32)) s
                  else OK (0, s)) (\<lambda>(r, s).
             if r < 0 then OK (Done (- 1) s)
             else rbind (freeproc i s) (\<lambda>s. OK (Done cpid s))))
      | None \<Rightarrow>
          if (\<forall>q \<in> set (procs s). \<not> is_child p q) \<or> killed p s \<noteq> 0 then OK (Done (- 1) s)
          else OK (Sleeps (ChProc p) 0 (sleep_enter p (ChProc p) s)))"

definition waitx ::
  "nat \<Rightarrow> u64 \<Rightarrow> 'a ptable_scheme \<Rightarrow> ((int \<times> int) option \<times> 'a ptable_scheme run) res" where
  "waitx p addr s =
     (case first_index (\<lambda>q. is_child p q \<and> state q = ZOMBIE) (procs s) of
        Some i \<Rightarrow>
          (let q = procs s ! i; cpid = pid q; rt = rtime q; wt = ui32 (etime q - ctime q - rtime q) in
           rbind (if addr \<noteq> 0
                  then copyout (pagetable (procs s ! p)) addr (le_bytes 4 (of_int (xstate q) :: u32)) s
                  else OK (0, s)) (\<lambda>(r, s).
             if r < 0 then OK (Some (wt, rt), Done (- 1) s)
             else rbind (freeproc i s) (\<lambda>s. OK (Some (wt, rt), Done cpid s))))
      | None \<Rightarrow>
          if (\<forall>q \<in> set (procs s). \<not> is_child p q) \<or> killed p s \<noteq> 0 then OK (None, Done (- 1) s)
          else OK (None, Sleeps (ChProc p) 0 (sleep_enter p (ChProc p) s)))"

end
