(* ===== verification/Sysproc.thy ===== *)
theory Sysproc
  imports Process
begin

text \<open>
  System-call arguments (\<^verbatim>\<open>fetchaddr\<close> to \<^verbatim>\<open>argstr\<close> of \<^verbatim>\<open>kernel/syscall.c\<close>) and the system calls of
  \<^verbatim>\<open>kernel/sysproc.c\<close>.
\<close>

section \<open>Arguments\<close>

definition fetchaddr :: "nat \<Rightarrow> u64 \<Rightarrow> 'a ptable_scheme \<Rightarrow> (int \<times> u64) res" where
  "fetchaddr cur addr s =
     (let p = procs s ! cur in
      if addr \<ge> psz p \<or> addr + 8 > psz p then OK (- 1, 0)
      else rbind (copyin (pagetable p) addr 8 s) (\<lambda>(r, bs).
             OK (if r \<noteq> 0 then (- 1, 0) else (0, le_word bs))))"

text \<open>The string is returned without its NUL; its length is the result on success.\<close>

definition fetchstr :: "nat \<Rightarrow> u64 \<Rightarrow> nat \<Rightarrow> 'a ptable_scheme \<Rightarrow> (int \<times> u8 list) res" where
  "fetchstr cur addr max_len s =
     rbind (copyinstr (pagetable (procs s ! cur)) addr max_len s) (\<lambda>(r, bs).
       if r < 0 then OK (- 1, bs)
       else (let str = takeWhile (\<lambda>c. c \<noteq> 0) bs in OK (int (length str), str)))"

definition argraw :: "nat \<Rightarrow> nat \<Rightarrow> 'a ptable_scheme \<Rightarrow> u64 res" where
  "argraw cur n s =
     (if n < 6 then OK (tf_get cur (TF_a0 + 8 * of_nat n) s) else Panic ''argraw'')"

definition argint :: "nat \<Rightarrow> nat \<Rightarrow> 'a ptable_scheme \<Rightarrow> int res" where
  "argint cur n s = rbind (argraw cur n s) (\<lambda>v. OK (i32 (uint v)))"

definition argaddr :: "nat \<Rightarrow> nat \<Rightarrow> 'a ptable_scheme \<Rightarrow> u64 res" where
  "argaddr cur n s = argraw cur n s"

definition argstr :: "nat \<Rightarrow> nat \<Rightarrow> nat \<Rightarrow> 'a ptable_scheme \<Rightarrow> (int \<times> u8 list) res" where
  "argstr cur n max_len s = rbind (argaddr cur n s) (\<lambda>addr. fetchstr cur addr max_len s)"

section \<open>Outcomes\<close>

text \<open>
  A system call returns a value, does not return because the process has exited, is asleep on a
  channel, or has given up the CPU and returns the value when it is scheduled again.
\<close>

datatype 's sysret = Ret u64 's | Exited 's | Asleep channel 's | Yielded u64 's

fun sys_run :: "'s run \<Rightarrow> 's sysret" where
  "sys_run (Done r s) = Ret (of_int r) s"
| "sys_run (Sleeps ch k s) = Asleep ch s"

section \<open>System calls on processes\<close>

definition sys_exit :: "nat \<Rightarrow> 'a filest_scheme \<Rightarrow> 'a filest_scheme sysret res" where
  "sys_exit cur s = rbind (argint cur 0 s) (\<lambda>n. rbind (exit_proc cur n s) (\<lambda>s. OK (Exited s)))"

definition sys_getpid :: "nat \<Rightarrow> 'a filest_scheme \<Rightarrow> 'a filest_scheme sysret res" where
  "sys_getpid cur s = OK (Ret (of_int (pid (procs s ! cur))) s)"

definition sys_fork :: "nat \<Rightarrow> 'a filest_scheme \<Rightarrow> 'a filest_scheme sysret res" where
  "sys_fork cur s = rbind (fork cur s) (\<lambda>(r, s). OK (Ret (of_int r) s))"

definition sys_wait :: "nat \<Rightarrow> 'a filest_scheme \<Rightarrow> 'a filest_scheme sysret res" where
  "sys_wait cur s = rbind (argaddr cur 0 s) (\<lambda>p. rbind (wait cur p s) (\<lambda>r. OK (sys_run r)))"

definition sys_sbrk :: "nat \<Rightarrow> 'a filest_scheme \<Rightarrow> 'a filest_scheme sysret res" where
  "sys_sbrk cur s =
     rbind (argint cur 0 s) (\<lambda>n.
       let addr = psz (procs s ! cur) in
       rbind (growproc cur n s) (\<lambda>(r, s).
         OK (Ret (if r < 0 then - 1 else addr) s)))"

text \<open>
  The waiting loop of \<^verbatim>\<open>sys_sleep\<close>: the comparison with the signed argument is unsigned.  A woken
  sleeper checks again with the same \<open>ticks0\<close>.
\<close>

definition sleep_until :: "nat \<Rightarrow> int \<Rightarrow> int \<Rightarrow> 'a ptable_scheme \<Rightarrow> 'a ptable_scheme run" where
  "sleep_until cur ticks0 n s =
     (if ui32 (ticks s - ticks0) < ui32 n then
        (if killed cur s \<noteq> 0 then Done (- 1) s
         else Sleeps ChTicks 0 (sleep_enter cur ChTicks s))
      else Done 0 s)"

definition sys_sleep :: "nat \<Rightarrow> 'a filest_scheme \<Rightarrow> 'a filest_scheme sysret res" where
  "sys_sleep cur s = rbind (argint cur 0 s) (\<lambda>n. OK (sys_run (sleep_until cur (ticks s) n s)))"

definition sys_kill :: "nat \<Rightarrow> 'a filest_scheme \<Rightarrow> 'a filest_scheme sysret res" where
  "sys_kill cur s = rbind (argint cur 0 s) (\<lambda>k. let (r, s) = kill k s in OK (Ret (of_int r) s))"

definition sys_uptime :: "nat \<Rightarrow> 'a filest_scheme \<Rightarrow> 'a filest_scheme sysret res" where
  "sys_uptime cur s = OK (Ret (of_int (ui32 (ticks s))) s)"

section \<open>Alarms and tracing\<close>

definition sys_sigalarm :: "nat \<Rightarrow> 'a filest_scheme \<Rightarrow> 'a filest_scheme sysret res" where
  "sys_sigalarm cur s =
     rbind (argint cur 0 s) (\<lambda>n.
     rbind (argaddr cur 1 s) (\<lambda>addr.
       OK (Ret 0 (upd_proc cur (\<lambda>p.
         p\<lparr>sigalarm := (if n > 0 then 1 else 0), ticksn := n, tickspa := ticksp p, handler := addr\<rparr>) s))))"

text \<open>\<^verbatim>\<open>sys_sigreturn\<close> keeps the four kernel words of the trapframe and restores the rest.\<close>

definition keep_kernel_words :: "u64 \<Rightarrow> u64 \<Rightarrow> 'a kmem_scheme \<Rightarrow> 'a kmem_scheme" where
  "keep_kernel_words tc tf s =
     (let m = mem s;
          m = store64 m (tc + TF_kernel_hartid) (load64 m (tf + TF_kernel_hartid));
          m = store64 m (tc + TF_kernel_satp) (load64 m (tf + TF_kernel_satp));
          m = store64 m (tc + TF_kernel_sp) (load64 m (tf + TF_kernel_sp));
          m = store64 m (tc + TF_kernel_trap) (load64 m (tf + TF_kernel_trap))
      in s\<lparr>mem := m\<rparr>)"

definition sys_sigreturn :: "nat \<Rightarrow> 'a filest_scheme \<Rightarrow> 'a filest_scheme sysret res" where
  "sys_sigreturn cur s =
     (let tf = trapframe (procs s ! cur); tc = trapcopy (procs s ! cur);
          s = copy_frame tf tc (keep_kernel_words tc tf s);
          s = upd_proc cur (\<lambda>p. p\<lparr>sigalarm := (if ticksn p > 0 then 1 else 0), tickspa := ticksp p\<rparr>) s
      in OK (Ret (tf_get cur TF_a0 s) s))"

definition sys_trace :: "nat \<Rightarrow> 'a filest_scheme \<Rightarrow> 'a filest_scheme sysret res" where
  "sys_trace cur s =
     rbind (argint cur 0 s) (\<lambda>mask.
       OK (Ret 0 (upd_proc cur (\<lambda>p. p\<lparr>trace := 1, tracemask := mask\<rparr>) s)))"

section \<open>Scheduling parameters\<close>

definition sys_set_priority :: "nat \<Rightarrow> 'a filest_scheme \<Rightarrow> 'a filest_scheme sysret res" where
  "sys_set_priority cur s =
     rbind (argint cur 0 s) (\<lambda>np.
     rbind (argint cur 1 s) (\<lambda>k.
       let (old, yields, s) = set_priority np k s in
       if yields then OK (Yielded (of_int old) (yield_proc cur s)) else OK (Ret (of_int old) s)))"

definition sys_settickets :: "nat \<Rightarrow> 'a filest_scheme \<Rightarrow> 'a filest_scheme sysret res" where
  "sys_settickets cur s =
     rbind (argint cur 0 s) (\<lambda>n. let (r, s) = settickets cur n s in OK (Ret (of_int r) s))"

text \<open>
  \<^verbatim>\<open>sys_waitx\<close> copies its two local variables out whatever \<^verbatim>\<open>waitx\<close> returned; \<open>junk\<close> is what they hold
  when \<^verbatim>\<open>waitx\<close> has not assigned them.
\<close>

definition sys_waitx :: "int \<times> int \<Rightarrow> nat \<Rightarrow> 'a filest_scheme \<Rightarrow> 'a filest_scheme sysret res" where
  "sys_waitx junk cur s =
     rbind (argaddr cur 0 s) (\<lambda>addr.
     rbind (argaddr cur 1 s) (\<lambda>addr1.
     rbind (argaddr cur 2 s) (\<lambda>addr2.
     rbind (waitx cur addr s) (\<lambda>(times, r).
       let (wt, rt) = (case times of Some wr \<Rightarrow> wr | None \<Rightarrow> junk) in
       case r of
         Sleeps ch k s \<Rightarrow> OK (Asleep ch s)
       | Done ret s \<Rightarrow>
           rbind (copyout (pagetable (procs s ! cur)) addr1 (le_bytes 4 (of_int wt :: u32)) s) (\<lambda>(r1, s).
             if r1 < 0 then OK (Ret (- 1) s)
             else
               rbind (copyout (pagetable (procs s ! cur)) addr2 (le_bytes 4 (of_int rt :: u32)) s) (\<lambda>(r2, s).
                 OK (Ret (if r2 < 0 then - 1 else of_int ret) s)))))))"

end
