(* ===== verification/Exec.thy ===== *)
theory Exec
  imports Sysproc
begin

text \<open>
  \<^verbatim>\<open>kernel/exec.c\<close>: loading an ELF image into a fresh page table, building the argument stack, and
  replacing the image of the current process.  The arguments are the byte strings in the pages
  \<^verbatim>\<open>sys_exec\<close> filled.
\<close>

section \<open>ELF headers (elf.h)\<close>

abbreviation (input) ELF_MAGIC :: u32 where "ELF_MAGIC \<equiv> 0x464C457F"

record elfhdr =
  elf_magic :: u32
  elf_entry :: u64
  elf_phoff :: u64
  elf_phnum :: u16

definition get64 :: "nat \<Rightarrow> u8 list \<Rightarrow> u64" where
  "get64 off d = le_word (slice off 8 d)"

definition parse_elfhdr :: "u8 list \<Rightarrow> elfhdr" where
  "parse_elfhdr d =
     \<lparr>elf_magic = get32 0 d, elf_entry = get64 24 d, elf_phoff = get64 32 d, elf_phnum = get16 56 d\<rparr>"

record proghdr =
  ph_type :: u32
  ph_flags :: u32
  ph_off :: u64
  ph_vaddr :: u64
  ph_filesz :: u64
  ph_memsz :: u64

definition parse_proghdr :: "u8 list \<Rightarrow> proghdr" where
  "parse_proghdr d =
     \<lparr>ph_type = get32 0 d, ph_flags = get32 4 d, ph_off = get64 8 d, ph_vaddr = get64 16 d,
      ph_filesz = get64 32 d, ph_memsz = get64 40 d\<rparr>"

definition flags2perm :: "u32 \<Rightarrow> u64" where
  "flags2perm flags =
     (let perm = (if flags AND 1 \<noteq> 0 then PTE_X else 0)
      in if flags AND 2 \<noteq> 0 then perm OR PTE_W else perm)"

section \<open>Segments\<close>

text \<open>
  \<^verbatim>\<open>loadseg\<close>: the counter is a 32-bit \<^verbatim>\<open>uint\<close>; the loop ends because it grows by a page below \<open>sz\<close>.
  For \<open>sz\<close> within a page of 4 GiB the C counter wraps around and the loop does not end; the model
  runs over natural numbers.
\<close>

function loadseg_loop ::
  "nat \<Rightarrow> u64 \<Rightarrow> u64 \<Rightarrow> nat \<Rightarrow> u32 \<Rightarrow> nat \<Rightarrow> nat \<Rightarrow> 'a fsst_scheme \<Rightarrow> (int \<times> 'a fsst_scheme) res"
where
  "loadseg_loop cur pt va ip off sz i s =
     (if i < sz then
        rbind (walkaddr pt (va + of_nat i) s) (\<lambda>pa.
          if pa = 0 then Panic ''loadseg: address should exist''
          else
            (let n = (if sz - i < 4096 then sz - i else 4096) in
             rbind (readi cur ip (ToKernel pa) (off + of_nat i) (of_nat n) s) (\<lambda>(r, _, s).
               if r \<noteq> int n then OK (- 1, s) else loadseg_loop cur pt va ip off sz (i + 4096) s)))
      else OK (0, s))"
  by pat_completeness auto
termination
  by (relation "measure (\<lambda>(_, _, _, _, _, sz, i, _). sz - i)") auto

definition loadseg ::
  "nat \<Rightarrow> u64 \<Rightarrow> u64 \<Rightarrow> nat \<Rightarrow> u32 \<Rightarrow> u32 \<Rightarrow> 'a fsst_scheme \<Rightarrow> (int \<times> 'a fsst_scheme) res" where
  "loadseg cur pt va ip off sz s = loadseg_loop cur pt va ip off (unat sz) 0 s"

text \<open>The loop over the program headers: whether it succeeded, and the size reached.\<close>

fun load_headers ::
  "nat \<Rightarrow> u64 \<Rightarrow> nat \<Rightarrow> nat \<Rightarrow> u32 \<Rightarrow> u64 \<Rightarrow> 'a fsst_scheme \<Rightarrow> (bool \<times> u64 \<times> 'a fsst_scheme) res"
where
  "load_headers cur pt ip 0 off sz s = OK (True, sz, s)"
| "load_headers cur pt ip (Suc k) off sz s =
     rbind (readi cur ip ToLocal off 56 s) (\<lambda>(r, bs, s).
       let ph = parse_proghdr bs in
       if r \<noteq> 56 then OK (False, sz, s)
       else if ph_type ph \<noteq> 1 then load_headers cur pt ip k (off + 56) sz s
       else if ph_memsz ph < ph_filesz ph then OK (False, sz, s)
       else if ph_vaddr ph + ph_memsz ph < ph_vaddr ph then OK (False, sz, s)
       else if ph_vaddr ph mod PGSIZE \<noteq> 0 then OK (False, sz, s)
       else
         rbind (uvmalloc pt sz (ph_vaddr ph + ph_memsz ph) (flags2perm (ph_flags ph)) s) (\<lambda>(sz1, s).
           if sz1 = 0 then OK (False, sz, s)
           else
             rbind (loadseg cur pt (ph_vaddr ph) ip (ucast (ph_off ph)) (ucast (ph_filesz ph)) s) (\<lambda>(r, s).
               if r < 0 then OK (False, sz1, s)
               else load_headers cur pt ip k (off + 56) sz1 s)))"

section \<open>The argument stack\<close>

text \<open>
  The loop over \<^verbatim>\<open>argv\<close>: \<open>Some\<close> the final stack pointer and the pointers pushed, or failure.
\<close>

fun push_args ::
  "u64 \<Rightarrow> u64 \<Rightarrow> u8 list list \<Rightarrow> u64 \<Rightarrow> u64 list \<Rightarrow> 'a kmem_scheme \<Rightarrow> ((u64 \<times> u64 list) option \<times> 'a kmem_scheme) res"
where
  "push_args pt stackbase [] sp us s = OK (Some (sp, us), s)"
| "push_args pt stackbase (a # as) sp us s =
     (if length us \<ge> MAXARG then OK (None, s)
      else
        (let sp = sp - of_nat (length a + 1); sp = sp - sp mod 16 in
         if sp < stackbase then OK (None, s)
         else
           rbind (copyout pt sp (a @ [0]) s) (\<lambda>(r, s).
             if r < 0 then OK (None, s) else push_args pt stackbase as sp (us @ [sp]) s)))"

definition push_argv ::
  "u64 \<Rightarrow> u64 \<Rightarrow> u64 \<Rightarrow> u64 list \<Rightarrow> 'a kmem_scheme \<Rightarrow> (u64 option \<times> 'a kmem_scheme) res" where
  "push_argv pt stackbase sp us s =
     (let ustack = us @ [0];
          sp = sp - of_nat (length ustack * 8); sp = sp - sp mod 16 in
      if sp < stackbase then OK (None, s)
      else rbind (copyout pt sp (concat (map (le_bytes 8) ustack)) s) (\<lambda>(r, s).
             OK (if r < 0 then None else Some sp, s)))"

definition last_elem :: "u8 list \<Rightarrow> u8 list" where
  "last_elem path = rev (takeWhile (\<lambda>c. c \<noteq> SLASH) (rev path))"

section \<open>exec\<close>

text \<open>The exits through \<^verbatim>\<open>bad\<close>, before and after the inode is released.\<close>

definition exec_bad :: "nat \<Rightarrow> u64 \<Rightarrow> u64 \<Rightarrow> nat option \<Rightarrow> 'a fsst_scheme \<Rightarrow> (int \<times> 'a fsst_scheme) res" where
  "exec_bad cur pt sz ip s =
     rbind (if pt \<noteq> 0 then proc_freepagetable pt sz s else OK s) (\<lambda>s.
       case ip of
         None \<Rightarrow> OK (- 1, s)
       | Some ip \<Rightarrow> rbind (iunlockput cur ip s) (\<lambda>s. rbind (end_op cur s) (\<lambda>s. OK (- 1, s))))"

definition exec_commit ::
  "nat \<Rightarrow> u8 list \<Rightarrow> u64 \<Rightarrow> u64 \<Rightarrow> u64 \<Rightarrow> u64 \<Rightarrow> 'a fsst_scheme \<Rightarrow> 'a fsst_scheme res" where
  "exec_commit cur path pt sz sp entry s =
     (let s = tf_set cur TF_a1 sp s;
          s = upd_proc cur (\<lambda>p. p\<lparr>pname := bsafestrcpy (pname p) (last_elem path) 16\<rparr>) s;
          oldpagetable = pagetable (procs s ! cur);
          oldsz = psz (procs s ! cur);
          s = upd_proc cur (\<lambda>p. p\<lparr>pagetable := pt, psz := sz\<rparr>) s;
          s = tf_set cur TF_sp sp (tf_set cur TF_epc entry s)
      in proc_freepagetable oldpagetable oldsz s)"

definition exec_stack ::
  "nat \<Rightarrow> u8 list \<Rightarrow> u8 list list \<Rightarrow> u64 \<Rightarrow> u64 \<Rightarrow> u64 \<Rightarrow> 'a fsst_scheme \<Rightarrow> (int \<times> 'a fsst_scheme) res" where
  "exec_stack cur path argv pt sz entry s =
     (let sz = PGROUNDUP sz in
      rbind (uvmalloc pt sz (sz + 2 * PGSIZE) PTE_W s) (\<lambda>(sz1, s).
        if sz1 = 0 then exec_bad cur pt sz None s
        else
          rbind (uvmclear pt (sz1 - 2 * PGSIZE) s) (\<lambda>s.
            let stackbase = sz1 - PGSIZE in
            rbind (push_args pt stackbase argv sz1 [] s) (\<lambda>(r, s).
              case r of
                None \<Rightarrow> exec_bad cur pt sz1 None s
              | Some (sp, us) \<Rightarrow>
                  rbind (push_argv pt stackbase sp us s) (\<lambda>(r, s).
                    case r of
                      None \<Rightarrow> exec_bad cur pt sz1 None s
                    | Some sp \<Rightarrow>
                        rbind (exec_commit cur path pt sz1 sp entry s) (\<lambda>s. OK (int (length argv), s)))))))"

definition exec :: "nat \<Rightarrow> u8 list \<Rightarrow> u8 list list \<Rightarrow> 'a fsst_scheme \<Rightarrow> (int \<times> 'a fsst_scheme) res" where
  "exec cur path argv s =
     rbind (begin_op s) (\<lambda>s.
     rbind (namei cur path s) (\<lambda>(r, s).
       case r of
         None \<Rightarrow> rbind (end_op cur s) (\<lambda>s. OK (- 1, s))
       | Some ip \<Rightarrow>
           rbind (ilock cur ip s) (\<lambda>s.
           rbind (readi cur ip ToLocal 0 64 s) (\<lambda>(r, bs, s).
             let elf = parse_elfhdr bs in
             if r \<noteq> 64 \<or> elf_magic elf \<noteq> ELF_MAGIC then exec_bad cur 0 0 (Some ip) s
             else
               rbind (proc_pagetable (procs s ! cur) s) (\<lambda>(pt, s).
                 if pt = 0 then exec_bad cur 0 0 (Some ip) s
                 else
                   rbind (load_headers cur pt ip (unat (elf_phnum elf)) (ucast (elf_phoff elf)) 0 s)
                     (\<lambda>(ok, sz, s).
                       if \<not> ok then exec_bad cur pt sz (Some ip) s
                       else
                         rbind (iunlockput cur ip s) (\<lambda>s.
                         rbind (end_op cur s) (\<lambda>s.
                           exec_stack cur path argv pt sz (elf_entry elf) s))))))))"

declare loadseg_loop.simps [simp del]

end
