(* ===== verification/Sysfile.thy ===== *)
theory Sysfile
  imports Exec
begin

text \<open>
  The file-system calls, \<^verbatim>\<open>kernel/sysfile.c\<close>.  A path argument is a byte string without its NUL.
\<close>

section \<open>Descriptors\<close>

definition argfd :: "nat \<Rightarrow> nat \<Rightarrow> 'a filest_scheme \<Rightarrow> (nat \<times> nat) option res" where
  "argfd cur n s =
     rbind (argint cur n s) (\<lambda>fd.
       if fd < 0 \<or> fd \<ge> int NOFILE then OK None
       else OK (map_option (\<lambda>f. (nat fd, f)) (ofile (procs s ! cur) ! nat fd)))"

definition set_ofile :: "nat \<Rightarrow> nat \<Rightarrow> nat option \<Rightarrow> 'a ptable_scheme \<Rightarrow> 'a ptable_scheme" where
  "set_ofile cur fd f s = upd_proc cur (\<lambda>p. p\<lparr>ofile := (ofile p)[fd := f]\<rparr>) s"

definition fdalloc :: "nat \<Rightarrow> nat \<Rightarrow> 'a ptable_scheme \<Rightarrow> nat option \<times> 'a ptable_scheme" where
  "fdalloc cur f s =
     (case first_index (\<lambda>x. x = None) (ofile (procs s ! cur)) of
        None \<Rightarrow> (None, s)
      | Some fd \<Rightarrow> (Some fd, set_ofile cur fd (Some f) s))"

text \<open>Calls that begin with \<^verbatim>\<open>argfd(0, ...)\<close> and return -1 when it fails.\<close>

definition with_fd ::
  "nat \<Rightarrow> 'a filest_scheme \<Rightarrow> (nat \<Rightarrow> nat \<Rightarrow> 'a filest_scheme sysret res) \<Rightarrow> 'a filest_scheme sysret res" where
  "with_fd cur s k =
     rbind (argfd cur 0 s) (\<lambda>r. case r of None \<Rightarrow> OK (Ret (- 1) s) | Some (fd, f) \<Rightarrow> k fd f)"

definition ret_int :: "int \<times> 's \<Rightarrow> 's sysret res" where
  "ret_int r = OK (Ret (of_int (fst r)) (snd r))"

definition sys_dup :: "nat \<Rightarrow> 'a filest_scheme \<Rightarrow> 'a filest_scheme sysret res" where
  "sys_dup cur s =
     with_fd cur s (\<lambda>_ f.
       let (fd, s) = fdalloc cur f s in
       case fd of
         None \<Rightarrow> OK (Ret (- 1) s)
       | Some fd \<Rightarrow> rbind (filedup f s) (\<lambda>(_, s). OK (Ret (of_nat fd) s)))"

definition sys_read :: "nat \<Rightarrow> 'a filest_scheme \<Rightarrow> 'a filest_scheme sysret res" where
  "sys_read cur s =
     rbind (argaddr cur 1 s) (\<lambda>p.
     rbind (argint cur 2 s) (\<lambda>n.
       with_fd cur s (\<lambda>_ f. rbind (fileread cur f p n s) ret_int)))"

definition sys_write :: "nat \<Rightarrow> 'a filest_scheme \<Rightarrow> 'a filest_scheme sysret res" where
  "sys_write cur s =
     rbind (argaddr cur 1 s) (\<lambda>p.
     rbind (argint cur 2 s) (\<lambda>n.
       with_fd cur s (\<lambda>_ f. rbind (filewrite cur f p n s) ret_int)))"

definition sys_close :: "nat \<Rightarrow> 'a filest_scheme \<Rightarrow> 'a filest_scheme sysret res" where
  "sys_close cur s =
     with_fd cur s (\<lambda>fd f.
       rbind (fileclose cur f (set_ofile cur fd None s)) (\<lambda>s. OK (Ret 0 s)))"

definition sys_fstat :: "nat \<Rightarrow> 'a filest_scheme \<Rightarrow> 'a filest_scheme sysret res" where
  "sys_fstat cur s =
     rbind (argaddr cur 1 s) (\<lambda>st.
       with_fd cur s (\<lambda>_ f. rbind (filestat cur f st s) ret_int))"

section \<open>Links\<close>

text \<open>The failure exit of a call inside a transaction.\<close>

definition end_fail :: "nat \<Rightarrow> 'a filest_scheme \<Rightarrow> 'a filest_scheme sysret res" where
  "end_fail cur s = rbind (end_op cur s) (\<lambda>s. OK (Ret (- 1) s))"

definition upd_nlink :: "nat \<Rightarrow> u16 \<Rightarrow> 'a fsst_scheme \<Rightarrow> 'a fsst_scheme" where
  "upd_nlink ip d s = upd_inode ip (\<lambda>n. n\<lparr>inlink := inlink n + d\<rparr>) s"

definition link_bad :: "nat \<Rightarrow> nat \<Rightarrow> 'a filest_scheme \<Rightarrow> 'a filest_scheme sysret res" where
  "link_bad cur ip s =
     rbind (ilock cur ip s) (\<lambda>s.
     rbind (iupdate cur ip (upd_nlink ip (- 1) s)) (\<lambda>s.
     rbind (iunlockput cur ip s) (end_fail cur)))"

definition sys_link :: "nat \<Rightarrow> 'a filest_scheme \<Rightarrow> 'a filest_scheme sysret res" where
  "sys_link cur s =
     rbind (argstr cur 0 MAXPATH s) (\<lambda>(r0, old).
     if r0 < 0 then OK (Ret (- 1) s) else
     rbind (argstr cur 1 MAXPATH s) (\<lambda>(r1, new).
     if r1 < 0 then OK (Ret (- 1) s) else
     rbind (begin_op s) (\<lambda>s.
     rbind (namei cur old s) (\<lambda>(r, s).
       case r of
         None \<Rightarrow> end_fail cur s
       | Some ip \<Rightarrow>
           rbind (ilock cur ip s) (\<lambda>s.
             if itype (itable s ! ip) = T_DIR then rbind (iunlockput cur ip s) (end_fail cur)
             else
               rbind (iupdate cur ip (upd_nlink ip 1 s)) (\<lambda>s.
               rbind (iunlock cur ip s) (\<lambda>s.
               rbind (nameiparent cur new s) (\<lambda>(r, name, s).
                 case r of
                   None \<Rightarrow> link_bad cur ip s
                 | Some dp \<Rightarrow>
                     rbind (ilock cur dp s) (\<lambda>s.
                     rbind (if idev (itable s ! dp) \<noteq> idev (itable s ! ip) then OK (- 1, s)
                            else dirlink cur dp name (inum (itable s ! ip)) s) (\<lambda>(r, s).
                       if r < 0 then rbind (iunlockput cur dp s) (link_bad cur ip)
                       else
                         rbind (iunlockput cur dp s) (\<lambda>s.
                         rbind (iput cur ip s) (\<lambda>s.
                         rbind (end_op cur s) (\<lambda>s. OK (Ret 0 s))))))))))))))"

function isdirempty_loop :: "nat \<Rightarrow> nat \<Rightarrow> nat \<Rightarrow> 'a fsst_scheme \<Rightarrow> (bool \<times> 'a fsst_scheme) res" where
  "isdirempty_loop cur dp off s =
     (if off < unat (isize (itable s ! dp)) then
        rbind (readi cur dp ToLocal (of_nat off) 16 s) (\<lambda>(r, de, s).
          if r \<noteq> 16 then Panic ''isdirempty: readi''
          else if de_inum de \<noteq> 0 then OK (False, s)
          else isdirempty_loop cur dp (off + 16) s)
      else OK (True, s))"
  by pat_completeness auto
termination
proof (relation "measure (\<lambda>(_, _, off, _). 2 ^ 32 - off)", goal_cases)
  case (2 cur dp off s)
  then show ?case using unsigned_less[where ?'a = nat, of "isize (itable s ! dp)"] by auto
qed simp

definition isdirempty :: "nat \<Rightarrow> nat \<Rightarrow> 'a fsst_scheme \<Rightarrow> (bool \<times> 'a fsst_scheme) res" where
  "isdirempty cur dp s = isdirempty_loop cur dp 32 s"

definition unlink_bad :: "nat \<Rightarrow> nat \<Rightarrow> 'a filest_scheme \<Rightarrow> 'a filest_scheme sysret res" where
  "unlink_bad cur dp s = rbind (iunlockput cur dp s) (end_fail cur)"

text \<open>The part of \<^verbatim>\<open>sys_unlink\<close> after the entry has been found.\<close>

definition unlink_entry :: "nat \<Rightarrow> nat \<Rightarrow> nat \<Rightarrow> nat \<Rightarrow> 'a filest_scheme \<Rightarrow> 'a filest_scheme sysret res" where
  "unlink_entry cur dp ip off s =
     rbind (ilock cur ip s) (\<lambda>s.
       if sint (inlink (itable s ! ip)) < 1 then Panic ''unlink: nlink < 1''
       else
         rbind (if itype (itable s ! ip) = T_DIR then isdirempty cur ip s else OK (True, s)) (\<lambda>(e, s).
           if \<not> e then rbind (iunlockput cur ip s) (unlink_bad cur dp)
           else
             rbind (writei cur dp (FromLocal (replicate 16 0)) (of_nat off) 16 s) (\<lambda>(r, s).
               if r \<noteq> 16 then Panic ''unlink: writei''
               else
                 rbind (if itype (itable s ! ip) = T_DIR then iupdate cur dp (upd_nlink dp (- 1) s) else OK s) (\<lambda>s.
                 rbind (iunlockput cur dp s) (\<lambda>s.
                 rbind (iupdate cur ip (upd_nlink ip (- 1) s)) (\<lambda>s.
                 rbind (iunlockput cur ip s) (\<lambda>s.
                 rbind (end_op cur s) (\<lambda>s. OK (Ret 0 s)))))))))"

definition sys_unlink :: "nat \<Rightarrow> 'a filest_scheme \<Rightarrow> 'a filest_scheme sysret res" where
  "sys_unlink cur s =
     rbind (argstr cur 0 MAXPATH s) (\<lambda>(r0, path).
     if r0 < 0 then OK (Ret (- 1) s) else
     rbind (begin_op s) (\<lambda>s.
     rbind (nameiparent cur path s) (\<lambda>(r, name, s).
       case r of
         None \<Rightarrow> end_fail cur s
       | Some dp \<Rightarrow>
           rbind (ilock cur dp s) (\<lambda>s.
             if namecmp name [46] = 0 \<or> namecmp name [46, 46] = 0 then unlink_bad cur dp s
             else
               rbind (dirlookup cur dp name s) (\<lambda>(r, s).
                 case r of
                   None \<Rightarrow> unlink_bad cur dp s
                 | Some (ip, off) \<Rightarrow> unlink_entry cur dp ip off s)))))"

section \<open>Creation\<close>

definition create_fail :: "nat \<Rightarrow> nat \<Rightarrow> nat \<Rightarrow> 'a fsst_scheme \<Rightarrow> (nat option \<times> 'a fsst_scheme) res" where
  "create_fail cur ip dp s =
     rbind (iupdate cur ip (upd_inode ip (\<lambda>n. n\<lparr>inlink := 0\<rparr>) s)) (\<lambda>s.
     rbind (iunlockput cur ip s) (\<lambda>s.
     rbind (iunlockput cur dp s) (\<lambda>s. OK (None, s))))"

text \<open>The part of \<^verbatim>\<open>create\<close> after the new inode has been allocated.\<close>

definition create_new ::
  "nat \<Rightarrow> nat \<Rightarrow> nat \<Rightarrow> u8 list \<Rightarrow> u16 \<Rightarrow> u16 \<Rightarrow> u16 \<Rightarrow> 'a fsst_scheme \<Rightarrow> (nat option \<times> 'a fsst_scheme) res"
where
  "create_new cur ip dp name type major minor s =
     rbind (ilock cur ip s) (\<lambda>s.
     rbind (iupdate cur ip (upd_inode ip (\<lambda>n. n\<lparr>imajor := major, iminor := minor, inlink := 1\<rparr>) s)) (\<lambda>s.
     rbind (if type = T_DIR then
              rbind (dirlink cur ip [46] (inum (itable s ! ip)) s) (\<lambda>(r, s).
                if r < 0 then OK (- 1, s) else dirlink cur ip [46, 46] (inum (itable s ! dp)) s)
            else OK (0, s)) (\<lambda>(r, s).
       if r < 0 then create_fail cur ip dp s
       else
         rbind (dirlink cur dp name (inum (itable s ! ip)) s) (\<lambda>(r, s).
           if r < 0 then create_fail cur ip dp s
           else
             rbind (if type = T_DIR then iupdate cur dp (upd_nlink dp 1 s) else OK s) (\<lambda>s.
             rbind (iunlockput cur dp s) (\<lambda>s. OK (Some ip, s)))))))"

definition create ::
  "nat \<Rightarrow> u8 list \<Rightarrow> u16 \<Rightarrow> u16 \<Rightarrow> u16 \<Rightarrow> 'a fsst_scheme \<Rightarrow> (nat option \<times> 'a fsst_scheme) res" where
  "create cur path type major minor s =
     rbind (nameiparent cur path s) (\<lambda>(r, name, s).
       case r of
         None \<Rightarrow> OK (None, s)
       | Some dp \<Rightarrow>
           rbind (ilock cur dp s) (\<lambda>s.
           rbind (dirlookup cur dp name s) (\<lambda>(r, s).
             case r of
               Some (ip, _) \<Rightarrow>
                 rbind (iunlockput cur dp s) (\<lambda>s.
                 rbind (ilock cur ip s) (\<lambda>s.
                   let t = itype (itable s ! ip) in
                   if type = T_FILE \<and> (t = T_FILE \<or> t = T_DEVICE) then OK (Some ip, s)
                   else rbind (iunlockput cur ip s) (\<lambda>s. OK (None, s))))
             | None \<Rightarrow>
                 rbind (ialloc cur (idev (itable s ! dp)) type s) (\<lambda>(r, s).
                   case r of
                     None \<Rightarrow> rbind (iunlockput cur dp s) (\<lambda>s. OK (None, s))
                   | Some ip \<Rightarrow> create_new cur ip dp name type major minor s))))"

section \<open>Opening\<close>

definition omode_has :: "int \<Rightarrow> nat \<Rightarrow> bool" where
  "omode_has omode b \<longleftrightarrow> bit (of_int omode :: u32) b"

text \<open>\<open>Some ip\<close>: the locked inode that \<^verbatim>\<open>sys_open\<close> goes on with.\<close>

definition open_inode :: "nat \<Rightarrow> u8 list \<Rightarrow> int \<Rightarrow> 'a fsst_scheme \<Rightarrow> (nat option \<times> 'a fsst_scheme) res" where
  "open_inode cur path omode s =
     (if omode_has omode 9 then create cur path T_FILE 0 0 s
      else
        rbind (namei cur path s) (\<lambda>(r, s).
          case r of
            None \<Rightarrow> OK (None, s)
          | Some ip \<Rightarrow>
              rbind (ilock cur ip s) (\<lambda>s.
                if itype (itable s ! ip) = T_DIR \<and> omode \<noteq> 0
                then rbind (iunlockput cur ip s) (\<lambda>s. OK (None, s))
                else OK (Some ip, s))))"

definition open_file :: "nat \<Rightarrow> inode \<Rightarrow> nat \<Rightarrow> int \<Rightarrow> 'a filest_scheme \<Rightarrow> 'a filest_scheme" where
  "open_file f n ip omode s =
     upd_file f (\<lambda>x.
       (if itype n = T_DEVICE then x\<lparr>ftype := FD_DEVICE, fmajor := imajor n\<rparr>
        else x\<lparr>ftype := FD_INODE, foff := 0\<rparr>)
       \<lparr>fip := ip, readable := \<not> omode_has omode 0,
        writable := omode_has omode 0 \<or> omode_has omode 1\<rparr>) s"

definition sys_open :: "nat \<Rightarrow> 'a filest_scheme \<Rightarrow> 'a filest_scheme sysret res" where
  "sys_open cur s =
     rbind (argint cur 1 s) (\<lambda>omode.
     rbind (argstr cur 0 MAXPATH s) (\<lambda>(r0, path).
     if r0 < 0 then OK (Ret (- 1) s) else
     rbind (begin_op s) (\<lambda>s.
     rbind (open_inode cur path omode s) (\<lambda>(r, s).
       case r of
         None \<Rightarrow> end_fail cur s
       | Some ip \<Rightarrow>
           (let n = itable s ! ip in
            if itype n = T_DEVICE \<and> \<not> dev_ok (imajor n)
            then rbind (iunlockput cur ip s) (end_fail cur)
            else
              (let (f, s) = filealloc s in
               case f of
                 None \<Rightarrow> rbind (iunlockput cur ip s) (end_fail cur)
               | Some f \<Rightarrow>
                   (let (fd, s) = fdalloc cur f s in
                    case fd of
                      None \<Rightarrow>
                        rbind (fileclose cur f s) (\<lambda>s. rbind (iunlockput cur ip s) (end_fail cur))
                    | Some fd \<Rightarrow>
                        (let s = open_file f n ip omode s in
                         rbind (if omode_has omode 10 \<and> itype n = T_FILE then itrunc cur ip s else OK s) (\<lambda>s.
                         rbind (iunlock cur ip s) (\<lambda>s.
                         rbind (end_op cur s) (\<lambda>s. OK (Ret (of_nat fd) s))))))))))))"

text \<open>The common part of \<^verbatim>\<open>sys_mkdir\<close> and \<^verbatim>\<open>sys_mknod\<close>.\<close>

definition make_node :: "nat \<Rightarrow> u16 \<Rightarrow> u16 \<Rightarrow> u16 \<Rightarrow> 'a filest_scheme \<Rightarrow> 'a filest_scheme sysret res" where
  "make_node cur type major minor s =
     rbind (argstr cur 0 MAXPATH s) (\<lambda>(r0, path).
       if r0 < 0 then end_fail cur s
       else
         rbind (create cur path type major minor s) (\<lambda>(r, s).
           case r of
             None \<Rightarrow> end_fail cur s
           | Some ip \<Rightarrow>
               rbind (iunlockput cur ip s) (\<lambda>s. rbind (end_op cur s) (\<lambda>s. OK (Ret 0 s)))))"

definition sys_mkdir :: "nat \<Rightarrow> 'a filest_scheme \<Rightarrow> 'a filest_scheme sysret res" where
  "sys_mkdir cur s = rbind (begin_op s) (make_node cur T_DIR 0 0)"

definition sys_mknod :: "nat \<Rightarrow> 'a filest_scheme \<Rightarrow> 'a filest_scheme sysret res" where
  "sys_mknod cur s =
     rbind (begin_op s) (\<lambda>s.
     rbind (argint cur 1 s) (\<lambda>major.
     rbind (argint cur 2 s) (\<lambda>minor.
       make_node cur T_DEVICE (of_int major) (of_int minor) s)))"

definition sys_chdir :: "nat \<Rightarrow> 'a filest_scheme \<Rightarrow> 'a filest_scheme sysret res" where
  "sys_chdir cur s =
     rbind (begin_op s) (\<lambda>s.
     rbind (argstr cur 0 MAXPATH s) (\<lambda>(r0, path).
       if r0 < 0 then end_fail cur s
       else
         rbind (namei cur path s) (\<lambda>(r, s).
           case r of
             None \<Rightarrow> end_fail cur s
           | Some ip \<Rightarrow>
               rbind (ilock cur ip s) (\<lambda>s.
                 if itype (itable s ! ip) \<noteq> T_DIR then rbind (iunlockput cur ip s) (end_fail cur)
                 else
                   rbind (iunlock cur ip s) (\<lambda>s.
                     case cwd (procs s ! cur) of
                       None \<Rightarrow> kernel_fault
                     | Some old \<Rightarrow>
                         rbind (iput cur old s) (\<lambda>s.
                         rbind (end_op cur s) (\<lambda>s.
                           OK (Ret 0 (upd_proc cur (\<lambda>p. p\<lparr>cwd := Some ip\<rparr>) s)))))))))"

section \<open>exec and pipe\<close>

fun kfree_list :: "u64 list \<Rightarrow> 'a kmem_scheme \<Rightarrow> 'a kmem_scheme res" where
  "kfree_list [] s = OK s"
| "kfree_list (p # ps) s = rbind (kfree p s) (kfree_list ps)"

text \<open>
  The loop of \<^verbatim>\<open>sys_exec\<close> over the user's argument vector: whether it ended at the null pointer, the
  pages allocated and the strings fetched into them.
\<close>

fun fetch_argv ::
  "nat \<Rightarrow> u64 \<Rightarrow> nat list \<Rightarrow> u64 list \<Rightarrow> u8 list list \<Rightarrow> 'a ptable_scheme \<Rightarrow> (bool \<times> u64 list \<times> u8 list list \<times> 'a ptable_scheme) res"
where
  "fetch_argv cur uargv [] pages strs s = OK (False, pages, strs, s)"
| "fetch_argv cur uargv (i # is) pages strs s =
     rbind (fetchaddr cur (uargv + 8 * of_nat i) s) (\<lambda>(r, uarg).
       if r < 0 then OK (False, pages, strs, s)
       else if uarg = 0 then OK (True, pages, strs, s)
       else
         rbind (kalloc s) (\<lambda>(pg, s).
           if pg = 0 then OK (False, pages, strs, s)
           else
             rbind (fetchstr cur uarg 4096 s) (\<lambda>(r, str).
               if r < 0 then OK (False, pages @ [pg], strs, s)
               else
                 fetch_argv cur uargv is (pages @ [pg]) (strs @ [str])
                   (s\<lparr>mem := store_bytes (mem s) pg (str @ [0])\<rparr>))))"

definition sys_exec :: "nat \<Rightarrow> 'a filest_scheme \<Rightarrow> 'a filest_scheme sysret res" where
  "sys_exec cur s =
     rbind (argaddr cur 1 s) (\<lambda>uargv.
     rbind (argstr cur 0 MAXPATH s) (\<lambda>(r0, path).
     if r0 < 0 then OK (Ret (- 1) s) else
     rbind (fetch_argv cur uargv [0..<MAXARG] [] [] s) (\<lambda>(ok, pages, strs, s).
       if ok then
         rbind (exec cur path strs s) (\<lambda>(r, s).
         rbind (kfree_list pages s) (\<lambda>s. OK (Ret (of_int r) s)))
       else rbind (kfree_list pages s) (\<lambda>s. OK (Ret (- 1) s)))))"

definition close_both :: "nat \<Rightarrow> nat \<Rightarrow> nat \<Rightarrow> 'a filest_scheme \<Rightarrow> 'a filest_scheme sysret res" where
  "close_both cur rfile wfile s =
     rbind (fileclose cur rfile s) (\<lambda>s. rbind (fileclose cur wfile s) (\<lambda>s. OK (Ret (- 1) s)))"

definition sys_pipe :: "nat \<Rightarrow> 'a filest_scheme \<Rightarrow> 'a filest_scheme sysret res" where
  "sys_pipe cur s =
     rbind (argaddr cur 0 s) (\<lambda>fdarray.
     rbind (pipealloc cur s) (\<lambda>(r, s).
       case r of
         None \<Rightarrow> OK (Ret (- 1) s)
       | Some (rfile, wfile) \<Rightarrow>
           (let (fd0, s) = fdalloc cur rfile s in
            case fd0 of
              None \<Rightarrow> close_both cur rfile wfile s
            | Some fd0 \<Rightarrow>
                (let (fd1, s) = fdalloc cur wfile s in
                 case fd1 of
                   None \<Rightarrow> close_both cur rfile wfile (set_ofile cur fd0 None s)
                 | Some fd1 \<Rightarrow>
                     (let pt = pagetable (procs s ! cur);
                          undo = (\<lambda>s. close_both cur rfile wfile (set_ofile cur fd1 None (set_ofile cur fd0 None s))) in
                      rbind (copyout pt fdarray (le_bytes 4 (of_nat fd0 :: u32)) s) (\<lambda>(r, s).
                        if r < 0 then undo s
                        else
                          rbind (copyout pt (fdarray + 4) (le_bytes 4 (of_nat fd1 :: u32)) s) (\<lambda>(r, s).
                            if r < 0 then undo s else OK (Ret 0 s))))))))"

declare isdirempty_loop.simps [simp del]

end
