(* ===== verification/Syscall.thy ===== *)
theory Syscall
  imports Sysfile
begin

text \<open>
  The dispatcher of \<^verbatim>\<open>kernel/syscall.c\<close> with its system-call tracing.  The tables depend on the
  scheduling policy the kernel is built with.
\<close>

section \<open>The tables\<close>

text \<open>Name and number of traced arguments: \<^verbatim>\<open>sysnames\<close> and \<^verbatim>\<open>sysargs\<close>.\<close>

definition sys_info :: "sched_policy \<Rightarrow> (int \<times> string \<times> nat) list" where
  "sys_info pol =
     [(1, ''fork'', 0), (2, ''exit'', 1), (3, ''wait'', 1), (4, ''pipe'', 1), (5, ''read'', 3),
      (6, ''kill'', 1), (7, ''exec'', 2), (8, ''fstat'', 2), (9, ''chdir'', 1), (10, ''dup'', 1),
      (11, ''getpid'', 0), (12, ''sbrk'', 1), (13, ''sleep'', 1), (14, ''uptime'', 0),
      (15, ''open'', 2), (16, ''write'', 3), (17, ''mknod'', 3), (18, ''unlink'', 1),
      (19, ''link'', 2), (20, ''mkdir'', 1), (21, ''close'', 1), (22, ''trace'', 1),
      (23, ''sigalarm'', 2), (24, ''sigreturn'', 0), (25, ''waitx'', 3)]
     @ (if pol = PBS then [(26, ''set_priority'', 2)] else if pol = LBS then [(26, ''settickets'', 1)] else [])"

text \<open>\<open>syscalls[]\<close>, without its entry for \<^verbatim>\<open>waitx\<close>, which needs one more parameter.\<close>

definition sys_table ::
  "sched_policy \<Rightarrow> (int \<times> (nat \<Rightarrow> 'a filest_scheme \<Rightarrow> 'a filest_scheme sysret res)) list" where
  "sys_table pol =
     [(1, sys_fork), (2, sys_exit), (3, sys_wait), (4, sys_pipe), (5, sys_read), (6, sys_kill),
      (7, sys_exec), (8, sys_fstat), (9, sys_chdir), (10, sys_dup), (11, sys_getpid),
      (12, sys_sbrk), (13, sys_sleep), (14, sys_uptime), (15, sys_open), (16, sys_write),
      (17, sys_mknod), (18, sys_unlink), (19, sys_link), (20, sys_mkdir), (21, sys_close),
      (22, sys_trace), (23, sys_sigalarm), (24, sys_sigreturn)]
     @ (if pol = PBS then [(26, sys_set_priority)] else if pol = LBS then [(26, sys_settickets)] else [])"

definition syscalls ::
  "int \<times> int \<Rightarrow> sched_policy \<Rightarrow> int \<Rightarrow> (nat \<Rightarrow> 'a filest_scheme \<Rightarrow> 'a filest_scheme sysret res) option" where
  "syscalls junk pol num = (if num = 25 then Some (sys_waitx junk) else map_of (sys_table pol) num)"

section \<open>Tracing\<close>

definition append_opt :: "string option \<Rightarrow> string option \<Rightarrow> string option" where
  "append_opt a b = (case (a, b) of (Some a, Some b) \<Rightarrow> Some (a @ b) | _ \<Rightarrow> None)"

fun trace_args :: "nat \<Rightarrow> nat list \<Rightarrow> int \<Rightarrow> 'a ptable_scheme \<Rightarrow> string option" where
  "trace_args cur [] f s = Some []"
| "trace_args cur (i # is) f s =
     (case argint cur i s of
        OK v \<Rightarrow>
          append_opt (if i \<noteq> 0 then kprintf '' '' [] else Some [])
            (append_opt (kprintf ''%d'' [FInt (if i \<noteq> 0 then v else f)]) (trace_args cur is f s))
      | _ \<Rightarrow> None)"

text \<open>The trace line of system call \<open>num\<close> whose first argument was \<open>f\<close>, after \<^verbatim>\<open>a0\<close> holds the result.\<close>

definition trace_text :: "nat \<Rightarrow> int \<Rightarrow> int \<Rightarrow> 'a ptable_scheme \<Rightarrow> string option" where
  "trace_text cur num f s =
     (case map_of (sys_info (policy s)) num of
        None \<Rightarrow> None
      | Some (name, k) \<Rightarrow>
          append_opt (kprintf ''%d: syscall %s ('' [FInt (pid (procs s ! cur)), FStr (Some name)])
            (append_opt (trace_args cur [0..<k] f s)
              (kprintf ('') -> %d'' @ [CHR 0x0A]) [FInt (i32 (uint (tf_get cur TF_a0 s)))])))"

definition traced :: "int \<Rightarrow> proc \<Rightarrow> bool" where
  "traced num p \<longleftrightarrow> trace p \<noteq> 0 \<and> bit (tracemask p) (nat num)"

section \<open>Dispatch\<close>

text \<open>What \<^verbatim>\<open>syscall\<close> does once the handler has returned \<open>v\<close>.\<close>

definition syscall_return :: "nat \<Rightarrow> int \<Rightarrow> int \<Rightarrow> u64 \<Rightarrow> 'a conss_scheme \<Rightarrow> 'a conss_scheme res" where
  "syscall_return cur num f v s =
     (let s = tf_set cur TF_a0 v s in
      if traced num (procs s ! cur)
      then consputs (case trace_text cur num f s of Some t \<Rightarrow> t | None \<Rightarrow> []) s
      else OK s)"

definition unknown_text :: "int \<Rightarrow> proc \<Rightarrow> string" where
  "unknown_text num p =
     (case kprintf (''%d %s: unknown sys call %d'' @ [CHR 0x0A])
             [FInt (pid p), FStr (Some (name_string (pname p))), FInt num] of
        Some t \<Rightarrow> t | None \<Rightarrow> [])"

definition syscall :: "int \<times> int \<Rightarrow> nat \<Rightarrow> 'a filest_scheme \<Rightarrow> 'a filest_scheme sysret res" where
  "syscall junk cur s =
     (let num = i32 (uint (tf_get cur TF_a7 s)) in
      case (if num > 0 then syscalls junk (policy s) num else None) of
        Some h \<Rightarrow>
          (let f = i32 (uint (tf_get cur TF_a0 s)) in
           rbind (h cur s) (\<lambda>r.
             case r of
               Ret v s \<Rightarrow> rbind (syscall_return cur num f v s) (\<lambda>s. OK (Ret v s))
             | other \<Rightarrow> OK other))
      | None \<Rightarrow>
          rbind (consputs (unknown_text num (procs s ! cur)) s) (\<lambda>s.
            OK (Ret (- 1) (tf_set cur TF_a0 (- 1) s))))"

end
