(* ===== verification/Virtio.thy ===== *)
theory Virtio
  imports Bio
begin

text \<open>
  The virtio disk driver, \<^verbatim>\<open>kernel/virtio_disk.c\<close>.  The driver's \<^verbatim>\<open>struct disk\<close> and the queue memory
  it shares with the device are the record \<open>vdisk\<close>; the address in a descriptor is the object
  the driver points it at.  \<open>in_flight\<close> is the flag \<^verbatim>\<open>disk\<close> of the buffers.
\<close>

section \<open>State\<close>

abbreviation (input) NUM :: nat where "NUM \<equiv> 8"

text \<open>What a descriptor points to: nothing, a request header, the data of a buffer, a status byte.\<close>

datatype dptr = PNull | POp nat | PData nat | PStatus nat

record virtq_desc =
  d_addr :: dptr
  d_len :: u32
  d_flags :: u16
  d_next :: u16

record virtio_blk_req =
  req_type :: u32
  req_reserved :: u32
  req_sector :: u64

record vdisk =
  desc :: "virtq_desc list"
  vfree :: "bool list"
  avail_idx :: u16
  avail_ring :: "u16 list"
  used_idx :: u16
  dev_used_idx :: u16
  used_ring :: "u32 list"
  info_b :: "nat option list"
  info_status :: "u8 list"
  vops :: "virtio_blk_req list"
  in_flight :: "nat \<Rightarrow> bool"

definition null_desc :: virtq_desc where
  "null_desc = \<lparr>d_addr = PNull, d_len = 0, d_flags = 0, d_next = 0\<rparr>"

section \<open>Initialisation\<close>

text \<open>
  The registers of the device that \<^verbatim>\<open>virtio_disk_init\<close> reads: identification, features, the status
  after feature negotiation, whether the queue is in use, and the largest queue.
\<close>

record mmio_regs =
  r_magic :: u32
  r_version :: u32
  r_device_id :: u32
  r_vendor_id :: u32
  r_features :: u32
  r_status_after :: "u32 \<Rightarrow> u32"
  r_queue_ready :: u32
  r_queue_max :: u32

definition negotiated :: "u32 \<Rightarrow> u32" where
  "negotiated f = f AND NOT (push_bit 5 1) AND NOT (push_bit 7 1) AND NOT (push_bit 11 1)
     AND NOT (push_bit 12 1) AND NOT (push_bit 27 1) AND NOT (push_bit 29 1) AND NOT (push_bit 28 1)"

text \<open>The result: the features accepted, the final status and the zeroed queue.\<close>

definition fresh_vdisk :: vdisk where
  "fresh_vdisk =
     \<lparr>desc = replicate NUM null_desc, vfree = replicate NUM True, avail_idx = 0,
      avail_ring = replicate NUM 0, used_idx = 0, dev_used_idx = 0, used_ring = replicate NUM 0,
      info_b = replicate NUM None, info_status = replicate NUM 0,
      vops = replicate NUM \<lparr>req_type = 0, req_reserved = 0, req_sector = 0\<rparr>,
      in_flight = (\<lambda>_. False)\<rparr>"

definition virtio_disk_init :: "mmio_regs \<Rightarrow> 'a kmem_scheme \<Rightarrow> (u32 \<times> u32 \<times> vdisk \<times> 'a kmem_scheme) res" where
  "virtio_disk_init r s =
     (if r_magic r \<noteq> 0x74726976 \<or> r_version r \<noteq> 2 \<or> r_device_id r \<noteq> 2 \<or> r_vendor_id r \<noteq> 0x554d4551
      then Panic ''could not find virtio disk''
      else
        (let features = negotiated (r_features r); status = r_status_after r 11 in
         if status AND 8 = 0 then Panic ''virtio disk FEATURES_OK unset''
         else if r_queue_ready r \<noteq> 0 then Panic ''virtio disk should not be ready''
         else if r_queue_max r = 0 then Panic ''virtio disk has no queue 0''
         else if r_queue_max r < 8 then Panic ''virtio disk max queue too short''
         else
           rbind (kalloc s) (\<lambda>(d, s).
           rbind (kalloc s) (\<lambda>(a, s).
           rbind (kalloc s) (\<lambda>(u, s).
             if d = 0 \<or> a = 0 \<or> u = 0 then Panic ''virtio disk kalloc''
             else
               (let s = s\<lparr>mem := memset u 0 4096 (memset a 0 4096 (memset d 0 4096 (mem s)))\<rparr>
                in OK (features, status OR 4, fresh_vdisk, s)))))))"

section \<open>Descriptors\<close>

definition alloc_desc :: "vdisk \<Rightarrow> nat option \<times> vdisk" where
  "alloc_desc v =
     (case first_index (\<lambda>b. b) (vfree v) of
        None \<Rightarrow> (None, v)
      | Some i \<Rightarrow> (Some i, v\<lparr>vfree := (vfree v)[i := False]\<rparr>))"

definition free_desc :: "nat \<Rightarrow> nat \<Rightarrow> vdisk \<Rightarrow> 'a bcache_scheme \<Rightarrow> (vdisk \<times> 'a bcache_scheme) res" where
  "free_desc cur i v s =
     (if i \<ge> NUM then Panic ''free_desc 1''
      else if vfree v ! i then Panic ''free_desc 2''
      else OK (v\<lparr>desc := (desc v)[i := null_desc], vfree := (vfree v)[i := True]\<rparr>,
               wakeup (Some cur) ChDiskFree s))"

text \<open>
  \<^verbatim>\<open>free_chain\<close>: every round frees a descriptor and a second visit panics, so at most \<^verbatim>\<open>NUM\<close> rounds
  are possible; the fuel is \<open>NUM + 1\<close>.
\<close>

fun free_chain_fuel ::
  "nat \<Rightarrow> nat \<Rightarrow> nat \<Rightarrow> vdisk \<Rightarrow> 'a bcache_scheme \<Rightarrow> (vdisk \<times> 'a bcache_scheme) res" where
  "free_chain_fuel 0 cur i v s = Block"
| "free_chain_fuel (Suc k) cur i v s =
     (let flag = d_flags (desc v ! i); nxt = d_next (desc v ! i) in
      rbind (free_desc cur i v s) (\<lambda>(v, s).
        if flag AND 1 \<noteq> 0 then free_chain_fuel k cur (unat nxt) v s else OK (v, s)))"

definition free_chain :: "nat \<Rightarrow> nat \<Rightarrow> vdisk \<Rightarrow> 'a bcache_scheme \<Rightarrow> (vdisk \<times> 'a bcache_scheme) res" where
  "free_chain cur i v s = free_chain_fuel (NUM + 1) cur i v s"

fun free_descs :: "nat \<Rightarrow> nat list \<Rightarrow> vdisk \<Rightarrow> 'a bcache_scheme \<Rightarrow> (vdisk \<times> 'a bcache_scheme) res" where
  "free_descs cur [] v s = OK (v, s)"
| "free_descs cur (i # is) v s = rbind (free_desc cur i v s) (\<lambda>(v, s). free_descs cur is v s)"

text \<open>\<^verbatim>\<open>alloc3_desc\<close>: \<open>k\<close> descriptors to go, \<open>idx\<close> already allocated.\<close>

fun alloc_descs ::
  "nat \<Rightarrow> nat \<Rightarrow> nat list \<Rightarrow> vdisk \<Rightarrow> 'a bcache_scheme \<Rightarrow> (nat list option \<times> vdisk \<times> 'a bcache_scheme) res" where
  "alloc_descs cur 0 idx v s = OK (Some idx, v, s)"
| "alloc_descs cur (Suc k) idx v s =
     (case alloc_desc v of
        (Some i, v) \<Rightarrow> alloc_descs cur k (idx @ [i]) v s
      | (None, v) \<Rightarrow> rbind (free_descs cur idx v s) (\<lambda>(v, s). OK (None, v, s)))"

definition alloc3_desc ::
  "nat \<Rightarrow> vdisk \<Rightarrow> 'a bcache_scheme \<Rightarrow> (nat list option \<times> vdisk \<times> 'a bcache_scheme) res" where
  "alloc3_desc cur v s = alloc_descs cur 3 [] v s"

section \<open>Requests\<close>

text \<open>The descriptors of a request on buffer \<open>b\<close>, in the slots \<open>i0\<close>, \<open>i1\<close>, \<open>i2\<close>.\<close>

definition format_request :: "bool \<Rightarrow> nat \<Rightarrow> u32 \<Rightarrow> nat \<Rightarrow> nat \<Rightarrow> nat \<Rightarrow> vdisk \<Rightarrow> vdisk" where
  "format_request write b bno i0 i1 i2 v =
     v\<lparr>vops := (vops v)[i0 := \<lparr>req_type = (if write then 1 else 0), req_reserved = 0,
                               req_sector = ucast (bno * 2)\<rparr>],
       desc := (desc v)
         [i0 := \<lparr>d_addr = POp i0, d_len = 16, d_flags = 1, d_next = of_nat i1\<rparr>,
          i1 := \<lparr>d_addr = PData b, d_len = 1024, d_flags = (if write then 0 else 2) OR 1, d_next = of_nat i2\<rparr>,
          i2 := \<lparr>d_addr = PStatus i0, d_len = 1, d_flags = 2, d_next = 0\<rparr>],
       info_status := (info_status v)[i0 := 0xff],
       in_flight := (in_flight v)(b := True),
       info_b := (info_b v)[i0 := Some b],
       avail_ring := (avail_ring v)[unat (avail_idx v) mod NUM := of_nat i0],
       avail_idx := avail_idx v + 1\<rparr>"

text \<open>
  \<^verbatim>\<open>virtio_disk_rw\<close> up to the notification of the device (the result is the head of the chain) or to
  the first time it sleeps for descriptors, and its last steps once \<^verbatim>\<open>b->disk\<close> is clear.
\<close>

definition virtio_start ::
  "nat \<Rightarrow> nat \<Rightarrow> bool \<Rightarrow> vdisk \<Rightarrow> 'a bcache_scheme \<Rightarrow> (nat option \<times> vdisk \<times> 'a bcache_scheme) res" where
  "virtio_start cur b write v s =
     rbind (alloc3_desc cur v s) (\<lambda>(r, v, s).
       case r of
         Some [i0, i1, i2] \<Rightarrow> OK (Some i0, format_request write b (blockno (bufs s ! b)) i0 i1 i2 v, s)
       | _ \<Rightarrow> OK (None, v, sleep_enter cur ChDiskFree s))"

definition virtio_finish :: "nat \<Rightarrow> nat \<Rightarrow> vdisk \<Rightarrow> 'a bcache_scheme \<Rightarrow> (vdisk \<times> 'a bcache_scheme) res" where
  "virtio_finish cur i0 v s = free_chain cur i0 (v\<lparr>info_b := (info_b v)[i0 := None]\<rparr>) s"

text \<open>
  The completion interrupt: the entries of the used ring from the driver's index to the device's.
  A buffer pointer that is null would be a fault.
\<close>

function intr_loop :: "nat option \<Rightarrow> vdisk \<Rightarrow> 'a bcache_scheme \<Rightarrow> (vdisk \<times> 'a bcache_scheme) res" where
  "intr_loop cur v s =
     (if used_idx v = dev_used_idx v then OK (v, s)
      else
        (let i = unat (used_ring v ! (unat (used_idx v) mod NUM)) in
         if info_status v ! i \<noteq> 0 then Panic ''virtio_disk_intr status''
         else
           (case info_b v ! i of
              None \<Rightarrow> kernel_fault
            | Some b \<Rightarrow>
                intr_loop cur (v\<lparr>in_flight := (in_flight v)(b := False), used_idx := used_idx v + 1\<rparr>)
                  (wakeup cur (ChDiskBuf b) s))))"
  by pat_completeness auto
termination
proof (relation "measure (\<lambda>(_, v, _). unat (dev_used_idx v - used_idx v))", goal_cases)
  case (2 cur v s i b)
  have "unat (dev_used_idx v - used_idx v - 1) < unat (dev_used_idx v - used_idx v)"
    using 2 by (intro word_less_nat_alt[THEN iffD1]) (simp add: measure_unat word_less_nat_alt)
  then show ?case by (simp add: algebra_simps)
qed simp

definition virtio_disk_intr :: "nat option \<Rightarrow> vdisk \<Rightarrow> 'a bcache_scheme \<Rightarrow> (vdisk \<times> 'a bcache_scheme) res" where
  "virtio_disk_intr cur v s = intr_loop cur v s"

declare intr_loop.simps [simp del]

end
