(* ===== verification/Trap.thy ===== *)
theory Trap
  imports Syscall Virtio
begin

text \<open>
  Traps and interrupts, \<^verbatim>\<open>kernel/trap.c\<close>, with the interrupt controller of \<^verbatim>\<open>kernel/plic.c\<close> and \<^verbatim>\<open>forkret\<close> of
  \<^verbatim>\<open>kernel/proc.c\<close>.  The control and status registers of a hart are the record \<open>hart\<close>.
\<close>

section \<open>State\<close>

record hart =
  sstatus :: u64
  scause :: u64
  sepc :: u64
  stval :: u64
  stvec :: u64
  sip :: u64
  htp :: u64

text \<open>
  \<open>plic\<close> are the registers of the interrupt controller.  The addresses of code and
  \<open>wait_junk\<close>, the uninitialised locals of \<^verbatim>\<open>sys_waitx\<close>, are fixed.
\<close>

record machine = filest +
  vd :: vdisk
  forkret_first :: bool
  plic :: "u64 \<Rightarrow> u32"
  kernelvec_addr :: u64
  usertrap_addr :: u64
  uservec_off :: u64
  wait_junk :: "int \<times> int"

text \<open>
  Where a trap from user space ends: back in user space, with the process dead, asleep, or off
  the CPU; in the last case \<^verbatim>\<open>usertrapret\<close> follows when the process is scheduled again (after the
  system call it is in has returned its value).
\<close>

datatype 's trapret =
    ReturnUser hart 's
  | TrapExited 's
  | TrapAsleep channel 's
  | TrapYield "u64 option" 's

abbreviation (input) SSTATUS_SPP :: u64 where "SSTATUS_SPP \<equiv> 0x100"
abbreviation (input) SSTATUS_SPIE :: u64 where "SSTATUS_SPIE \<equiv> 0x20"
abbreviation (input) SSTATUS_SIE :: u64 where "SSTATUS_SIE \<equiv> 2"

section \<open>Interrupt controller (plic.c)\<close>

abbreviation (input) UART0_IRQ :: u32 where "UART0_IRQ \<equiv> 10"
abbreviation (input) VIRTIO0_IRQ :: u32 where "VIRTIO0_IRQ \<equiv> 1"

definition PLIC_SENABLE :: "u64 \<Rightarrow> u64" where "PLIC_SENABLE h = PLIC + 0x2080 + h * 0x100"
definition PLIC_SPRIORITY :: "u64 \<Rightarrow> u64" where "PLIC_SPRIORITY h = PLIC + 0x201000 + h * 0x2000"
definition PLIC_SCLAIM :: "u64 \<Rightarrow> u64" where "PLIC_SCLAIM h = PLIC + 0x201004 + h * 0x2000"

definition plicinit :: "'a machine_scheme \<Rightarrow> 'a machine_scheme" where
  "plicinit s = s\<lparr>plic := (plic s)(PLIC + 40 := 1, PLIC + 4 := 1)\<rparr>"

definition plicinithart :: "u64 \<Rightarrow> 'a machine_scheme \<Rightarrow> 'a machine_scheme" where
  "plicinithart h s = s\<lparr>plic := (plic s)(PLIC_SENABLE h := push_bit 10 1 OR push_bit 1 1, PLIC_SPRIORITY h := 0)\<rparr>"

definition plic_claim :: "u64 \<Rightarrow> 'a machine_scheme \<Rightarrow> u32" where
  "plic_claim h s = plic s (PLIC_SCLAIM h)"

definition plic_complete :: "u64 \<Rightarrow> u32 \<Rightarrow> 'a machine_scheme \<Rightarrow> 'a machine_scheme" where
  "plic_complete h irq s = s\<lparr>plic := (plic s)(PLIC_SCLAIM h := irq)\<rparr>"

section \<open>Device interrupts\<close>

text \<open>The result is 2 for the timer, 1 for another device and 0 for an exception.\<close>

definition devintr :: "nat option \<Rightarrow> hart \<Rightarrow> 'a machine_scheme \<Rightarrow> (nat \<times> hart \<times> 'a machine_scheme) res" where
  "devintr cur h s =
     (if bit (scause h) 63 \<and> scause h AND 0xff = 9 then
        (let irq = plic_claim (htp h) s in
         rbind (if irq = UART0_IRQ then uartintr cur s
                else if irq = VIRTIO0_IRQ then
                  rbind (virtio_disk_intr cur (vd s) s) (\<lambda>(v, s). OK (s\<lparr>vd := v\<rparr>))
                else OK s) (\<lambda>s.
           OK (1, h, if irq \<noteq> 0 then plic_complete (htp h) irq s else s)))
      else if scause h = 0x8000000000000001 then
        OK (2, h\<lparr>sip := sip h AND NOT 2\<rparr>, if htp h = 0 then clockintr cur s else s)
      else OK (0, h, s))"

section \<open>Page faults: copy on write\<close>

definition guard_range :: "u64 \<Rightarrow> u64 \<Rightarrow> bool" where
  "guard_range sp va \<longleftrightarrow> va \<ge> PGROUNDDOWN sp - PGSIZE \<and> va \<le> PGROUNDDOWN sp"

text \<open>
  A load or store page fault at \<open>va\<close>: \<open>True\<close> if the page was copied and the instruction can be
  retried, otherwise the process is marked killed and about to exit.
\<close>

definition cow_fault :: "nat \<Rightarrow> u64 \<Rightarrow> 'a ptable_scheme \<Rightarrow> (bool \<times> 'a ptable_scheme) res" where
  "cow_fault cur va s =
     (if va \<ge> MAXVA \<or> guard_range (tf_get cur TF_sp s) va then OK (False, setkilled cur s)
      else
        rbind (walk (pagetable (procs s ! cur)) (PGROUNDDOWN va) False s) (\<lambda>(pte, s).
          if pte = 0 then OK (False, setkilled cur s)
          else
            (let e = load64 (mem s) pte; pa = PTE2PA e; flags = PTE_FLAGS e in
             if flags AND PTE_V = 0 then OK (False, setkilled cur s)
             else if flags AND PTE_U = 0 then OK (False, setkilled cur s)
             else if flags AND PTE_C \<noteq> 0 then
               (let flags = (flags AND NOT PTE_C) OR PTE_W in
                rbind (kalloc s) (\<lambda>(page, s).
                  if page = 0 then OK (False, setkilled cur s)
                  else
                    (let m = memmove page pa 4096 (mem s);
                         m = store64 m pte (PA2PTE page OR flags)
                     in rbind (kfree pa (s\<lparr>mem := m\<rparr>)) (\<lambda>s. OK (True, s)))))
             else OK (False, setkilled cur s))))"

section \<open>Alarms and preemption\<close>

text \<open>The bookkeeping of a timer tick for \<^verbatim>\<open>sigalarm\<close>.\<close>

definition alarm_due :: "proc \<Rightarrow> bool" where
  "alarm_due p \<longleftrightarrow> ticksn p > 0 \<and> i32 (ticksp p - tickspa p) = ticksn p \<and> sigalarm p \<noteq> 0"

definition alarm_tick :: "nat \<Rightarrow> 'a ptable_scheme \<Rightarrow> 'a ptable_scheme" where
  "alarm_tick cur s =
     (let s = upd_proc cur (\<lambda>p. p\<lparr>ticksp := i32 (ticksp p + 1)\<rparr>) s; p = procs s ! cur in
      if alarm_due p then
        (let s = upd_proc cur (\<lambda>p. p\<lparr>sigalarm := 0\<rparr>) s;
             s = copy_frame (trapcopy p) (trapframe p) s
         in tf_set cur TF_epc (handler p) s)
      else s)"

text \<open>Whether a timer tick makes the current process give up the CPU, by policy.\<close>

definition preempt :: "nat \<Rightarrow> 'a ptable_scheme \<Rightarrow> bool \<times> 'a ptable_scheme" where
  "preempt cur s =
     (case policy s of
        FCFS \<Rightarrow> (False, s)
      | PBS \<Rightarrow> (False, s)
      | MLFQ \<Rightarrow>
          (let s = upd_proc cur (\<lambda>p. p\<lparr>ticksused := i32 (ticksused p + 1)\<rparr>) s; p = procs s ! cur in
           (ticksused p \<ge> 2 ^ nat (queue p)
              \<or> (\<exists>q \<in> set (procs s). state q = RUNNABLE \<and> queue q < queue p), s))
      | _ \<Rightarrow> (True, s))"

section \<open>Traps from user space\<close>

definition usertrapret :: "nat \<Rightarrow> hart \<Rightarrow> 'a machine_scheme \<Rightarrow> hart \<times> 'a machine_scheme" where
  "usertrapret cur h s =
     (let p = procs s ! cur;
          s = tf_set cur TF_kernel_satp (satp s) s;
          s = tf_set cur TF_kernel_sp (kstack p + PGSIZE) s;
          s = tf_set cur TF_kernel_trap (usertrap_addr s) s;
          s = tf_set cur TF_kernel_hartid (htp h) s;
          x = sstatus h AND NOT SSTATUS_SIE;
          x = (x AND NOT SSTATUS_SPP) OR SSTATUS_SPIE
      in (h\<lparr>stvec := TRAMPOLINE + uservec_off s, sstatus := x, sepc := tf_get cur TF_epc s\<rparr>, s))"

text \<open>The part of \<^verbatim>\<open>usertrap\<close> after the cause has been handled.\<close>

definition usertrap_tail :: "nat \<Rightarrow> nat \<Rightarrow> hart \<Rightarrow> 'a machine_scheme \<Rightarrow> 'a machine_scheme trapret res" where
  "usertrap_tail cur which_dev h s =
     (if killed cur s \<noteq> 0 then rbind (exit_proc cur (- 1) s) (\<lambda>s. OK (TrapExited s))
      else if which_dev = 2 then
        (let (y, s) = preempt cur (alarm_tick cur s) in
         if y then OK (TrapYield None (yield_proc cur s))
         else (let (h, s) = usertrapret cur h s in OK (ReturnUser h s)))
      else (let (h, s) = usertrapret cur h s in OK (ReturnUser h s)))"

definition usertrap :: "nat \<Rightarrow> hart \<Rightarrow> 'a machine_scheme \<Rightarrow> 'a machine_scheme trapret res" where
  "usertrap cur h s =
     (if sstatus h AND SSTATUS_SPP \<noteq> 0 then Panic ''usertrap: not from user mode''
      else
        (let h = h\<lparr>stvec := kernelvec_addr s\<rparr>; s = tf_set cur TF_epc (sepc h) s in
         if scause h = 8 then
           (if killed cur s \<noteq> 0 then rbind (exit_proc cur (- 1) s) (\<lambda>s. OK (TrapExited s))
            else
              rbind (syscall (wait_junk s) cur (tf_set cur TF_epc (tf_get cur TF_epc s + 4) s)) (\<lambda>r.
                case r of
                  Ret v s \<Rightarrow> usertrap_tail cur 0 (h\<lparr>sstatus := sstatus h OR SSTATUS_SIE\<rparr>) s
                | Exited s \<Rightarrow> OK (TrapExited s)
                | Asleep ch s \<Rightarrow> OK (TrapAsleep ch s)
                | Yielded v s \<Rightarrow> OK (TrapYield (Some v) s)))
         else
           rbind (devintr (Some cur) h s) (\<lambda>(which_dev, h, s).
             if which_dev \<noteq> 0 then usertrap_tail cur which_dev h s
             else if scause h = 15 \<or> scause h = 13 then
               rbind (cow_fault cur (stval h) s) (\<lambda>(ok, s). usertrap_tail cur 0 h s)
             else usertrap_tail cur 0 h (setkilled cur s))))"

text \<open>The first return of a new process; the very first one initialises the file system.\<close>

definition forkret :: "nat \<Rightarrow> hart \<Rightarrow> 'a machine_scheme \<Rightarrow> (hart \<times> 'a machine_scheme) res" where
  "forkret cur h s =
     rbind (if forkret_first s then fsinit cur ROOTDEV (s\<lparr>forkret_first := False\<rparr>) else OK s) (\<lambda>s.
       OK (usertrapret cur h s))"

section \<open>Traps from the kernel\<close>

text \<open>
  \<open>cur\<close> is the process the interrupted code runs for, if any.  The result says whether it gave up
  the CPU; without preemption the trap registers are left as they are, and with it they are
  restored to the values at entry.
\<close>

definition kerneltrap :: "nat option \<Rightarrow> hart \<Rightarrow> 'a machine_scheme \<Rightarrow> (bool \<times> hart \<times> 'a machine_scheme) res" where
  "kerneltrap cur h s =
     (if sstatus h AND SSTATUS_SPP = 0 then Panic ''kerneltrap: not from supervisor mode''
      else if sstatus h AND SSTATUS_SIE \<noteq> 0 then Panic ''kerneltrap: interrupts enabled''
      else
        rbind (devintr cur h s) (\<lambda>(which_dev, h', s).
          if which_dev = 0 then Panic ''kerneltrap''
          else
            (case cur of
               Some p \<Rightarrow>
                 if which_dev = 2 \<and> state (procs s ! p) = RUNNING then
                   (let (y, s) = preempt p s in
                    OK (y, h'\<lparr>sepc := sepc h, sstatus := sstatus h\<rparr>, if y then yield_proc p s else s))
                 else OK (False, h', s)
             | None \<Rightarrow> OK (False, h', s))))"

end
