(* ===== verification/Boot.thy ===== *)
theory Boot
  imports Trap
begin

text \<open>
  Start-up: \<^verbatim>\<open>start\<close> and \<^verbatim>\<open>timerinit\<close> (\<^verbatim>\<open>kernel/start.c\<close>) in machine mode, and \<^verbatim>\<open>main\<close> (\<^verbatim>\<open>kernel/main.c\<close>), which
  initialises the components in order on hart 0.
\<close>

section \<open>Machine mode\<close>

text \<open>The registers \<^verbatim>\<open>start\<close> writes, and the scratch area of the timer handler.\<close>

record mhart =
  mstatus :: u64
  mepc :: u64
  msatp :: u64
  medeleg :: u64
  mideleg :: u64
  sie_reg :: u64
  pmpaddr0 :: u64
  pmpcfg0 :: u64
  mhartid :: u64
  tp_reg :: u64
  mscratch :: u64
  mtvec :: u64
  mie :: u64
  mtimecmp :: "u64 \<Rightarrow> u64"
  timer_scratch :: "u64 list"

definition CLINT_MTIMECMP :: "u64 \<Rightarrow> u64" where
  "CLINT_MTIMECMP h = 0x2000000 + 0x4000 + 8 * h"

abbreviation (input) timer_interval :: u64 where "timer_interval \<equiv> 1000000"

text \<open>\<open>now\<close> is the value of \<^verbatim>\<open>CLINT_MTIME\<close>; \<open>scratch_addr\<close> and \<open>timervec\<close> are link-time addresses.\<close>

definition timerinit :: "u64 \<Rightarrow> u64 \<Rightarrow> u64 \<Rightarrow> mhart \<Rightarrow> mhart" where
  "timerinit now scratch_addr timervec m =
     (let cmp = CLINT_MTIMECMP (mhartid m) in
      m\<lparr>mtimecmp := (mtimecmp m)(cmp := now + timer_interval),
        timer_scratch := (timer_scratch m)[3 := cmp, 4 := timer_interval],
        mscratch := scratch_addr,
        mtvec := timervec,
        mstatus := mstatus m OR 8,
        mie := mie m OR 0x80\<rparr>)"

definition start :: "u64 \<Rightarrow> u64 \<Rightarrow> u64 \<Rightarrow> u64 \<Rightarrow> mhart \<Rightarrow> mhart" where
  "start main_addr now scratch_addr timervec m =
     (let m = m\<lparr>mstatus := (mstatus m AND NOT (push_bit 11 3)) OR push_bit 11 1,
                mepc := main_addr, msatp := 0, medeleg := 0xffff, mideleg := 0xffff,
                sie_reg := sie_reg m OR push_bit 9 1 OR push_bit 5 1 OR push_bit 1 1,
                pmpaddr0 := 0x3fffffffffffff, pmpcfg0 := 0xf\<rparr>;
          m = timerinit now scratch_addr timervec m
      in m\<lparr>tp_reg := mhartid m\<rparr>)"

section \<open>main\<close>

definition opt_res :: "'b res option \<Rightarrow> 'b res" where
  "opt_res r = (case r of None \<Rightarrow> Block | Some r \<Rightarrow> r)"

definition trapinithart :: "hart \<Rightarrow> 'a machine_scheme \<Rightarrow> hart" where
  "trapinithart h s = h\<lparr>stvec := kernelvec_addr s\<rparr>"

text \<open>\<^verbatim>\<open>main\<close> on hart 0 up to its call of \<^verbatim>\<open>scheduler\<close>; \<open>regs\<close> are the registers of the disk.\<close>

definition main0 :: "mmio_regs \<Rightarrow> hart \<Rightarrow> 'a machine_scheme \<Rightarrow> (hart \<times> 'a machine_scheme) res" where
  "main0 regs h s =
     rbind (opt_res (kinit (consoleinit s))) (\<lambda>s.
     rbind (kvminit s) (\<lambda>s.
       let s = procinit (kvminithart s);
           h = trapinithart h s;
           s = iinit (binit (plicinithart (htp h) (plicinit s))) in
       rbind (virtio_disk_init regs s) (\<lambda>(features, status, v, s).
       rbind (userinit (s\<lparr>vd := v\<rparr>)) (\<lambda>s. OK (h, s)))))"

text \<open>\<^verbatim>\<open>main\<close> on another hart, after hart 0 has set \<^verbatim>\<open>started\<close>.\<close>

definition main_other :: "hart \<Rightarrow> 'a machine_scheme \<Rightarrow> hart \<times> 'a machine_scheme" where
  "main_other h s =
     (let s = kvminithart s; h = trapinithart h s in (h, plicinithart (htp h) s))"

end
