(* ===== verification/Pagetable.thy ===== *)
theory Pagetable
  imports VM
begin

text \<open>
  What the page tables of \<^verbatim>\<open>kernel/vm.c\<close> mean.  \<open>lookup\<close> is the walk of a tree in a given memory;
  \<open>uaddr\<close> is the physical address behind a user address.
\<close>

section \<open>Walking without allocating\<close>

fun lookup_levels :: "nat \<Rightarrow> memory \<Rightarrow> u64 \<Rightarrow> u64 \<Rightarrow> u64" where
  "lookup_levels 0 m pt va = pte_at pt 0 va"
| "lookup_levels (Suc l) m pt va =
     (let e = load64 m (pte_at pt (Suc l) va)
      in if e AND PTE_V \<noteq> 0 then lookup_levels l m (PTE2PA e) va else 0)"

definition lookup :: "memory \<Rightarrow> u64 \<Rightarrow> u64 \<Rightarrow> u64" where
  "lookup m pt va = lookup_levels 2 m pt va"

lemma walk_levels_lookup: "walk_levels l pt va False s = OK (lookup_levels l (mem s) pt va, s)"
  by (induction l arbitrary: pt) (auto simp: Let_def)

lemma walk_lookup:
  "walk pt va False s = (if va \<ge> MAXVA then Panic ''walk'' else OK (lookup (mem s) pt va, s))"
  by (simp add: walk_def lookup_def walk_levels_lookup)

text \<open>The page-table entry for \<open>va\<close>, 0 when there is none.\<close>

definition entry :: "memory \<Rightarrow> u64 \<Rightarrow> u64 \<Rightarrow> u64" where
  "entry m pt va = (let p = lookup m pt va in if p = 0 then 0 else load64 m p)"

definition user_page :: "memory \<Rightarrow> u64 \<Rightarrow> u64 \<Rightarrow> u64" where
  "user_page m pt va =
     (let e = entry m pt va in
      if va \<ge> MAXVA \<or> e AND PTE_V = 0 \<or> e AND PTE_U = 0 then 0 else PTE2PA e)"

lemma walkaddr_user_page: "walkaddr pt va s = OK (user_page (mem s) pt va)"
  by (auto simp: walkaddr_def walk_lookup user_page_def entry_def Let_def)

definition uaddr :: "memory \<Rightarrow> u64 \<Rightarrow> u64 \<Rightarrow> u64 option" where
  "uaddr m pt va =
     (let p = user_page m pt (PGROUNDDOWN va) in
      if p = 0 then None else Some (p + (va - PGROUNDDOWN va)))"

section \<open>Copies from user space\<close>

text \<open>The bytes a copy starting at \<open>va\<close> takes from the first page lie on that page.\<close>

lemma chunk_same_page:
  assumes "k < chunk va len"
  shows "PGROUNDDOWN (va + of_nat k) = PGROUNDDOWN va"
    "va + of_nat k - PGROUNDDOWN va = va - PGROUNDDOWN va + of_nat k"
proof -
  have lt: "unat (va - PGROUNDDOWN va) < 4096"
    by (simp add: unat_sub_if_size unat_PGROUNDDOWN PGROUNDDOWN_le word_le_nat_alt)
  have "chunk va len \<le> unat (PGSIZE - (va - PGROUNDDOWN va))" by (simp add: chunk_def Let_def)
  also have "\<dots> = 4096 - unat (va - PGROUNDDOWN va)"
    using lt by (simp add: unat_sub word_le_nat_alt)
  finally have k: "k < 4096 - unat (va - PGROUNDDOWN va)" using assms by simp
  then have u: "unat (va - PGROUNDDOWN va + of_nat k) = unat (va - PGROUNDDOWN va) + k"
    using lt by (simp add: unat_word_ariths unat_of_nat)
  show e: "va + of_nat k - PGROUNDDOWN va = va - PGROUNDDOWN va + of_nat k" by simp
  have "in_range (PGROUNDDOWN va) 4096 (va + of_nat k)"
    using u k lt by (simp add: in_range_def e)
  then show "PGROUNDDOWN (va + of_nat k) = PGROUNDDOWN va" by (simp add: in_page)
qed

lemma uaddr_chunk:
  assumes "k < chunk va len"
  shows "uaddr m pt (va + of_nat k) =
    (let p = user_page m pt (PGROUNDDOWN va) in
     if p = 0 then None else Some (p + (va - PGROUNDDOWN va) + of_nat k))"
  by (simp add: uaddr_def Let_def chunk_same_page[OF assms] add.assoc)

lemma chunk_next:
  assumes "chunk va len < len"
  shows "PGROUNDDOWN va + PGSIZE = va + of_nat (chunk va len)"
proof -
  have "chunk va len = unat (PGSIZE - (va - PGROUNDDOWN va))"
    using assms by (simp add: chunk_def Let_def split: if_splits)
  then show ?thesis by simp
qed

definition mapped_range :: "memory \<Rightarrow> u64 \<Rightarrow> u64 \<Rightarrow> nat \<Rightarrow> bool" where
  "mapped_range m pt va len \<longleftrightarrow> (\<forall>k<len. uaddr m pt (va + of_nat k) \<noteq> None)"

definition user_bytes :: "memory \<Rightarrow> u64 \<Rightarrow> u64 \<Rightarrow> nat \<Rightarrow> u8 list" where
  "user_bytes m pt va len = map (\<lambda>k. m (the (uaddr m pt (va + of_nat k)))) [0..<len]"

lemma word_offset: "n \<le> j \<Longrightarrow> (va :: u64) + of_nat n + of_nat (j - n) = va + of_nat j"
  by (metis add.assoc le_add_diff_inverse of_nat_add)

lemma length_user_bytes [simp]: "length (user_bytes m pt va n) = n"
  by (simp add: user_bytes_def)

lemma user_bytes_split:
  "user_bytes m pt va (n + k) = user_bytes m pt va n @ user_bytes m pt (va + of_nat n) k"
  by (rule nth_equalityI) (auto simp: user_bytes_def nth_append word_offset)

lemma mapped_range_split:
  "mapped_range m pt va (n + k) \<longleftrightarrow> mapped_range m pt va n \<and> mapped_range m pt (va + of_nat n) k"
  unfolding mapped_range_def
proof (intro iffI conjI allI impI)
  fix j assume a: "\<forall>j<n + k. uaddr m pt (va + of_nat j) \<noteq> None"
  show "j < n \<Longrightarrow> uaddr m pt (va + of_nat j) \<noteq> None" using a by simp
  show "j < k \<Longrightarrow> uaddr m pt (va + of_nat n + of_nat j) \<noteq> None"
    using a[rule_format, of "n + j"] by (simp add: add.assoc)
next
  fix j assume a: "(\<forall>j<n. uaddr m pt (va + of_nat j) \<noteq> None) \<and> (\<forall>j<k. uaddr m pt (va + of_nat n + of_nat j) \<noteq> None)"
    and j: "j < n + k"
  show "uaddr m pt (va + of_nat j) \<noteq> None"
  proof (cases "j < n")
    case False
    have "j - n < k" using j False by simp
    then have "uaddr m pt (va + of_nat n + of_nat (j - n)) \<noteq> None" using a by blast
    then show ?thesis using False by (simp add: word_offset)
  qed (use a in simp)
qed

lemma chunk_user_bytes:
  assumes "user_page m pt (PGROUNDDOWN va) \<noteq> 0"
  shows "load_bytes m (user_page m pt (PGROUNDDOWN va) + (va - PGROUNDDOWN va)) (chunk va len) = user_bytes m pt va (chunk va len)"
    "mapped_range m pt va (chunk va len)"
  using assms by (auto simp: load_bytes_conv user_bytes_def mapped_range_def uaddr_chunk)

text \<open>
  C26 (reading user memory). \<^verbatim>\<open>copyin\<close> always returns.  If the whole range is mapped for the user it returns 0 and
  delivers exactly the bytes of the range; otherwise it returns -1, having delivered a
  proper prefix of them, all from mapped addresses.
\<close>

theorem copyin_exact:
  "\<exists>r bs. copyin pt va len s = OK (r, bs) \<and>
     (if mapped_range (mem s) pt va len then r = 0 \<and> bs = user_bytes (mem s) pt va len
      else r = - 1 \<and> length bs < len \<and> mapped_range (mem s) pt va (length bs) \<and> bs = user_bytes (mem s) pt va (length bs))"
proof (induction pt va len s rule: copyin.induct)
  case (1 pt va len s)
  let ?m = "mem s" and ?p = "user_page (mem s) pt (PGROUNDDOWN va)" and ?n = "chunk va len"
  show ?case
  proof (cases "len = 0")
    case True
    then show ?thesis by (simp add: copyin.simps[of pt va 0] mapped_range_def user_bytes_def)
  next
    case False
    show ?thesis
    proof (cases "?p = 0")
      case True
      then have "uaddr ?m pt (va + of_nat 0) = None" by (simp add: uaddr_def)
      then have "\<not> mapped_range ?m pt va len" using False unfolding mapped_range_def by blast
      then show ?thesis using True False
        by (simp add: copyin.simps[of pt va len] walkaddr_user_page mapped_range_def user_bytes_def)
    next
      case p: False
      have split: "len = ?n + (len - ?n)" using chunk_le[of va len] by simp
      obtain r bs where c: "copyin pt (PGROUNDDOWN va + PGSIZE) (len - ?n) s = OK (r, bs)"
        and ih: "if mapped_range ?m pt (PGROUNDDOWN va + PGSIZE) (len - ?n)
          then r = 0 \<and> bs = user_bytes ?m pt (PGROUNDDOWN va + PGSIZE) (len - ?n)
          else r = - 1 \<and> length bs < len - ?n \<and> mapped_range ?m pt (PGROUNDDOWN va + PGSIZE) (length bs)
            \<and> bs = user_bytes ?m pt (PGROUNDDOWN va + PGSIZE) (length bs)"
        using 1[OF False refl walkaddr_user_page p refl] by blast
      have eq: "copyin pt va len s = OK (r, user_bytes ?m pt va ?n @ bs)"
        using False p c by (simp add: copyin.simps[of pt va len] walkaddr_user_page Let_def chunk_user_bytes)
      show ?thesis
      proof (cases "?n < len")
        case True
        note nx = chunk_next[OF True]
        have m: "mapped_range ?m pt va (?n + j) \<longleftrightarrow> mapped_range ?m pt (va + of_nat ?n) j" for j
          using chunk_user_bytes(2)[OF p, of len] mapped_range_split by blast
        show ?thesis
        proof (cases "mapped_range ?m pt va len")
          case mt: True
          then show ?thesis using ih m[of "len - ?n"] split user_bytes_split[of ?m pt va ?n "len - ?n"]
            by (simp add: eq nx)
        next
          case mf: False
          then have "r = - 1 \<and> length bs < len - ?n \<and> mapped_range ?m pt (va + of_nat ?n) (length bs)
            \<and> bs = user_bytes ?m pt (va + of_nat ?n) (length bs)"
            using ih m[of "len - ?n"] split by (simp add: nx)
          then show ?thesis
            using mf m[of "length bs"] user_bytes_split[of ?m pt va ?n "length bs"] True
            by (auto simp: eq)
        qed
      next
        case False
        then have "?n = len" using chunk_le[of va len] by simp
        then show ?thesis using ih chunk_user_bytes[OF p, of len]
          by (simp add: eq user_bytes_def mapped_range_def)
      qed
    qed
  qed
qed

section \<open>Strings from user space\<close>

text \<open>\<open>k\<close> is the offset of the first NUL of the string at \<open>va\<close>, and everything up to it is mapped.\<close>

definition str_at :: "memory \<Rightarrow> u64 \<Rightarrow> u64 \<Rightarrow> nat \<Rightarrow> bool" where
  "str_at m pt va k \<longleftrightarrow> mapped_range m pt va (Suc k) \<and> m (the (uaddr m pt (va + of_nat k))) = 0
     \<and> (\<forall>j<k. m (the (uaddr m pt (va + of_nat j))) \<noteq> 0)"

lemma copystr_page_conv:
  "copystr_page m p n =
     (let bs = load_bytes m p n in if 0 \<in> set bs then (takeWhile (\<lambda>b. b \<noteq> 0) bs @ [0], True) else (bs, False))"
  by (induction n arbitrary: p) (auto simp: Let_def split: prod.splits)

lemma str_at_unique: "str_at m pt va k \<Longrightarrow> str_at m pt va j \<Longrightarrow> k = j"
  by (auto simp: str_at_def) (metis linorder_neqE_nat)

lemma str_at_shift:
  assumes "mapped_range m pt va n" "0 \<notin> set (user_bytes m pt va n)"
  shows "str_at m pt (va + of_nat n) k \<longleftrightarrow> str_at m pt va (n + k)"
proof -
  have nz: "m (the (uaddr m pt (va + of_nat j))) \<noteq> 0" if "j < n" for j
    using assms(2) that by (force simp: user_bytes_def)
  have "(\<forall>j<n + k. m (the (uaddr m pt (va + of_nat j))) \<noteq> 0) \<longleftrightarrow>
      (\<forall>j<k. m (the (uaddr m pt (va + of_nat n + of_nat j))) \<noteq> 0)" (is "?L \<longleftrightarrow> ?R")
  proof
    assume ?L
    then show ?R by (metis (no_types, opaque_lifting) add.assoc add_less_cancel_left of_nat_add)
  next
    assume R: ?R
    show ?L
    proof (intro allI impI)
      fix j assume j: "j < n + k"
      show "m (the (uaddr m pt (va + of_nat j))) \<noteq> 0"
      proof (cases "j < n")
        case False
        have "j - n < k" using j False by simp
        then have "m (the (uaddr m pt (va + of_nat n + of_nat (j - n)))) \<noteq> 0" using R by blast
        then show ?thesis using False by (simp add: word_offset)
      qed (rule nz)
    qed
  qed
  moreover have "va + of_nat n + of_nat k = va + of_nat (n + k)" by (simp add: add.assoc)
  ultimately show ?thesis
    using assms(1) mapped_range_split[of m pt va n "Suc k"] by (simp add: str_at_def add.assoc)
qed

lemma str_at_first:
  assumes "mapped_range m pt va n" "0 \<in> set (user_bytes m pt va n)"
  shows "\<exists>k<n. str_at m pt va k \<and>
    takeWhile (\<lambda>b. b \<noteq> 0) (user_bytes m pt va n) @ [0] = user_bytes m pt va (Suc k)"
proof -
  let ?b = "\<lambda>k. m (the (uaddr m pt (va + of_nat k)))"
  define k where "k = (LEAST k. k < n \<and> ?b k = 0)"
  have "\<exists>k. k < n \<and> ?b k = 0" using assms(2) by (force simp: user_bytes_def)
  then have "k < n \<and> ?b k = 0" unfolding k_def by (rule LeastI_ex)
  moreover from this have "\<forall>j<k. ?b j \<noteq> 0" using not_less_Least[of _ "\<lambda>k. k < n \<and> ?b k = 0"] unfolding k_def by fastforce
  ultimately have k: "k < n" "?b k = 0" "\<forall>j<k. ?b j \<noteq> 0" by blast+
  have "mapped_range m pt va (Suc k)" using assms(1) k(1) by (simp add: mapped_range_def)
  moreover have "takeWhile (\<lambda>b. b \<noteq> 0) (user_bytes m pt va n) = user_bytes m pt va k"
    using k by (subst takeWhile_eq_take_P_nth[of k]) (auto simp: user_bytes_def take_map)
  moreover have "user_bytes m pt va (Suc k) = user_bytes m pt va k @ [?b k]" by (simp add: user_bytes_def)
  ultimately show ?thesis using k by (auto simp: str_at_def)
qed

text \<open>
  C27 (reading strings from user memory). \<^verbatim>\<open>copyinstr\<close> always returns.  If a NUL-terminated string of fewer than \<open>n\<close>
  characters starts at \<open>va\<close> on mapped pages, it returns 0 and delivers that string with its
  NUL and nothing more; otherwise it returns -1.
\<close>

theorem copyinstr_exact:
  "\<exists>r bs. copyinstr pt va n s = OK (r, bs) \<and>
     (if \<exists>k<n. str_at (mem s) pt va k
      then r = 0 \<and> (\<exists>k<n. str_at (mem s) pt va k \<and> bs = user_bytes (mem s) pt va (Suc k))
      else r = - 1)"
proof (induction pt va n s rule: copyinstr.induct)
  case (1 pt va n s)
  let ?m = "mem s" and ?p = "user_page (mem s) pt (PGROUNDDOWN va)" and ?c = "chunk va n"
  show ?case
  proof (cases "n = 0")
    case True
    then show ?thesis by (simp add: copyinstr.simps[of pt va 0])
  next
    case n: False
    show ?thesis
    proof (cases "?p = 0")
      case True
      then have "uaddr ?m pt (va + of_nat 0) = None" by (simp add: uaddr_def)
      then have "\<not> str_at ?m pt va k" for k unfolding str_at_def mapped_range_def by blast
      then show ?thesis using True n
        by (simp add: copyinstr.simps[of pt va n] walkaddr_user_page)
    next
      case p: False
      note c = chunk_user_bytes[OF p, of n]
      show ?thesis
      proof (cases "0 \<in> set (user_bytes ?m pt va ?c)")
        case True
        obtain k where k: "k < ?c" "str_at ?m pt va k"
          "takeWhile (\<lambda>b. b \<noteq> 0) (user_bytes ?m pt va ?c) @ [0] = user_bytes ?m pt va (Suc k)"
          using str_at_first[OF c(2) True] by blast
        have "copyinstr pt va n s = OK (0, user_bytes ?m pt va (Suc k))"
          using n p True k(3)
          by (simp add: copyinstr.simps[of pt va n] walkaddr_user_page Let_def copystr_page_conv c(1))
        moreover have "k < n" using k(1) chunk_le[of va n] by simp
        ultimately show ?thesis using k(2) by auto
      next
        case False
        obtain r bs where ci: "copyinstr pt (PGROUNDDOWN va + PGSIZE) (n - ?c) s = OK (r, bs)"
          and ih: "if \<exists>k<n - ?c. str_at ?m pt (PGROUNDDOWN va + PGSIZE) k
            then r = 0 \<and> (\<exists>k<n - ?c. str_at ?m pt (PGROUNDDOWN va + PGSIZE) k
              \<and> bs = user_bytes ?m pt (PGROUNDDOWN va + PGSIZE) (Suc k))
            else r = - 1"
          using 1[OF n refl walkaddr_user_page p refl] False
          by (simp add: copystr_page_conv c(1) Let_def) blast
        have eq: "copyinstr pt va n s = OK (r, user_bytes ?m pt va ?c @ bs)"
          using n p False ci
          by (simp add: copyinstr.simps[of pt va n] walkaddr_user_page Let_def copystr_page_conv c(1))
        have ge: "?c \<le> k" if "str_at ?m pt va k" for k
          using that False by (force simp: str_at_def user_bytes_def not_less[symmetric])
        show ?thesis
        proof (cases "?c < n")
          case True
          note sh = str_at_shift[OF c(2) False]
          have iff: "(\<exists>k<n. str_at ?m pt va k) \<longleftrightarrow> (\<exists>k<n - ?c. str_at ?m pt (va + of_nat ?c) k)"
            using ge sh by (metis (no_types, opaque_lifting) True diff_less_mono less_diff_conv add.commute le_add_diff_inverse)
          show ?thesis
          proof (cases "\<exists>k<n. str_at ?m pt va k")
            case ex: True
            then obtain k where "r = 0" "k < n - ?c" "str_at ?m pt (va + of_nat ?c) k"
              "bs = user_bytes ?m pt (va + of_nat ?c) (Suc k)"
              using ih iff by (auto simp: chunk_next[OF True])
            then show ?thesis using ex sh user_bytes_split[of ?m pt va ?c "Suc k"]
              by (auto simp: eq intro!: exI[of _ "?c + k"])
          next
            case nex: False
            then have "r = - 1" using ih unfolding chunk_next[OF True] iff by simp
            then show ?thesis unfolding eq using nex by auto
          qed
        next
          case full: False
          then have "?c = n" using chunk_le[of va n] by simp
          then have "\<not> (\<exists>k<n. str_at ?m pt va k)" using ge leD by fastforce
          moreover have "r = - 1"
            using ci full chunk_le[of va n] by (simp add: copyinstr.simps[of pt _ 0])
          ultimately show ?thesis by (auto simp: eq)
        qed
      qed
    qed
  qed
qed

end
