(* ===== verification/Pagetree.thy ===== *)
theory Pagetree
  imports Pagetable
begin

text \<open>
  Page tables as trees.  \<open>node\<close> is the table reached along a path of indices, \<open>pt_ok\<close> says that
  the tables are pages of RAM in use, each at one path only.  The lemmas show what the stores of
  \<^verbatim>\<open>walk\<close> and \<^verbatim>\<open>mappages\<close> do to the entries, and that other trees do not notice.
\<close>

section \<open>The tree of tables\<close>

fun node :: "memory \<Rightarrow> u64 \<Rightarrow> nat list \<Rightarrow> u64 option" where
  "node m pt [] = Some pt"
| "node m pt (i # is) =
     (let e = load64 m (pt + 8 * of_nat i) in if e AND PTE_V \<noteq> 0 then node m (PTE2PA e) is else None)"

definition is_path :: "nat list \<Rightarrow> bool" where
  "is_path p \<longleftrightarrow> length p \<le> 2 \<and> (\<forall>i \<in> set p. i < 512)"

definition vpath :: "u64 \<Rightarrow> nat list" where
  "vpath va = [unat (PX 2 va), unat (PX 1 va)]"

lemma is_path_vpath [simp]: "is_path (vpath va)" "is_path []" "is_path (take k (vpath va))"
  using PX_less[of 2 va] PX_less[of 1 va]
  by (auto simp: is_path_def vpath_def dest: in_set_takeD)

lemma node_append: "node m pt (p @ q) = Option.bind (node m pt p) (\<lambda>a. node m a q)"
  by (induction p arbitrary: pt) (auto simp: Let_def)

lemma pte_at_nat: "pte_at pt l va = pt + 8 * of_nat (unat (PX l va))"
  by (simp add: pte_at_def)

lemma lookup_node: "lookup m pt va = (case node m pt (vpath va) of None \<Rightarrow> 0 | Some t \<Rightarrow> pte_at t 0 va)"
  by (simp add: lookup_def vpath_def numeral_2_eq_2 pte_at_nat Let_def)

text \<open>Entries of a table lie on its page, and different entries do not overlap.\<close>

lemma unat_entry:
  fixes t x :: u64
  assumes "k < 512" "in_range (t + 8 * of_nat k) 8 x"
  shows "unat (x - t) = unat (x - (t + 8 * of_nat k)) + 8 * k"
proof -
  define y where "y = x - (t + 8 * of_nat k)"
  have y: "unat y < 8" using assms(2) by (simp add: in_range_def y_def)
  have z: "unat (8 * of_nat k :: u64) = 8 * k" using assms(1) by (simp add: unat_word_ariths unat_of_nat)
  have "x - t = y + 8 * of_nat k" by (simp add: y_def)
  then have "unat (x - t) = (unat y + unat (8 * of_nat k :: u64)) mod 2 ^ 64"
    by (simp only: unat_word_ariths) simp
  then show ?thesis using y z assms(1) unfolding y_def[symmetric] by simp
qed

lemma entry_on_page:
  assumes "page_aligned t" "i < 512" "in_range (t + 8 * of_nat i) 8 x"
  shows "PGROUNDDOWN x = t"
proof -
  have "in_range t 4096 x" using unat_entry[OF assms(2,3)] assms(2,3) by (simp add: in_range_def)
  then show ?thesis using assms(1) by (simp add: in_page)
qed

lemma entry_overlap:
  assumes "i < 512" "j < 512" "in_range (t + 8 * of_nat i) 8 x" "in_range (t + 8 * of_nat j) 8 x"
  shows "i = j"
  using unat_entry[OF assms(1,3)] unat_entry[OF assms(2,4)] assms(3,4) by (simp add: in_range_def)

lemma load_entry_store:
  assumes "page_aligned t" "page_aligned u" "i < 512" "j < 512"
  shows "load64 (store64 m (t + 8 * of_nat i) v) (u + 8 * of_nat j) =
    (if t = u \<and> i = j then v else load64 m (u + 8 * of_nat j))"
proof (cases "t = u \<and> i = j")
  case False
  have "\<not> in_range (t + 8 * of_nat i) 8 x" if "in_range (u + 8 * of_nat j) 8 x" for x
    using False entry_on_page[OF assms(1,3), of x] entry_on_page[OF assms(2,4) that]
      entry_overlap[OF assms(3,4), of u x] that by auto
  then have "load64 (store64 m (t + 8 * of_nat i) v) (u + 8 * of_nat j) = load64 m (u + 8 * of_nat j)"
    by (intro load64_cong) (simp add: store64_other)
  then show ?thesis using False by (simp only: if_False)
qed (simp add: load64_store64_same)

text \<open>The tree depends only on the pages of its inner tables.\<close>

lemma node_cong:
  assumes "\<And>q a x. length q < length p \<Longrightarrow> q = take (length q) p \<Longrightarrow> node m pt q = Some a \<Longrightarrow>
      PGROUNDDOWN x = a \<Longrightarrow> m x = m' x"
    and "\<forall>i \<in> set p. i < 512"
    and "\<And>q a. q = take (length q) p \<Longrightarrow> node m pt q = Some a \<Longrightarrow> page_aligned a"
  shows "node m' pt p = node m pt p"
  using assms
proof (induction p arbitrary: pt)
  case (Cons i p)
  have al: "page_aligned pt" using Cons.prems(3)[of "[]"] by simp
  have l: "load64 m' (pt + 8 * of_nat i) = load64 m (pt + 8 * of_nat i)"
    using Cons.prems(1)[of "[]"] Cons.prems(2) entry_on_page[OF al]
    by (intro load64_cong) auto
  show ?case
  proof (cases "load64 m (pt + 8 * of_nat i) AND PTE_V = 0")
    case False
    have "node m' (PTE2PA (load64 m (pt + 8 * of_nat i))) p = node m (PTE2PA (load64 m (pt + 8 * of_nat i))) p"
    proof (rule Cons.IH)
      fix q a x
      show "m x = m' x" if "length q < length p" "q = take (length q) p"
        "node m (PTE2PA (load64 m (pt + 8 * of_nat i))) q = Some a" "PGROUNDDOWN x = a"
        using Cons.prems(1)[of "i # q" a x] that False by (simp add: Let_def)
      show "page_aligned a" if "q = take (length q) p" "node m (PTE2PA (load64 m (pt + 8 * of_nat i))) q = Some a"
        using Cons.prems(3)[of "i # q" a] that False by (simp add: Let_def)
    qed (use Cons.prems in auto)
    then show ?thesis using False l by (simp add: Let_def)
  qed (simp add: l Let_def)
qed simp

section \<open>Well-formed page tables\<close>

definition pt_ok :: "'a kmem_scheme \<Rightarrow> u64 \<Rightarrow> bool" where
  "pt_ok s pt \<longleftrightarrow>
     (\<forall>p a. is_path p \<longrightarrow> node (mem s) pt p = Some a \<longrightarrow> page_ok s a \<and> 0 < refcount s a) \<and>
     (\<forall>p q a. is_path p \<longrightarrow> is_path q \<longrightarrow> node (mem s) pt p = Some a \<longrightarrow> node (mem s) pt q = Some a \<longrightarrow> p = q)"

definition nodes :: "memory \<Rightarrow> u64 \<Rightarrow> u64 set" where
  "nodes m pt = {a. \<exists>p. is_path p \<and> node m pt p = Some a}"

lemma nodesI: "is_path p \<Longrightarrow> node m pt p = Some a \<Longrightarrow> a \<in> nodes m pt"
  by (auto simp: nodes_def)

lemma pt_okD:
  assumes "pt_ok s pt" "is_path p" "node (mem s) pt p = Some a"
  shows "page_ok s a" "0 < refcount s a" "page_aligned a"
    "is_path q \<Longrightarrow> node (mem s) pt q = Some a \<Longrightarrow> p = q"
proof -
  show ok: "page_ok s a" "0 < refcount s a" using assms by (auto simp: pt_ok_def)
  show "page_aligned a" using ok(1) by (rule page_okD)
  show "is_path q \<Longrightarrow> node (mem s) pt q = Some a \<Longrightarrow> p = q" using assms by (auto simp: pt_ok_def)
qed

lemma is_path_take: "is_path p \<Longrightarrow> is_path (take k p)"
  by (auto simp: is_path_def dest: in_set_takeD)

lemma node_same:
  assumes "pt_ok s pt" "is_path p"
    and "\<And>q a x. is_path q \<Longrightarrow> length q < 2 \<Longrightarrow> node (mem s) pt q = Some a \<Longrightarrow> PGROUNDDOWN x = a \<Longrightarrow> mem s x = m' x"
  shows "node m' pt p = node (mem s) pt p"
proof (rule node_cong)
  fix q a x
  show "mem s x = m' x" if "length q < length p" "q = take (length q) p" "node (mem s) pt q = Some a" "PGROUNDDOWN x = a"
    using assms(3)[of q a x] that assms(2) is_path_take[OF assms(2), of "length q"] by (simp add: is_path_def)
  show "page_aligned a" if "q = take (length q) p" "node (mem s) pt q = Some a"
    using pt_okD(3)[OF assms(1) _ that(2)] is_path_take[OF assms(2), of "length q"] that(1) by simp
qed (use assms(2) in \<open>simp add: is_path_def\<close>)

text \<open>A tree whose pages keep their contents and stay held is the same tree.\<close>

lemma pt_ok_frame:
  assumes "pt_ok s pt" "kend s' = kend s"
    and "\<And>a. a \<in> nodes (mem s) pt \<Longrightarrow> 0 < refcount s' a"
    and "\<And>x. PGROUNDDOWN x \<in> nodes (mem s) pt \<Longrightarrow> mem s' x = mem s x"
  shows "pt_ok s' pt" "is_path p \<Longrightarrow> node (mem s') pt p = node (mem s) pt p"
    "entry (mem s') pt va = entry (mem s) pt va"
proof -
  have n: "node (mem s') pt p = node (mem s) pt p" if "is_path p" for p
  proof (rule node_same[OF assms(1) that])
    fix q a x assume q: "is_path q" "node (mem s) pt q = Some a" "PGROUNDDOWN x = a"
    then have "a \<in> nodes (mem s) pt" by (auto simp: nodes_def)
    then show "mem s x = mem s' x" using assms(4) q(3) by simp
  qed
  then show "is_path p \<Longrightarrow> node (mem s') pt p = node (mem s) pt p" .
  show "pt_ok s' pt"
    unfolding pt_ok_def
  proof (intro conjI allI impI)
    fix p a assume p: "is_path p" "node (mem s') pt p = Some a"
    then have "a \<in> nodes (mem s) pt" using n by (auto simp: nodes_def)
    then show "0 < refcount s' a" by (rule assms(3))
    show "page_ok s' a" using pt_okD(1)[OF assms(1) p(1)] p n assms(2) by (simp add: page_ok_def)
  next
    fix p q a
    assume "is_path p" "is_path q" "node (mem s') pt p = Some a" "node (mem s') pt q = Some a"
    then show "p = q" using pt_okD(4)[OF assms(1)] n by metis
  qed
  show "entry (mem s') pt va = entry (mem s) pt va"
  proof (cases "node (mem s) pt (vpath va)")
    case None
    then show ?thesis using n by (simp add: entry_def lookup_node Let_def)
  next
    case (Some t)
    have al: "page_aligned t" using pt_okD(3)[OF assms(1) _ Some] by simp
    have "load64 (mem s') (pte_at t 0 va) = load64 (mem s) (pte_at t 0 va)"
    proof (rule load64_cong)
      fix x assume "in_range (pte_at t 0 va) 8 x"
      then have "PGROUNDDOWN x = t" using entry_on_page[OF al PX_less] by (simp add: pte_at_nat)
      moreover have "t \<in> nodes (mem s) pt" by (rule nodesI[OF is_path_vpath(1) Some])
      ultimately show "mem s' x = mem s x" by (intro assms(4)) simp
    qed
    then show ?thesis using Some n by (simp add: entry_def lookup_node Let_def)
  qed
qed

section \<open>Writing an entry\<close>

lemma is_path_len2: "is_path p \<Longrightarrow> length q < 2 \<Longrightarrow> length p = 2 \<Longrightarrow> q \<noteq> p"
  by auto

lemma vpath_len [simp]: "length (vpath va) = 2"
  by (simp add: vpath_def)

text \<open>Storing into an entry of a last-level table leaves the tree as it is.\<close>

lemma store_leaf:
  fixes v :: u64
  assumes "pt_ok s pt" "node (mem s) pt (vpath va) = Some t" "i < 512"
    and s'_def: "s' = s\<lparr>mem := store64 (mem s) (t + 8 * of_nat i) v\<rparr>"
  shows "is_path p \<Longrightarrow> node (mem s') pt p = node (mem s) pt p" "pt_ok s' pt"
proof -
  have al: "page_aligned t" using pt_okD(3)[OF assms(1) _ assms(2)] by simp
  have n: "node (mem s') pt p = node (mem s) pt p" if "is_path p" for p
  proof (rule node_same[OF assms(1) that])
    fix q a x assume q: "is_path q" "length q < 2" "node (mem s) pt q = Some a" "PGROUNDDOWN x = a"
    have "a \<noteq> t" using pt_okD(4)[OF assms(1) q(1,3)] assms(2) q(2) vpath_len is_path_vpath(1)
      by (metis less_irrefl)
    then have "\<not> in_range (t + 8 * of_nat i) 8 x" using entry_on_page[OF al assms(3)] q(4) by auto
    then show "mem s x = mem s' x" by (simp add: s'_def store64_other)
  qed
  then show "is_path p \<Longrightarrow> node (mem s') pt p = node (mem s) pt p" .
  show "pt_ok s' pt" unfolding pt_ok_def
  proof (intro conjI allI impI)
    fix p a assume p: "is_path p" "node (mem s') pt p = Some a"
    show "page_ok s' a" "0 < refcount s' a"
      using pt_okD(1,2)[OF assms(1) p(1)] p n by (auto simp: s'_def)
  next
    fix p q a assume "is_path p" "is_path q" "node (mem s') pt p = Some a" "node (mem s') pt q = Some a"
    then show "p = q" using pt_okD(4)[OF assms(1)] n by metis
  qed
qed

definition same_page :: "u64 \<Rightarrow> u64 \<Rightarrow> bool" where
  "same_page va va' \<longleftrightarrow> PX 0 va = PX 0 va' \<and> PX 1 va = PX 1 va' \<and> PX 2 va = PX 2 va'"

lemma same_page_vpath: "same_page va va' \<Longrightarrow> vpath va = vpath va' \<and> pte_at t l0 va = t + 8 * PX l0 va"
  by (simp add: same_page_def vpath_def pte_at_def)

lemma lookup_inject:
  assumes "pt_ok s pt" "node (mem s) pt (vpath va) = Some t" "node (mem s) pt (vpath va') = Some t'"
    "pte_at t 0 va = pte_at t' 0 va'"
  shows "same_page va va'"
proof -
  have al: "page_aligned t" "page_aligned t'"
    using pt_okD(3)[OF assms(1) is_path_vpath(1) assms(2)] pt_okD(3)[OF assms(1) is_path_vpath(1) assms(3)] .
  have r: "in_range (t + 8 * of_nat (unat (PX 0 va))) 8 (pte_at t 0 va)"
    "in_range (t' + 8 * of_nat (unat (PX 0 va'))) 8 (pte_at t 0 va)"
    using assms(4) by (simp_all add: pte_at_nat)
  have t: "t = t'"
    by (rule trans[OF entry_on_page[OF al(1) PX_less r(1), symmetric] entry_on_page[OF al(2) PX_less r(2)]])
  have "unat (PX 0 va) = unat (PX 0 va')"
    by (rule entry_overlap[OF PX_less PX_less r(1) r(2)[folded t]])
  moreover have "vpath va = vpath va'"
    by (rule pt_okD(4)[OF assms(1) is_path_vpath(1) assms(2) is_path_vpath(1) assms(3)[folded t]])
  ultimately show ?thesis by (simp add: same_page_def vpath_def word_unat_eq_iff)
qed

lemma entry_store_leaf:
  assumes "pt_ok s pt" "node (mem s) pt (vpath va) = Some t" "\<And>a. page_ok s a \<Longrightarrow> a \<noteq> 0"
  shows "entry (store64 (mem s) (pte_at t 0 va) v) pt va' = (if same_page va va' then v else entry (mem s) pt va')"
proof -
  let ?s = "s\<lparr>mem := store64 (mem s) (pte_at t 0 va) v\<rparr>"
  have n: "node (mem ?s) pt (vpath va') = node (mem s) pt (vpath va')"
    using store_leaf(1)[OF assms(1,2) PX_less[of 0 va], of ?s v "vpath va'"] by (simp add: pte_at_nat)
  show ?thesis
  proof (cases "node (mem s) pt (vpath va')")
    case None
    then have "\<not> same_page va va'" using assms(2) same_page_vpath[of va va'] by force
    then show ?thesis using None n by (simp add: entry_def lookup_node Let_def)
  next
    case (Some t')
    have al: "page_aligned t" "page_aligned t'"
      using pt_okD(3)[OF assms(1) is_path_vpath(1) assms(2)] pt_okD(3)[OF assms(1) is_path_vpath(1) Some] .
    have nz: "pte_at t' 0 va' \<noteq> 0"
    proof
      assume "pte_at t' 0 va' = 0"
      then have "in_range (t' + 8 * of_nat (unat (PX 0 va'))) 8 0" by (simp add: pte_at_nat)
      then have "t' = 0" using entry_on_page[OF al(2) PX_less[of 0 va'], of 0] by (simp add: PGROUNDDOWN_def)
      then show False using assms(3) pt_okD(1)[OF assms(1) _ Some] by simp
    qed
    have iff: "(t = t' \<and> unat (PX 0 va) = unat (PX 0 va')) \<longleftrightarrow> same_page va va'"
    proof
      assume "t = t' \<and> unat (PX 0 va) = unat (PX 0 va')"
      then have "pte_at t 0 va = pte_at t' 0 va'" by (simp add: pte_at_nat)
      then show "same_page va va'" by (rule lookup_inject[OF assms(1,2) Some])
    next
      assume sp: "same_page va va'"
      then show "t = t' \<and> unat (PX 0 va) = unat (PX 0 va')"
        using same_page_vpath[OF sp] assms(2) Some by (simp add: same_page_def)
    qed
    show ?thesis
      using Some n nz load_entry_store[OF al PX_less[of 0 va] PX_less[of 0 va'], of "mem s" v]
      by (simp add: entry_def lookup_node pte_at_nat iff Let_def)
  qed
qed

section \<open>Adding a table\<close>

lemma kmem_inv_mem:
  assumes "kmem_inv s" "\<And>q x. page_ok s q \<Longrightarrow> refcount s q = 0 \<Longrightarrow> PGROUNDDOWN x = q \<Longrightarrow> m x = mem s x"
  shows "kmem_inv (s\<lparr>mem := m\<rparr>)"
proof -
  obtain fl where fl: "kmem_inv_of s fl" using assms(1) by (auto simp: kmem_inv_def)
  have "free_list m (freelist s) fl = free_list (mem s) (freelist s) fl"
  proof (rule free_list_cong)
    fix p x assume p: "p \<in> set fl" "in_range p 8 x"
    have ok: "page_ok s p" using kmem_inv_ofD(4)[OF fl p(1)] .
    have "PGROUNDDOWN x = p" using in_page[OF page_okD[OF ok], of x] in_range_mono[of 8 4096 p x] p(2) by simp
    then show "m x = mem s x" using assms(2)[OF ok] kmem_inv_ofD(6)[OF fl ok] p(1) by simp
  qed
  then have "kmem_inv_of (s\<lparr>mem := m\<rparr>) fl" using fl by (simp add: kmem_inv_of_def)
  then show ?thesis by (auto simp: kmem_inv_def)
qed

lemma node_snoc:
  "node m pt (p @ [i]) =
     (case node m pt p of None \<Rightarrow> None
      | Some a \<Rightarrow> if load64 m (a + 8 * of_nat i) AND PTE_V \<noteq> 0 then Some (PTE2PA (load64 m (a + 8 * of_nat i))) else None)"
  by (simp add: node_append Let_def split: option.splits)

lemma page_ok_below: "page_ok s p \<Longrightarrow> p < 2 ^ 56"
  by (simp add: page_ok_def word_less_nat_alt)

lemma PTE_V_PA2PTE: "(PA2PTE p OR f) AND PTE_V = f AND PTE_V"
  by (rule bit_word_eqI) (auto simp: PA2PTE_def bit_simps)

lemma held_nonzero: "kmem_inv s \<Longrightarrow> page_ok s a \<Longrightarrow> a \<noteq> 0"
  by (rule ka.valid_nonzero)

text \<open>A change of memory that adds the empty table \<open>p\<close> as child \<open>i\<close> of the table at \<open>q\<close>.\<close>

definition adds_table ::
  "'a kmem_scheme \<Rightarrow> 'a kmem_scheme \<Rightarrow> u64 \<Rightarrow> nat list \<Rightarrow> nat \<Rightarrow> u64 \<Rightarrow> u64 \<Rightarrow> bool" where
  "adds_table s s' pt q i a p \<longleftrightarrow>
     pt_ok s pt \<and> is_path (q @ [i]) \<and> node (mem s) pt q = Some a
     \<and> load64 (mem s) (a + 8 * of_nat i) AND PTE_V = 0
     \<and> page_ok s p \<and> refcount s p = 0 \<and> kend s' = kend s
     \<and> (\<forall>b. page_ok s b \<longrightarrow> refcount s' b = (if b = p then 1 else refcount s b))
     \<and> mem s' = store64 (\<lambda>x. if in_range p 4096 x then 0 else mem s x) (a + 8 * of_nat i) (PA2PTE p OR PTE_V)"

lemma adds_tableD:
  assumes "adds_table s s' pt q i a p"
  shows "pt_ok s pt" "node (mem s) pt q = Some a" "load64 (mem s) (a + 8 * of_nat i) AND PTE_V = 0"
    "page_ok s p" "refcount s p = 0" "kend s' = kend s"
    "page_ok s b \<Longrightarrow> refcount s' b = (if b = p then 1 else refcount s b)"
    "mem s' = store64 (\<lambda>x. if in_range p 4096 x then 0 else mem s x) (a + 8 * of_nat i) (PA2PTE p OR PTE_V)"
    "is_path q" "length q < 2" "i < 512"
    "page_ok s a" "0 < refcount s a" "page_aligned a" "a \<noteq> p" "page_aligned p"
proof -
  show *: "pt_ok s pt" "node (mem s) pt q = Some a" "load64 (mem s) (a + 8 * of_nat i) AND PTE_V = 0"
    "page_ok s p" "refcount s p = 0" "kend s' = kend s"
    "page_ok s b \<Longrightarrow> refcount s' b = (if b = p then 1 else refcount s b)"
    "mem s' = store64 (\<lambda>x. if in_range p 4096 x then 0 else mem s x) (a + 8 * of_nat i) (PA2PTE p OR PTE_V)"
    and q: "is_path q" "length q < 2" "i < 512"
    using assms by (auto simp: adds_table_def is_path_def)
  show "page_ok s a" "0 < refcount s a" "page_aligned a" using pt_okD(1-3)[OF *(1) q(1) *(2)] .
  then show "a \<noteq> p" using *(5) by auto
  show "page_aligned p" using *(4) by (rule page_okD)
qed

lemma load_other:
  assumes "adds_table s s' pt q i a p" "page_aligned b" "b \<noteq> p" "j < 512" "b \<noteq> a \<or> j \<noteq> i"
  shows "load64 (mem s') (b + 8 * of_nat j) = load64 (mem s) (b + 8 * of_nat j)"
proof -
  note D = adds_tableD[OF assms(1)]
  have "\<not> (a = b \<and> i = j)" using assms(5) by auto
  then have "load64 (mem s') (b + 8 * of_nat j) = load64 (\<lambda>x. if in_range p 4096 x then 0 else mem s x) (b + 8 * of_nat j)"
    unfolding D(8) using load_entry_store[OF D(14) assms(2) D(11) assms(4)] by auto
  also have "\<dots> = load64 (mem s) (b + 8 * of_nat j)"
  proof (rule load64_cong)
    fix x assume "in_range (b + 8 * of_nat j) 8 x"
    then have "PGROUNDDOWN x = b" by (rule entry_on_page[OF assms(2,4)])
    then have "\<not> in_range p 4096 x" using in_page[OF D(16), of x] assms(3) by simp
    then show "(if in_range p 4096 x then 0 else mem s x) = mem s x" by simp
  qed
  finally show ?thesis .
qed

lemma load_new:
  assumes "adds_table s s' pt q i a p" "j < 512"
  shows "load64 (mem s') (p + 8 * of_nat j) = 0"
proof -
  note D = adds_tableD[OF assms(1)]
  have "load64 (mem s') (p + 8 * of_nat j) = load64 (\<lambda>x. if in_range p 4096 x then 0 else mem s x) (p + 8 * of_nat j)"
    unfolding D(8) using load_entry_store[OF D(14,16,11) assms(2)] D(15) by simp
  also have "\<dots> = load64 (\<lambda>_. 0) (p + 8 * of_nat j)"
  proof (rule load64_cong)
    fix x assume "in_range (p + 8 * of_nat j) 8 x"
    then have "PGROUNDDOWN x = p" by (rule entry_on_page[OF D(16) assms(2)])
    then show "(if in_range p 4096 x then 0 else mem s x) = 0" using in_page[OF D(16), of x] by simp
  qed
  finally show ?thesis by (simp add: load64_zero)
qed

lemma load_link: "adds_table s s' pt q i a p \<Longrightarrow> load64 (mem s') (a + 8 * of_nat i) = PA2PTE p OR PTE_V"
  by (simp add: adds_tableD(8) load64_store64_same)

lemma node_new:
  assumes "adds_table s s' pt q i a p"
  shows "is_path r \<Longrightarrow> node (mem s') pt r = (if r = q @ [i] then Some p else node (mem s) pt r)"
proof (induction r rule: rev_induct)
  case (snoc j r)
  note D = adds_tableD[OF assms]
  have r: "is_path r" "j < 512" "length r < 2" using snoc.prems by (auto simp: is_path_def)
  have old: "node (mem s) pt (q @ [i]) = None" using D(2,3) by (simp add: node_snoc)
  show ?case
  proof (cases "r = q @ [i]")
    case True
    then show ?thesis using snoc.IH[OF r(1)] load_new[OF assms r(2)] old
        node_snoc[of "mem s'" pt "q @ [i]" j] node_snoc[of "mem s" pt "q @ [i]" j] by simp
  next
    case False
    then have eq: "node (mem s') pt r = node (mem s) pt r" using snoc.IH[OF r(1)] by simp
    show ?thesis
    proof (cases "node (mem s) pt r")
      case None
      then have "r \<noteq> q" using D(2) by auto
      then show ?thesis using None eq by (simp add: node_snoc)
    next
      case (Some b)
      have b: "page_aligned b" "b \<noteq> p" using pt_okD[OF D(1) r(1) Some] D(5) by auto
      have "b = a \<longleftrightarrow> r = q" using pt_okD(4)[OF D(1) r(1) Some D(9)] D(2) Some by auto
      then show ?thesis
        using eq Some load_other[OF assms b r(2)] load_link[OF assms] PTE_V_PA2PTE[of p PTE_V]
          PTE2PA_PA2PTE[OF D(16) page_ok_below[OF D(4)], of PTE_V]
        by (cases "r = q \<and> j = i") (auto simp: node_snoc)
    qed
  qed
qed simp

lemma new_pt_ok:
  assumes "adds_table s s' pt q i a p"
  shows "pt_ok s' pt"
proof -
  note D = adds_tableD[OF assms]
  have cases: "b = p \<and> r = q @ [i] \<or> b \<noteq> p \<and> page_ok s b \<and> 0 < refcount s b \<and> node (mem s) pt r = Some b"
    if r: "is_path r" "node (mem s') pt r = Some b" for r b
  proof (cases "r = q @ [i]")
    case False
    then have "node (mem s) pt r = Some b" using node_new[OF assms r(1)] r(2) by simp
    then show ?thesis using pt_okD(1,2)[OF D(1) r(1)] D(5) by auto
  qed (use node_new[OF assms r(1)] r(2) in simp)
  show ?thesis unfolding pt_ok_def
  proof (intro conjI allI impI)
    fix r b assume r: "is_path r" "node (mem s') pt r = Some b"
    have ok: "page_ok s b" using cases[OF r] D(4) by auto
    then show "page_ok s' b" using D(6) by (simp add: page_ok_def)
    show "0 < refcount s' b" using cases[OF r] D(7)[OF ok] by auto
  next
    fix r t b assume r: "is_path r" "is_path t" "node (mem s') pt r = Some b" "node (mem s') pt t = Some b"
    show "r = t"
      using cases[OF r(1,3)] cases[OF r(2,4)] pt_okD(4)[OF D(1) r(1) _ r(2)] by auto
  qed
qed

lemma new_entry:
  assumes "adds_table s s' pt q i a p"
  shows "entry (mem s') pt va = entry (mem s) pt va"
proof (cases "vpath va = q @ [i]")
  case True
  then have "node (mem s') pt (vpath va) = Some p" "node (mem s) pt (vpath va) = None"
    using node_new[OF assms is_path_vpath(1), of va] adds_tableD(2,3)[OF assms] by (simp_all add: node_snoc)
  then show ?thesis using load_new[OF assms PX_less] by (simp add: entry_def lookup_node pte_at_nat Let_def)
next
  case False
  then have n: "node (mem s') pt (vpath va) = node (mem s) pt (vpath va)"
    using node_new[OF assms is_path_vpath(1), of va] by simp
  show ?thesis
  proof (cases "node (mem s) pt (vpath va)")
    case (Some t)
    note D = adds_tableD[OF assms]
    note T = pt_okD[OF D(1) is_path_vpath(1) Some]
    have "vpath va \<noteq> q" using D(10) vpath_len[of va] by auto
    then have t: "page_aligned t" "t \<noteq> p" "t \<noteq> a" using T(1-3) T(4)[OF D(9)] D(2,5) by auto
    then show ?thesis using n Some load_other[OF assms t(1,2) PX_less]
      by (simp add: entry_def lookup_node pte_at_nat Let_def)
  qed (use n in \<open>simp add: entry_def lookup_node\<close>)
qed

lemma other_bytes:
  assumes "adds_table s s' pt q i a p" "PGROUNDDOWN x \<noteq> a" "PGROUNDDOWN x \<noteq> p"
  shows "mem s' x = mem s x"
proof -
  note D = adds_tableD[OF assms(1)]
  have "\<not> in_range (a + 8 * of_nat i) 8 x" using entry_on_page[OF D(14,11), of x] assms(2) by auto
  then show ?thesis using in_page[OF D(16), of x] assms(3) by (simp add: D(8) store64_other)
qed

section \<open>Walking with allocation\<close>

text \<open>
  A step that may extend the page table \<open>pt\<close>: pages in use keep their counts, and only tables of
  \<open>pt\<close> among them change their contents; every new table was free.
\<close>

definition grows :: "'a kmem_scheme \<Rightarrow> 'a kmem_scheme \<Rightarrow> u64 \<Rightarrow> bool" where
  "grows s s' pt \<longleftrightarrow> kend s' = kend s
     \<and> (\<forall>b. page_ok s b \<longrightarrow> 0 < refcount s b \<longrightarrow> refcount s' b = refcount s b)
     \<and> (\<forall>b x. page_ok s b \<longrightarrow> 0 < refcount s b \<longrightarrow> b \<notin> nodes (mem s) pt \<longrightarrow> PGROUNDDOWN x = b \<longrightarrow> mem s' x = mem s x)
     \<and> (\<forall>b \<in> nodes (mem s') pt. b \<in> nodes (mem s) pt \<or> \<not> (page_ok s b \<and> 0 < refcount s b))"

lemma growsD:
  assumes "grows s s' pt"
  shows "kend s' = kend s" "page_ok s' b = page_ok s b"
    "page_ok s b \<Longrightarrow> 0 < refcount s b \<Longrightarrow> refcount s' b = refcount s b"
    "page_ok s b \<Longrightarrow> 0 < refcount s b \<Longrightarrow> b \<notin> nodes (mem s) pt \<Longrightarrow> PGROUNDDOWN x = b \<Longrightarrow> mem s' x = mem s x"
    "b \<in> nodes (mem s') pt \<Longrightarrow> page_ok s b \<Longrightarrow> 0 < refcount s b \<Longrightarrow> b \<in> nodes (mem s) pt"
proof -
  show "kend s' = kend s" using assms by (simp add: grows_def)
  then show "page_ok s' b = page_ok s b" by (simp add: page_ok_def)
  show "page_ok s b \<Longrightarrow> 0 < refcount s b \<Longrightarrow> refcount s' b = refcount s b"
    "page_ok s b \<Longrightarrow> 0 < refcount s b \<Longrightarrow> b \<notin> nodes (mem s) pt \<Longrightarrow> PGROUNDDOWN x = b \<Longrightarrow> mem s' x = mem s x"
    "b \<in> nodes (mem s') pt \<Longrightarrow> page_ok s b \<Longrightarrow> 0 < refcount s b \<Longrightarrow> b \<in> nodes (mem s) pt"
    using assms by (auto simp: grows_def)
qed

lemma grows_refl: "grows s s pt"
  by (auto simp: grows_def)

lemma grows_trans:
  assumes "grows s s1 pt" "grows s1 s2 pt"
  shows "grows s s2 pt"
proof -
  note D1 = growsD[OF assms(1)] and D2 = growsD[OF assms(2)]
  show ?thesis unfolding grows_def
  proof (intro conjI allI impI ballI)
    show "kend s2 = kend s" using D1 D2 by simp
    fix b assume b: "page_ok s b" "0 < refcount s b"
    have b1: "page_ok s1 b" "0 < refcount s1 b" using b D1(2)[of b] D1(3)[of b] by simp_all
    show "refcount s2 b = refcount s b" using D1(3)[OF b] D2(3)[OF b1] by simp
    fix x assume n: "b \<notin> nodes (mem s) pt" "PGROUNDDOWN x = b"
    have "b \<notin> nodes (mem s1) pt" using D1(5)[of b] b n(1) by blast
    then show "mem s2 x = mem s x" using D1(4)[OF b n] D2(4)[OF b1 _ n(2)] by simp
  next
    fix b assume n: "b \<in> nodes (mem s2) pt"
    show "b \<in> nodes (mem s) pt \<or> \<not> (page_ok s b \<and> 0 < refcount s b)"
      using D1(5)[of b] D2(5)[OF n] D1(2)[of b] D1(3)[of b] by auto
  qed
qed

lemma adds_table_grows:
  assumes "adds_table s s' pt q i a p" "kmem_inv s1" "s' = s1\<lparr>mem := m\<rparr>" "\<And>b. page_ok s1 b = page_ok s b"
    "\<And>x. PGROUNDDOWN x \<noteq> p \<Longrightarrow> mem s1 x = mem s x"
    "\<And>b. page_ok s b \<Longrightarrow> refcount s1 b = refcount s' b"
  shows "grows s s' pt" "kmem_inv s'"
proof -
  note D = adds_tableD[OF assms(1)]
  have an: "a \<in> nodes (mem s) pt" using D(2,9) by (rule nodesI[rotated])
  show "grows s s' pt" unfolding grows_def
  proof (intro conjI allI impI ballI)
    show "kend s' = kend s" by (rule D(6))
    fix b assume b: "page_ok s b" "0 < refcount s b"
    have bp: "b \<noteq> p" using b D(5) by auto
    then show "refcount s' b = refcount s b" using D(7)[OF b(1)] by simp
    fix x assume "b \<notin> nodes (mem s) pt" "PGROUNDDOWN x = b"
    then show "mem s' x = mem s x" using other_bytes[OF assms(1), of x] an bp by auto
  next
    fix b assume "b \<in> nodes (mem s') pt"
    then obtain r where r: "is_path r" "node (mem s') pt r = Some b" by (auto simp: nodes_def)
    then show "b \<in> nodes (mem s) pt \<or> \<not> (page_ok s b \<and> 0 < refcount s b)"
      using node_new[OF assms(1) r(1)] D(5) by (auto simp: nodes_def split: if_splits)
  qed
  have "kmem_inv (s1\<lparr>mem := mem s'\<rparr>)"
  proof (rule kmem_inv_mem[OF assms(2)])
    fix b x assume b: "page_ok s1 b" "refcount s1 b = 0" "PGROUNDDOWN x = b"
    have ok: "page_ok s b" using b(1) assms(4) by simp
    have bp: "b \<noteq> p" "b \<noteq> a" using b(2) assms(6)[OF ok] D(7)[OF ok] D(13) by (auto split: if_splits)
    then show "mem s' x = mem s1 x" using other_bytes[OF assms(1), of x] assms(5)[of x] b(3) by simp
  qed
  then show "kmem_inv s'" using assms(3) by simp
qed

lemma take_vpath:
  assumes "Suc l \<le> 2"
  shows "take (2 - l) (vpath va) = take (2 - Suc l) (vpath va) @ [unat (PX (Suc l) va)]"
proof -
  have "l = 0 \<or> l = 1" using assms by auto
  then show ?thesis by (auto simp: vpath_def numeral_2_eq_2)
qed

definition walked :: "'a kmem_scheme \<Rightarrow> 'a kmem_scheme \<Rightarrow> u64 \<Rightarrow> u64 \<Rightarrow> u64 \<Rightarrow> bool" where
  "walked s s' root va pte \<longleftrightarrow>
     kmem_inv s' \<and> pt_ok s' root \<and> grows s s' root
     \<and> (\<forall>va'. entry (mem s') root va' = entry (mem s) root va')
     \<and> (pte \<noteq> 0 \<longrightarrow> (\<exists>t. node (mem s') root (vpath va) = Some t \<and> pte = pte_at t 0 va))"

lemma walked_trans:
  assumes "grows s s1 root" "\<And>va'. entry (mem s1) root va' = entry (mem s) root va'" "walked s1 s2 root va pte"
  shows "walked s s2 root va pte"
  using assms grows_trans[OF assms(1)] by (auto simp: walked_def)

lemma kalloc_table:
  assumes "kmem_inv s" "pt_ok s root" "is_path (q @ [i])" "node (mem s) root q = Some a"
    "load64 (mem s) (a + 8 * of_nat i) AND PTE_V = 0" "kalloc s = OK (p, s1)" "p \<noteq> 0"
    "s' = s1\<lparr>mem := store64 (memset p 0 4096 (mem s1)) (a + 8 * of_nat i) (PA2PTE p OR PTE_V)\<rparr>"
  shows "adds_table s s' root q i a p" "grows s s' root" "kmem_inv s'"
proof -
  note K = kalloc_OK_D[OF assms(1,6,7)]
  have al: "page_aligned p" using K(2) by (rule page_okD)
  have z: "memset p 0 4096 (mem s1) = (\<lambda>x. if in_range p 4096 x then 0 else mem s x)"
    by (rule ext) (simp add: K(7) memset_apply)
  have rc: "refcount s1 b = (if b = p then 1 else refcount s b)" if "page_ok s b" for b
    using K(4) K(6)[OF page_okD[OF that]] by simp
  show ad: "adds_table s s' root q i a p"
    unfolding adds_table_def using assms(2-5) K(2,3,5) rc by (simp add: assms(8) z)
  have ok1: "page_ok s1 b = page_ok s b" for b using K(5) by (simp add: page_ok_def)
  have m1: "mem s1 x = mem s x" if "PGROUNDDOWN x \<noteq> p" for x
    using that in_page[OF al, of x] by (simp add: K(7) memset_apply)
  show "grows s s' root" "kmem_inv s'"
    using adds_table_grows[OF ad K(1) assms(8) ok1 m1] by (simp_all add: assms(8))
qed

lemma walk_levels_alloc:
  assumes "l \<le> 2" "kmem_inv s" "pt_ok s root" "node (mem s) root (take (2 - l) (vpath va)) = Some pt"
  shows "\<exists>pte s'. walk_levels l pt va True s = OK (pte, s') \<and> walked s s' root va pte"
  using assms
proof (induction l arbitrary: s pt)
  case 0
  then show ?case by (auto simp: walked_def grows_refl)
next
  case (Suc l)
  let ?q = "take (2 - Suc l) (vpath va)" and ?i = "unat (PX (Suc l) va)"
  let ?e = "load64 (mem s) (pt + 8 * of_nat ?i)"
  note tk = take_vpath[OF Suc.prems(1)]
  have path: "is_path (?q @ [?i])" using is_path_vpath(3)[of "2 - l" va] by (simp add: tk)
  show ?case
  proof (cases "?e AND PTE_V = 0")
    case False
    have "node (mem s) root (take (2 - l) (vpath va)) = Some (PTE2PA ?e)"
      using False Suc.prems(4) by (simp add: tk node_snoc)
    then show ?thesis using Suc.IH[of s "PTE2PA ?e"] Suc.prems False by (simp add: pte_at_nat Let_def)
  next
    case absent: True
    obtain p s1 where k: "kalloc s = OK (p, s1)" using ka.alloc_total[OF Suc.prems(2)] by blast
    show ?thesis
    proof (cases "p = 0")
      case True
      then have "s1 = s" using kalloc_zero_D(1)[OF Suc.prems(2)] k by simp
      then show ?thesis using absent k True Suc.prems
        by (auto simp: pte_at_nat Let_def walked_def grows_refl)
    next
      case False
      let ?s = "s1\<lparr>mem := store64 (memset p 0 4096 (mem s1)) (pt + 8 * of_nat ?i) (PA2PTE p OR PTE_V)\<rparr>"
      note T = kalloc_table[OF Suc.prems(2,3) path Suc.prems(4) absent k False refl]
      have "node (mem ?s) root (take (2 - l) (vpath va)) = Some p"
        using node_new[OF T(1) path] by (simp add: tk)
      then obtain pte s' where "walk_levels l p va True ?s = OK (pte, s')" "walked ?s s' root va pte"
        using Suc.IH[of ?s p] Suc.prems(1) T(3) new_pt_ok[OF T(1)] by auto
      then show ?thesis
        using absent k False walked_trans[OF T(2) new_entry[OF T(1)]] by (auto simp: pte_at_nat Let_def)
    qed
  qed
qed

lemma walk_alloc:
  assumes "kmem_inv s" "pt_ok s root" "va < MAXVA"
  obtains pte s' where "walk root va True s = OK (pte, s')" "walked s s' root va pte"
proof -
  have "walk root va True s = walk_levels 2 root va True s" using assms(3) by (auto simp: walk_def)
  then show thesis using walk_levels_alloc[of 2 s root va root] assms that by auto
qed

section \<open>Mapping a page\<close>

lemma store_leaf_grows:
  assumes "kmem_inv s" "pt_ok s root" "node (mem s) root (vpath va) = Some t"
    "s' = s\<lparr>mem := store64 (mem s) (pte_at t 0 va) v\<rparr>"
  shows "kmem_inv s'" "pt_ok s' root" "grows s s' root"
    "entry (mem s') root va' = (if same_page va va' then v else entry (mem s) root va')"
proof -
  note T = pt_okD[OF assms(2) is_path_vpath(1) assms(3)]
  have other: "mem s' x = mem s x" if "PGROUNDDOWN x \<noteq> t" for x
    using that entry_on_page[OF T(3) PX_less[of 0 va], of x] by (auto simp: assms(4) pte_at_nat intro!: store64_other)
  have tn: "t \<in> nodes (mem s) root" by (rule nodesI[OF is_path_vpath(1) assms(3)])
  have n: "is_path p \<Longrightarrow> node (mem s') root p = node (mem s) root p" for p
    using store_leaf(1)[OF assms(2,3) PX_less[of 0 va]] assms(4) by (simp add: pte_at_nat)
  show "pt_ok s' root" using store_leaf(2)[OF assms(2,3) PX_less[of 0 va]] assms(4) by (simp add: pte_at_nat)
  show "kmem_inv s'"
    unfolding assms(4)
  proof (rule kmem_inv_mem[OF assms(1)])
    fix b x assume b: "page_ok s b" "refcount s b = 0" "PGROUNDDOWN x = b"
    then have "PGROUNDDOWN x \<noteq> t" using T(2) by auto
    then show "store64 (mem s) (pte_at t 0 va) v x = mem s x" using other by (simp add: assms(4))
  qed
  show "grows s s' root" unfolding grows_def
  proof (intro conjI allI impI ballI)
    fix b x assume "b \<notin> nodes (mem s) root" "PGROUNDDOWN x = b"
    then have "PGROUNDDOWN x \<noteq> t" using tn by auto
    then show "mem s' x = mem s x" by (rule other)
  next
    fix b assume "b \<in> nodes (mem s') root"
    then show "b \<in> nodes (mem s) root \<or> \<not> (page_ok s b \<and> 0 < refcount s b)" using n by (auto simp: nodes_def)
  qed (simp_all add: assms(4))
  show "entry (mem s') root va' = (if same_page va va' then v else entry (mem s) root va')"
    using entry_store_leaf[OF assms(2,3) held_nonzero[OF assms(1)]] by (simp add: assms(4))
qed

text \<open>\<^verbatim>\<open>mappages\<close> of a single page.\<close>

lemma mappages_page:
  assumes "kmem_inv s" "pt_ok s root" "va < MAXVA" "page_aligned va" "entry (mem s) root va AND PTE_V = 0"
  shows "\<exists>r s'. mappages root va PGSIZE pa perm s = OK (r, s') \<and> kmem_inv s' \<and> pt_ok s' root \<and> grows s s' root
    \<and> (r = 0 \<or> r = - 1)
    \<and> (\<forall>va'. entry (mem s') root va' =
         (if r = 0 \<and> same_page va va' then PA2PTE pa OR perm OR PTE_V else entry (mem s) root va'))"
proof -
  have rd: "PGROUNDDOWN va = va" "PGROUNDDOWN (4095 + va) = va"
  proof -
    show "PGROUNDDOWN va = va" using assms(4) by (rule PGROUNDDOWN_id)
    have "in_range va 4096 (4095 + va)" by (simp add: in_range_def)
    then show "PGROUNDDOWN (4095 + va) = va" using assms(4) by (simp add: in_page)
  qed
  obtain pte s1 where w: "walk root va True s = OK (pte, s1)" "walked s s1 root va pte"
    using walk_alloc[OF assms(1-3)] .
  have W: "kmem_inv s1" "pt_ok s1 root" "grows s s1 root" "\<And>va'. entry (mem s1) root va' = entry (mem s) root va'"
    using w(2) by (auto simp: walked_def)
  have eq: "mappages root va PGSIZE pa perm s = mappages_loop root va va pa perm s"
    by (simp add: mappages_def rd)
  show ?thesis
  proof (cases "pte = 0")
    case True
    then have "mappages root va PGSIZE pa perm s = OK (- 1, s1)"
      using w(1) by (simp add: eq mappages_loop.simps)
    then show ?thesis using W by auto
  next
    case False
    then obtain t where t: "node (mem s1) root (vpath va) = Some t" "pte = pte_at t 0 va"
      using w(2) by (auto simp: walked_def)
    have free: "load64 (mem s1) pte AND PTE_V = 0"
      using assms(5) W(4)[of va] t False by (simp add: entry_def lookup_node Let_def)
    let ?s = "s1\<lparr>mem := store64 (mem s1) pte (PA2PTE pa OR perm OR PTE_V)\<rparr>"
    have r: "mappages root va PGSIZE pa perm s = OK (0, ?s)"
      using w(1) False free by (simp add: eq mappages_loop.simps[of root va])
    note S = store_leaf_grows[OF W(1,2) t(1), of ?s "PA2PTE pa OR perm OR PTE_V"]
    show ?thesis using r S W(4) grows_trans[OF W(3)] t(2) by auto
  qed
qed

section \<open>Sharing an address space\<close>

text \<open>Another tree, on pages of its own, does not notice that \<open>pt\<close> grows.\<close>

lemma grows_other:
  assumes "grows s s' pt" "pt_ok s old" "nodes (mem s) old \<inter> nodes (mem s) pt = {}"
  shows "pt_ok s' old" "entry (mem s') old va = entry (mem s) old va" "nodes (mem s') old = nodes (mem s) old"
    "nodes (mem s') old \<inter> nodes (mem s') pt = {}"
proof -
  note G = growsD[OF assms(1)]
  have held: "page_ok s a" "0 < refcount s a" if "a \<in> nodes (mem s) old" for a
    using that pt_okD[OF assms(2)] by (auto simp: nodes_def)
  have rc: "0 < refcount s' a" if "a \<in> nodes (mem s) old" for a
    using G(3)[OF held[OF that]] held(2)[OF that] by simp
  have bytes: "mem s' x = mem s x" if "PGROUNDDOWN x \<in> nodes (mem s) old" for x
    using G(4)[OF held[OF that] _ refl] that assms(3) by blast
  note F = pt_ok_frame[OF assms(2) G(1) rc bytes]
  show "pt_ok s' old" "entry (mem s') old va = entry (mem s) old va" using F(1,3) by simp_all
  show n: "nodes (mem s') old = nodes (mem s) old" using F(2) by (auto simp: nodes_def)
  show "nodes (mem s') old \<inter> nodes (mem s') pt = {}"
    unfolding n using G(5) held assms(3) by blast
qed

end
