(* ===== verification/Cow.thy ===== *)
theory Cow
  imports Pagetree Trap
begin

text \<open>
  Copy on write: \<^verbatim>\<open>uvmcopy\<close> makes parent and child share every page of the address space, read-only
  where it was writable.
\<close>

section \<open>Entries\<close>

definition cow_entry :: "u64 \<Rightarrow> u64" where
  "cow_entry e = (if e AND PTE_W \<noteq> 0 then (e AND NOT PTE_W) OR PTE_C else e)"

definition cow_flags :: "u64 \<Rightarrow> u64" where
  "cow_flags e = (if e AND PTE_W \<noteq> 0 then (PTE_FLAGS e AND NOT PTE_W) OR PTE_C else PTE_FLAGS e)"

lemma flag_bits:
  "bit (32 :: u64) n \<longleftrightarrow> n = 5" "bit (16 :: u64) n \<longleftrightarrow> n = 4" "bit (4 :: u64) n \<longleftrightarrow> n = 2"
  "bit (0x3FF :: u64) n \<longleftrightarrow> n < 10"
proof -
  have "bit (2 ^ k :: u64) n \<longleftrightarrow> n = k" if "k < 64" for k using that by (auto simp: bit_exp_iff)
  from this[of 5] this[of 4] this[of 2]
  show "bit (32 :: u64) n \<longleftrightarrow> n = 5" "bit (16 :: u64) n \<longleftrightarrow> n = 4" "bit (4 :: u64) n \<longleftrightarrow> n = 2" by simp_all
  have "(0x3FF :: u64) = mask 10" by (simp add: mask_eq_exp_minus_1)
  then show "bit (0x3FF :: u64) n \<longleftrightarrow> n < 10" by (simp only: bit_mask_iff) auto
qed

lemma PTE_FLAGS_less: "PTE_FLAGS e < 1024"
proof -
  have "PTE_FLAGS e \<le> 0x3FF" unfolding PTE_FLAGS_def by (rule word_and_le1)
  also have "(0x3FF :: u64) < 1024" by simp
  finally show ?thesis .
qed


lemma and_bit: "(e :: u64) AND 2 ^ k \<noteq> 0 \<longleftrightarrow> k < 64 \<and> bit e k"
  by (auto simp: and_exp_eq_0_iff_not_bit dest: bit_imp_le_length)

lemma bit_clear_W: "bit (- 5 :: u64) n \<longleftrightarrow> n < 64 \<and> n \<noteq> 2"
proof -
  have "(- 5 :: u64) = NOT 4" by simp
  then show ?thesis by (simp only: bit_not_iff flag_bits) simp
qed

lemma flag_set:
  "(e :: u64) AND 4 \<noteq> 0 \<longleftrightarrow> bit e 2" "e AND 1 \<noteq> 0 \<longleftrightarrow> bit e 0" "e AND 16 \<noteq> 0 \<longleftrightarrow> bit e 4" "e AND 32 \<noteq> 0 \<longleftrightarrow> bit e 5"
  using and_bit[of e 2] and_bit[of e 0] and_bit[of e 4] and_bit[of e 5] by simp_all

lemma bit_PTE_FLAGS: "bit (PTE_FLAGS e) n \<longleftrightarrow> n < 10 \<and> bit e n"
  unfolding PTE_FLAGS_def bit_and_iff flag_bits by auto

lemma bit_cow_entry: "n < 64 \<Longrightarrow> bit (cow_entry e) n \<longleftrightarrow> (if bit e 2 then n = 5 \<or> n \<noteq> 2 \<and> bit e n else bit e n)"
  unfolding cow_entry_def flag_set by (auto simp: bit_or_iff bit_and_iff bit_not_iff flag_bits bit_clear_W simp del: bit_numeral_word_iff bit_neg_numeral_word_iff)

lemma bit_cow_flags: "bit (cow_flags e) n \<longleftrightarrow> n < 10 \<and> bit (cow_entry e) n"
proof (cases "n < 64")
  case True
  then show ?thesis
    unfolding cow_flags_def flag_set
    by (auto simp: bit_cow_entry bit_PTE_FLAGS bit_or_iff bit_and_iff bit_not_iff flag_bits bit_clear_W simp del: bit_numeral_word_iff bit_neg_numeral_word_iff)
qed (auto dest: bit_imp_le_length)

lemma low_bits: "(\<And>n. bit (f :: u64) n \<Longrightarrow> n < 10) \<Longrightarrow> f < 1024"
proof -
  assume *: "\<And>n. bit f n \<Longrightarrow> n < 10"
  have "f AND 0x3FF = f" by (rule bit_word_eqI) (use * in \<open>auto simp: bit_and_iff flag_bits simp del: bit_numeral_word_iff\<close>)
  then have "f \<le> 0x3FF" by (metis word_and_le1)
  also have "(0x3FF :: u64) < 1024" by simp
  finally show ?thesis .
qed

lemma cow_flags_less: "cow_flags e OR PTE_V < 1024"
  by (rule low_bits) (auto simp: bit_or_iff bit_cow_flags bit_1_iff)

text \<open>The child's entry maps the same page, and both entries have the same flags.\<close>

lemma child_entry:
  assumes "page_aligned (PTE2PA e)" "PTE2PA e < 2 ^ 56" "e AND PTE_V \<noteq> 0"
  shows "PTE2PA (PA2PTE (PTE2PA e) OR cow_flags e OR PTE_V) = PTE2PA e"
    "PTE_FLAGS (PA2PTE (PTE2PA e) OR cow_flags e OR PTE_V) = PTE_FLAGS (cow_entry e)"
proof -
  show "PTE2PA (PA2PTE (PTE2PA e) OR cow_flags e OR PTE_V) = PTE2PA e"
    by (rule PTE2PA_PA2PTE[OF assms(1,2) cow_flags_less])
  have v: "bit e 0" using assms(3) by (simp add: flag_set)
  have "cow_flags e OR PTE_V = PTE_FLAGS (cow_entry e)"
    by (rule bit_word_eqI) (use v in \<open>auto simp: bit_or_iff bit_cow_flags bit_PTE_FLAGS bit_cow_entry bit_1_iff\<close>)
  then show "PTE_FLAGS (PA2PTE (PTE2PA e) OR cow_flags e OR PTE_V) = PTE_FLAGS (cow_entry e)"
    using PTE_FLAGS_PA2PTE[OF cow_flags_less, of "PTE2PA e" e] by simp
qed

lemma cow_entry_flags:
  "cow_entry e AND PTE_W = 0" "cow_entry e AND PTE_V = 0 \<longleftrightarrow> e AND PTE_V = 0" "cow_entry e AND PTE_U = 0 \<longleftrightarrow> e AND PTE_U = 0"
proof -
  have b: "\<not> bit (cow_entry e) 2" "bit (cow_entry e) 0 = bit e 0" "bit (cow_entry e) 4 = bit e 4"
    using bit_cow_entry[of 2 e] bit_cow_entry[of 0 e] bit_cow_entry[of 4 e] by simp_all
  show "cow_entry e AND PTE_W = 0" using flag_set(1)[of "cow_entry e"] b(1) by blast
  show "cow_entry e AND PTE_V = 0 \<longleftrightarrow> e AND PTE_V = 0" using flag_set(2)[of "cow_entry e"] flag_set(2)[of e] b(2) by argo
  show "cow_entry e AND PTE_U = 0 \<longleftrightarrow> e AND PTE_U = 0" using flag_set(3)[of "cow_entry e"] flag_set(3)[of e] b(3) by argo
qed

lemma PTE2PA_cow_entry: "PTE2PA (cow_entry e) = PTE2PA e"
proof (rule bit_word_eqI)
  fix n assume "n < LENGTH(64)"
  then show "bit (PTE2PA (cow_entry e)) n = bit (PTE2PA e) n"
    by (auto simp: PTE2PA_def bit_push_bit_iff bit_drop_bit_eq bit_cow_entry bit_simps)
qed

section \<open>Sharing one page\<close>

definition child_of :: "u64 \<Rightarrow> u64" where
  "child_of e = PA2PTE (PTE2PA e) OR cow_flags e OR PTE_V"

definition held :: "'a kmem_scheme \<Rightarrow> u64 \<Rightarrow> bool" where
  "held s b \<longleftrightarrow> page_ok s b \<and> 0 < refcount s b"

text \<open>The first address of the \<open>j\<close>-th page.\<close>

definition pg :: "nat \<Rightarrow> u64" where
  "pg j = of_nat (4096 * j)"

lemma unat_pg: "j \<le> 2 ^ 26 \<Longrightarrow> unat (pg j) = 4096 * j"
  by (simp add: pg_def unat_of_nat del: of_nat_mult)

lemma pg_facts:
  assumes "j < 2 ^ 26"
  shows "page_aligned (pg j)" "pg j < MAXVA" "pg j + PGSIZE = pg (Suc j)"
proof -
  have u: "unat (pg j) = 4096 * j" using assms by (simp add: unat_pg)
  show "page_aligned (pg j)" by (simp add: page_aligned_unat u)
  show "pg j < MAXVA" using assms by (simp add: word_less_nat_alt u)
  show "pg j + PGSIZE = pg (Suc j)" by (simp add: pg_def)
qed

lemma same_page_pg:
  assumes "j < 2 ^ 26" "k < 2 ^ 26"
  shows "same_page (pg j) (pg k) \<longleftrightarrow> j = k"
proof
  assume "same_page (pg j) (pg k)"
  moreover have "pg j < 2 ^ 39" "pg k < 2 ^ 39" using assms by (simp_all add: word_less_nat_alt unat_pg)
  ultimately have "pg j = pg k"
    using PX_inject[OF pg_facts(1)[OF assms(1)] pg_facts(1)[OF assms(2)]] by (simp add: same_page_def)
  then have "unat (pg j) = unat (pg k)" by simp
  then show "j = k" using assms by (simp add: unat_pg)
qed (simp add: same_page_def)

lemma entry_same_page: "same_page va va' \<Longrightarrow> entry m pt va = entry m pt va'"
  using same_page_vpath[of va va'] by (cases "node m pt (vpath va')") (auto simp: entry_def lookup_node pte_at_nat same_page_def)

definition shared :: "nat set \<Rightarrow> u64 \<Rightarrow> u64 \<Rightarrow> 'a kmem_scheme \<Rightarrow> 'a kmem_scheme \<Rightarrow> bool" where
  "shared K old new s s' \<longleftrightarrow> kmem_inv s' \<and> pt_ok s' old \<and> pt_ok s' new
     \<and> nodes (mem s') old \<inter> nodes (mem s') new = {} \<and> kend s' = kend s
     \<and> (\<forall>j<2 ^ 26. entry (mem s') old (pg j) =
          (if j \<in> K then cow_entry (entry (mem s) old (pg j)) else entry (mem s) old (pg j)))
     \<and> (\<forall>j<2 ^ 26. entry (mem s') new (pg j) =
          (if j \<in> K then child_of (entry (mem s) old (pg j)) else entry (mem s) new (pg j)))
     \<and> (\<forall>b. held s b \<longrightarrow> refcount s' b = refcount s b + int (card {j \<in> K. PTE2PA (entry (mem s) old (pg j)) = b}))
     \<and> (\<forall>b x. held s b \<longrightarrow> b \<notin> nodes (mem s) old \<union> nodes (mem s) new \<longrightarrow> PGROUNDDOWN x = b \<longrightarrow> mem s' x = mem s x)
     \<and> (\<forall>b. held s b \<longrightarrow> b \<in> nodes (mem s') old \<union> nodes (mem s') new \<longrightarrow> b \<in> nodes (mem s) old \<union> nodes (mem s) new)"

lemma sharedD:
  assumes "shared K old new s s'"
  shows "kmem_inv s'" "pt_ok s' old" "pt_ok s' new" "nodes (mem s') old \<inter> nodes (mem s') new = {}" "kend s' = kend s"
    "j < 2 ^ 26 \<Longrightarrow> entry (mem s') old (pg j) = (if j \<in> K then cow_entry (entry (mem s) old (pg j)) else entry (mem s) old (pg j))"
    "j < 2 ^ 26 \<Longrightarrow> entry (mem s') new (pg j) = (if j \<in> K then child_of (entry (mem s) old (pg j)) else entry (mem s) new (pg j))"
    "held s b \<Longrightarrow> refcount s' b = refcount s b + int (card {j \<in> K. PTE2PA (entry (mem s) old (pg j)) = b})"
    "held s b \<Longrightarrow> b \<notin> nodes (mem s) old \<union> nodes (mem s) new \<Longrightarrow> PGROUNDDOWN x = b \<Longrightarrow> mem s' x = mem s x"
    "held s b \<Longrightarrow> b \<in> nodes (mem s') old \<union> nodes (mem s') new \<Longrightarrow> b \<in> nodes (mem s) old \<union> nodes (mem s) new"
    "held s b \<Longrightarrow> held s' b"
  using assms unfolding shared_def held_def page_ok_def by auto

lemma shared_refl:
  "kmem_inv s \<Longrightarrow> pt_ok s old \<Longrightarrow> pt_ok s new \<Longrightarrow> nodes (mem s) old \<inter> nodes (mem s) new = {} \<Longrightarrow> shared {} old new s s"
  by (simp add: shared_def)

lemma shared_trans:
  assumes "shared {k} old new s v" "shared K old new v s'" "k \<notin> K" "k < 2 ^ 26" "K \<subseteq> {..<2 ^ 26}"
  shows "shared (insert k K) old new s s'"
  unfolding shared_def
proof (intro conjI allI impI)
  note A = sharedD[OF assms(1)] and B = sharedD[OF assms(2)]
  show "kmem_inv s'" "pt_ok s' old" "pt_ok s' new" "nodes (mem s') old \<inter> nodes (mem s') new = {}" "kend s' = kend s"
    using A(5) B(1-5) by simp_all
  fix j :: nat assume j: "j < 2 ^ 26"
  show "entry (mem s') old (pg j) = (if j \<in> insert k K then cow_entry (entry (mem s) old (pg j)) else entry (mem s) old (pg j))"
    using A(6)[OF j] B(6)[OF j] assms(3) by auto
  show "entry (mem s') new (pg j) = (if j \<in> insert k K then child_of (entry (mem s) old (pg j)) else entry (mem s) new (pg j))"
    using A(6,7)[OF j] B(7)[OF j] assms(3) by auto
next
  note A = sharedD[OF assms(1)] and B = sharedD[OF assms(2)]
  fix b assume b: "held s b"
  have "{j \<in> K. PTE2PA (entry (mem v) old (pg j)) = b} = {j \<in> K. PTE2PA (entry (mem s) old (pg j)) = b}"
    using A(6) assms(3,5) by auto
  moreover have "finite K" using assms(5) finite_subset by blast
  moreover have "{j \<in> insert k K. PTE2PA (entry (mem s) old (pg j)) = b} =
    {j \<in> {k}. PTE2PA (entry (mem s) old (pg j)) = b} \<union> {j \<in> K. PTE2PA (entry (mem s) old (pg j)) = b}" by auto
  ultimately show "refcount s' b = refcount s b + int (card {j \<in> insert k K. PTE2PA (entry (mem s) old (pg j)) = b})"
    using A(8)[OF b] B(8)[OF A(11)[OF b]] assms(3) by (simp add: card_Un_disjoint disjoint_iff)
next
  note A = sharedD[OF assms(1)] and B = sharedD[OF assms(2)]
  fix b x assume "held s b" "b \<notin> nodes (mem s) old \<union> nodes (mem s) new" "PGROUNDDOWN x = b"
  then show "mem s' x = mem s x" using A(9-11) B(9) by metis
next
  note A = sharedD[OF assms(1)] and B = sharedD[OF assms(2)]
  fix b assume "held s b" "b \<in> nodes (mem s') old \<union> nodes (mem s') new"
  then show "b \<in> nodes (mem s) old \<union> nodes (mem s) new" using A(10,11) B(10) by blast
qed

text \<open>Marking the parent's entry.\<close>

definition mark_cow :: "u64 \<Rightarrow> u64 \<Rightarrow> 'a kmem_scheme \<Rightarrow> 'a kmem_scheme" where
  "mark_cow pt va s =
     (let e = entry (mem s) pt va
      in if e AND PTE_W \<noteq> 0 then s\<lparr>mem := store64 (mem s) (lookup (mem s) pt va) ((e AND NOT PTE_W) OR PTE_C)\<rparr> else s)"

lemma mark_cow:
  assumes "kmem_inv s" "pt_ok s pt"
  shows "kmem_inv (mark_cow pt va s)" "pt_ok (mark_cow pt va s) pt" "grows s (mark_cow pt va s) pt"
    "entry (mem (mark_cow pt va s)) pt va' =
       (if same_page va va' then cow_entry (entry (mem s) pt va) else entry (mem s) pt va')"
proof -
  let ?t = "mark_cow pt va s"
  have "kmem_inv ?t \<and> pt_ok ?t pt \<and> grows s ?t pt \<and> entry (mem ?t) pt va' =
       (if same_page va va' then cow_entry (entry (mem s) pt va) else entry (mem s) pt va')"
  proof (cases "entry (mem s) pt va AND PTE_W \<noteq> 0")
    case True
    then obtain a where a: "node (mem s) pt (vpath va) = Some a"
      by (cases "node (mem s) pt (vpath va)") (auto simp: entry_def lookup_node)
    let ?v = "(entry (mem s) pt va AND NOT PTE_W) OR PTE_C"
    have t: "?t = s\<lparr>mem := store64 (mem s) (pte_at a 0 va) ?v\<rparr>" using True a by (simp add: mark_cow_def lookup_node Let_def)
    show ?thesis using store_leaf_grows[OF assms a t] True by (simp add: cow_entry_def)
  next
    case False
    then show ?thesis using assms entry_same_page[of va va'] by (auto simp: mark_cow_def cow_entry_def grows_refl)
  qed
  then show "kmem_inv ?t" "pt_ok ?t pt" "grows s ?t pt"
    "entry (mem ?t) pt va' = (if same_page va va' then cow_entry (entry (mem s) pt va) else entry (mem s) pt va')" by simp_all
qed

lemma card_one: "card {j \<in> {k}. P j} = (if P k then 1 else 0)"
proof -
  have "{j \<in> {k}. P j} = (if P k then {k} else {})" by auto
  then show ?thesis by simp
qed

text \<open>One round of the loop.\<close>

lemma share_page:
  assumes inv: "kmem_inv s" "pt_ok s old" "pt_ok s new" and dj: "nodes (mem s) old \<inter> nodes (mem s) new = {}"
    and k: "k < 2 ^ 26" and e: "e = entry (mem s) old (pg k)"
    and pa: "held s (PTE2PA e)" "PTE2PA e \<notin> nodes (mem s) old \<union> nodes (mem s) new"
    and free: "entry (mem s) new (pg k) AND PTE_V = 0"
  shows "\<exists>r u. mappages new (pg k) PGSIZE (PTE2PA e) (cow_flags e) (mark_cow old (pg k) s) = OK (r, u)
    \<and> (r = 0 \<longrightarrow> (\<exists>v. incpgrc (PTE2PA e) u = OK v \<and> shared {k} old new s v))"
proof -
  let ?t = "mark_cow old (pg k) s"
  note M = mark_cow[OF inv(1,2), of "pg k"]
  note G = growsD[OF M(3)]
  have N: "pt_ok ?t new" "\<And>va. entry (mem ?t) new va = entry (mem s) new va" "nodes (mem ?t) new = nodes (mem s) new"
    "nodes (mem ?t) new \<inter> nodes (mem ?t) old = {}"
    using grows_other[OF M(3) inv(3)] dj by auto
  obtain r u where u: "mappages new (pg k) PGSIZE (PTE2PA e) (cow_flags e) ?t = OK (r, u)"
    and U: "kmem_inv u" "pt_ok u new" "grows ?t u new"
    and ent: "\<forall>va. entry (mem u) new va = (if r = 0 \<and> same_page (pg k) va then child_of e else entry (mem ?t) new va)"
    using mappages_page[OF M(1) N(1) pg_facts(2)[OF k] pg_facts(1)[OF k], of "PTE2PA e" "cow_flags e"] free N(2) unfolding child_of_def by auto
  note H = growsD[OF U(3)]
  have O: "pt_ok u old" "\<And>va. entry (mem u) old va = entry (mem ?t) old va" "nodes (mem u) old = nodes (mem ?t) old"
    "nodes (mem u) old \<inter> nodes (mem u) new = {}"
    using grows_other[OF U(3) M(2)] N(4) by auto
  have rc: "refcount u b = refcount s b" "page_ok u b" "held ?t b" if "held s b" for b
    using that G(2,3)[of b] H(2,3)[of b] by (auto simp: held_def)
  let ?v = "u\<lparr>pgrc := (pgrc u)(pgindex (PTE2PA e) := refcount u (PTE2PA e) + 1)\<rparr>"
  obtain fl where "kmem_inv_of u fl" using U(1) by (auto simp: kmem_inv_def)
  then have inc: "incpgrc (PTE2PA e) u = OK ?v" "kmem_inv ?v"
    using incpgrc_inv[of u fl "PTE2PA e"] rc[OF pa(1)] pa(1) by (auto simp: held_def kmem_inv_def)
  have rcv: "refcount ?v b = refcount u b + (if b = PTE2PA e then 1 else 0)" if "page_aligned b" for b
    using refcount_upd[OF _ that, of "PTE2PA e" u] page_okD[OF rc(2)[OF pa(1)]] by simp
  have pos: "0 < refcount ?v b" if "page_ok u b" "0 < refcount u b" for b
    using rcv[OF page_okD[OF that(1)]] that(2) by (auto split: if_splits)
  have ok: "pt_ok ?v pt" if "pt_ok u pt" for pt
    by (rule pt_ok_frame(1)[OF that]) (use pos pt_okD(1,2)[OF that] in \<open>auto simp: nodes_def\<close>)
  have "shared {k} old new s ?v" if "r = 0"
    unfolding shared_def
  proof (intro conjI allI impI)
    fix j :: nat assume j: "j < 2 ^ 26"
    show "entry (mem ?v) old (pg j) = (if j \<in> {k} then cow_entry (entry (mem s) old (pg j)) else entry (mem s) old (pg j))"
      using M(4)[of "pg j"] O(2)[of "pg j"] same_page_pg[OF k j] by auto
    show "entry (mem ?v) new (pg j) = (if j \<in> {k} then child_of (entry (mem s) old (pg j)) else entry (mem s) new (pg j))"
      using ent[rule_format, of "pg j"] N(2) that same_page_pg[OF k j] by (auto simp: e)
  next
    fix b assume b: "held s b"
    then have "page_aligned b" using page_okD by (auto simp: held_def)
    then show "refcount ?v b = refcount s b + int (card {j \<in> {k}. PTE2PA (entry (mem s) old (pg j)) = b})"
      using rcv[of b] rc(1)[OF b] unfolding card_one e by auto
  next
    fix b x assume b: "held s b" "b \<notin> nodes (mem s) old \<union> nodes (mem s) new" "PGROUNDDOWN x = b"
    then have "mem u x = mem ?t x" using H(4)[of b x] rc(3)[OF b(1)] N(3) by (auto simp: held_def)
    then show "mem ?v x = mem s x" using G(4)[of b x] b by (auto simp: held_def)
  next
    fix b assume b: "held s b" "b \<in> nodes (mem ?v) old \<union> nodes (mem ?v) new"
    then show "b \<in> nodes (mem s) old \<union> nodes (mem s) new"
      using O(3) N(3) H(5)[of b] G(5)[of b] rc(3)[OF b(1)] by (auto simp: held_def)
  qed (use inc(2) ok O U(2) G(1) H(1) in auto)
  then show ?thesis using u inc(1) by blast
qed

section \<open>The whole address space\<close>

definition npages :: "u64 \<Rightarrow> nat" where
  "npages sz = (unat sz + 4095) div 4096"

lemma pg_less: "k \<le> 2 ^ 26 \<Longrightarrow> pg k < sz \<longleftrightarrow> k < npages sz"
proof -
  assume "k \<le> 2 ^ 26"
  then have "pg k < sz \<longleftrightarrow> 4096 * k < unat sz" by (simp add: word_less_nat_alt unat_pg)
  also have "\<dots> \<longleftrightarrow> k < npages sz" unfolding npages_def by linarith
  finally show ?thesis .
qed

text \<open>The parent's page is in use and is not a page table, and the child has no page there yet.\<close>

definition sharable :: "'a kmem_scheme \<Rightarrow> u64 \<Rightarrow> u64 \<Rightarrow> nat \<Rightarrow> bool" where
  "sharable s old new j \<longleftrightarrow> held s (PTE2PA (entry (mem s) old (pg j)))
     \<and> PTE2PA (entry (mem s) old (pg j)) \<notin> nodes (mem s) old \<union> nodes (mem s) new
     \<and> entry (mem s) new (pg j) AND PTE_V = 0"

lemma sharable_step:
  assumes "shared {k} old new s v" "j \<noteq> k" "j < 2 ^ 26" "sharable s old new j"
  shows "sharable v old new j"
  using sharedD(6,7)[OF assms(1,3)] sharedD(10,11)[OF assms(1)] assms(2,4) unfolding sharable_def by auto

lemma uvmcopy_round:
  assumes inv: "kmem_inv s" "pt_ok s old" "pt_ok s new" "nodes (mem s) old \<inter> nodes (mem s) new = {}"
    and k: "k < npages sz" "npages sz \<le> 2 ^ 26" and sh: "sharable s old new k"
    and run: "uvmcopy_loop old new (pg k) sz s = OK (0, s')"
  obtains v where "shared {k} old new s v" "uvmcopy_loop old new (pg (Suc k)) sz v = OK (0, s')"
    "entry (mem s) old (pg k) AND PTE_V \<noteq> 0"
proof -
  have k': "k < 2 ^ 26" "pg k < sz" using k pg_less[of k sz] by simp_all
  let ?e = "entry (mem s) old (pg k)"
  obtain r u where u: "mappages new (pg k) PGSIZE (PTE2PA ?e) (cow_flags ?e) (mark_cow old (pg k) s) = OK (r, u)"
    "r = 0 \<longrightarrow> (\<exists>v. incpgrc (PTE2PA ?e) u = OK v \<and> shared {k} old new s v)"
    using share_page[OF inv k'(1) refl] sh unfolding sharable_def by blast
  have w: "walk old (pg k) False s = OK (lookup (mem s) old (pg k), s)"
    using pg_facts(2)[OF k'(1)] by (auto simp: walk_lookup)
  have p: "lookup (mem s) old (pg k) \<noteq> 0"
    using run k'(2) w by (auto simp: uvmcopy_loop.simps[of old new "pg k"])
  then have e: "load64 (mem s) (lookup (mem s) old (pg k)) = ?e" by (simp add: entry_def)
  have v: "?e AND PTE_V \<noteq> 0" using run k'(2) w p e by (auto simp: uvmcopy_loop.simps[of old new "pg k"] Let_def)
  have step: "uvmcopy_loop old new (pg k) sz s = rbind (mappages new (pg k) PGSIZE (PTE2PA ?e) (cow_flags ?e) (mark_cow old (pg k) s))
      (\<lambda>(r, s). if r \<noteq> 0 then rbind (uvmunmap new 0 (pg k div PGSIZE) True s) (\<lambda>s. OK (-1, s))
        else rbind (incpgrc (PTE2PA ?e) s) (uvmcopy_loop old new (pg k + PGSIZE) sz))"
    using k'(2) w p e v by (subst uvmcopy_loop.simps) (simp add: Let_def mark_cow_def cow_flags_def)
  have "r = 0" using run u(1) unfolding step by (auto simp: res_simps split: if_splits)
  then obtain v where "shared {k} old new s v" "uvmcopy_loop old new (pg (Suc k)) sz v = OK (0, s')"
    using run u pg_facts(3)[OF k'(1)] unfolding step by auto
  then show thesis using that v by blast
qed

lemma uvmcopy_loop_shared:
  assumes "kmem_inv s" "pt_ok s old" "pt_ok s new" "nodes (mem s) old \<inter> nodes (mem s) new = {}"
    and "k \<le> npages sz" "npages sz \<le> 2 ^ 26" "\<forall>j. k \<le> j \<longrightarrow> j < npages sz \<longrightarrow> sharable s old new j"
    and "uvmcopy_loop old new (pg k) sz s = OK (0, s')"
  shows "shared {k..<npages sz} old new s s' \<and> (\<forall>j. k \<le> j \<longrightarrow> j < npages sz \<longrightarrow> entry (mem s) old (pg j) AND PTE_V \<noteq> 0)"
  using assms
proof (induction "npages sz - k" arbitrary: k s)
  case 0
  then have "\<not> pg k < sz" using pg_less[of k sz] by simp
  then have "s' = s" using 0 by (simp add: uvmcopy_loop.simps[of old new "pg k"])
  then show ?case using 0 by (auto intro: shared_refl)
next
  case (Suc n)
  then have k: "k < npages sz" by simp
  obtain v where v: "shared {k} old new s v" "uvmcopy_loop old new (pg (Suc k)) sz v = OK (0, s')" "entry (mem s) old (pg k) AND PTE_V \<noteq> 0"
    using uvmcopy_round[OF Suc.prems(1-4) k Suc.prems(6) _ Suc.prems(8)] Suc.prems(7) k by blast
  have "\<forall>j. Suc k \<le> j \<longrightarrow> j < npages sz \<longrightarrow> sharable v old new j"
    using sharable_step[OF v(1)] Suc.prems(6,7) by auto
  then have ih: "shared {Suc k..<npages sz} old new v s'"
    "\<forall>j. Suc k \<le> j \<longrightarrow> j < npages sz \<longrightarrow> entry (mem v) old (pg j) AND PTE_V \<noteq> 0"
    using Suc.hyps(1)[of "Suc k" v] Suc.hyps(2) sharedD(1-4)[OF v(1)] k Suc.prems(6) v(2) by auto
  have "insert k {Suc k..<npages sz} = {k..<npages sz}" using k by auto
  moreover have "entry (mem s) old (pg j) AND PTE_V \<noteq> 0" if "k \<le> j" "j < npages sz" for j
    using that v(3) ih(2)[rule_format, of j] sharedD(6)[OF v(1), of j] Suc.prems(6) by (cases "j = k") auto
  moreover have "{Suc k..<npages sz} \<subseteq> {..<2 ^ 26}" using Suc.prems(6) by auto
  ultimately show ?case
    using shared_trans[OF v(1) ih(1)] k Suc.prems(6) by auto
qed

lemma PGROUNDDOWN_pg: "PGROUNDDOWN va = pg (unat va div 4096)"
proof -
  have "unat va div 4096 * 4096 < 2 ^ 64" 
    by (rule le_less_trans[OF div_times_less_eq_dividend]) (use unsigned_less[where ?'a = nat, of va] in simp)
  then have "unat (pg (unat va div 4096)) = unat va - unat va mod 4096"
    by (simp add: pg_def unat_of_nat minus_mod_eq_mult_div mult.commute del: of_nat_mult)
  then show ?thesis by (simp add: word_unat_eq_iff unat_PGROUNDDOWN)
qed

lemma page_number_less: "va < sz \<Longrightarrow> unat va div 4096 < npages sz"
  unfolding npages_def word_less_nat_alt by linarith

lemma child_of_facts:
  assumes "page_ok s (PTE2PA e)" "e AND PTE_V \<noteq> 0"
  shows "PTE2PA (child_of e) = PTE2PA e" "child_of e AND PTE_W = 0" "child_of e AND PTE_V \<noteq> 0"
    "child_of e AND PTE_U = 0 \<longleftrightarrow> e AND PTE_U = 0"
proof -
  note C = child_entry[OF page_okD[OF assms(1)] page_ok_below[OF assms(1)] assms(2), folded child_of_def]
  show "PTE2PA (child_of e) = PTE2PA e" by (rule C(1))
  have b: "bit (child_of e) n = bit (cow_entry e) n" if "n < 10" for n
    using arg_cong[OF C(2), of "\<lambda>f. bit f n"] that by (simp add: bit_PTE_FLAGS)
  have c: "bit (child_of e) 0 = bit (cow_entry e) 0" "bit (child_of e) 2 = bit (cow_entry e) 2" "bit (child_of e) 4 = bit (cow_entry e) 4"
    by (simp_all add: b)
  note f = flag_set[of "child_of e"] flag_set[of "cow_entry e"] cow_entry_flags[of e] c assms(2)
  show "child_of e AND PTE_W = 0" using f by argo
  show "child_of e AND PTE_V \<noteq> 0" using f by argo
  show "child_of e AND PTE_U = 0 \<longleftrightarrow> e AND PTE_U = 0" using f by argo
qed


text \<open>Where a valid entry is found.\<close>

lemma valid_entry:
  assumes "entry (mem s) pt va AND PTE_V \<noteq> 0" "va < MAXVA"
  obtains t where "node (mem s) pt (vpath va) = Some t" "walk pt va False s = OK (pte_at t 0 va, s)"
    "pte_at t 0 va \<noteq> 0" "load64 (mem s) (pte_at t 0 va) = entry (mem s) pt va"
proof -
  obtain t where t: "node (mem s) pt (vpath va) = Some t"
    using assms(1) by (cases "node (mem s) pt (vpath va)") (auto simp: entry_def lookup_node)
  moreover have lk: "lookup (mem s) pt va = pte_at t 0 va" "pte_at t 0 va \<noteq> 0"
    "load64 (mem s) (pte_at t 0 va) = entry (mem s) pt va"
    using t assms(1) by (auto simp: lookup_node entry_def Let_def split: if_splits)
  moreover have "walk pt va False s = OK (pte_at t 0 va, s)" using assms(2) by (auto simp: walk_lookup lk(1))
  ultimately show thesis using that by blast
qed

section \<open>A private copy\<close>

text \<open>Allocating a page and copying \<open>pa\<close> to it.\<close>

lemma copy_to_new_page:
  assumes "kmem_inv s" "held s pa" "kalloc s = OK (p, s1)" "p \<noteq> 0" "s2 = s1\<lparr>mem := memmove p pa 4096 (mem s1)\<rparr>"
  shows "kmem_inv s2" "kend s2 = kend s" "page_ok s p" "refcount s p = 0"
    "page_aligned q \<Longrightarrow> refcount s2 q = (if q = p then 1 else refcount s q)"
    "PGROUNDDOWN x \<noteq> p \<Longrightarrow> mem s2 x = mem s x"
    "k < 4096 \<Longrightarrow> mem s2 (p + of_nat k) = mem s (pa + of_nat k)"
proof -
  note K = kalloc_OK_D[OF assms(1,3,4)]
  show "page_ok s p" "refcount s p = 0" "kend s2 = kend s" using K assms(5) by simp_all
  have pp: "page_aligned p" "p < PHYSTOP" "page_ok s pa" "page_aligned pa" "pa < PHYSTOP" "pa \<noteq> p"
    using K(2,3) assms(2) page_okD by (auto simp: page_ok_def held_def)
  have mv: "memmove p pa 4096 m x = (if in_range p 4096 x then m (pa + (x - p)) else m x)" for m x
    using pp(2,5) by (intro memmove_apply) (simp_all add: word_less_nat_alt)
  have out: "mem s1 x = mem s x" if "PGROUNDDOWN x \<noteq> p" for x
    using that K(7) in_page[OF pp(1)] by (auto simp: memset_apply)
  then show o2: "PGROUNDDOWN x \<noteq> p \<Longrightarrow> mem s2 x = mem s x" for x
    using in_page[OF pp(1)] by (auto simp: assms(5) mv)
  show rc: "page_aligned q \<Longrightarrow> refcount s2 q = (if q = p then 1 else refcount s q)" for q
    using K(4,6) by (simp add: assms(5) refcount_def)
  show "kmem_inv s2" unfolding assms(5)
  proof (rule kmem_inv_mem[OF K(1)])
    fix q x assume "page_ok s1 q" "refcount s1 q = 0" "PGROUNDDOWN x = q"
    then show "memmove p pa 4096 (mem s1) x = mem s1 x" using K(4) in_page[OF pp(1)] by (auto simp: mv)
  qed
  assume k: "k < 4096"
  have "in_range p 4096 (p + of_nat k)" "in_range pa 4096 (pa + of_nat k)"
    using k by (simp_all add: in_range_def unat_of_nat)
  then have "mem s2 (p + of_nat k) = mem s1 (pa + of_nat k)" "PGROUNDDOWN (pa + of_nat k) \<noteq> p"
    using pp(6) in_page[OF pp(4)] by (auto simp: assms(5) mv)
  then show "mem s2 (p + of_nat k) = mem s (pa + of_nat k)" using out by simp
qed

text \<open>
  The common part of \<^verbatim>\<open>usertrap\<close> and \<^verbatim>\<open>copyout\<close>: the entry of \<open>va\<close> is pointed to a copy of its page,
  and the reference to the old page is given up.
\<close>

lemma private_copy:
  assumes inv: "kmem_inv s" "pt_ok s pt" and t: "node (mem s) pt (vpath va) = Some t"
    and pa: "held s pa" "pa \<notin> nodes (mem s) pt" and new: "kalloc s = OK (p, s1)" "p \<noteq> 0"
  obtains s' where
    "kfree pa (s1\<lparr>mem := store64 (memmove p pa 4096 (mem s1)) (pte_at t 0 va) v\<rparr>) = OK s'"
    "kmem_inv s'" "pt_ok s' pt" "kend s' = kend s" "nodes (mem s') pt = nodes (mem s) pt"
    "page_ok s p" "refcount s p = 0"
    "\<And>va'. entry (mem s') pt va' = (if same_page va va' then v else entry (mem s) pt va')"
    "\<And>q. page_aligned q \<Longrightarrow> refcount s' q = (if q = p then 1 else if q = pa then refcount s pa - 1 else refcount s q)"
    "\<And>k. k < 4096 \<Longrightarrow> mem s' (p + of_nat k) = mem s (pa + of_nat k)"
    "\<And>x. PGROUNDDOWN x \<noteq> p \<Longrightarrow> PGROUNDDOWN x \<noteq> t \<Longrightarrow> PGROUNDDOWN x = pa \<longrightarrow> 1 < refcount s pa \<Longrightarrow> mem s' x = mem s x"
proof -
  let ?s2 = "s1\<lparr>mem := memmove p pa 4096 (mem s1)\<rparr>"
  let ?s3 = "s1\<lparr>mem := store64 (memmove p pa 4096 (mem s1)) (pte_at t 0 va) v\<rparr>"
  note N = copy_to_new_page[OF inv(1) pa(1) new refl]
  have tn: "a \<in> nodes (mem s) pt \<Longrightarrow> page_ok s a \<and> 0 < refcount s a \<and> a \<noteq> p" for a
    using pt_okD(1,2)[OF inv(2)] N(4) by (fastforce simp: nodes_def)
  have rc: "0 < refcount ?s2 a" if "a \<in> nodes (mem s) pt" for a
    using N(5)[of a] tn[OF that] page_okD[of s a] by simp
  have bytes: "mem ?s2 x = mem s x" if "PGROUNDDOWN x \<in> nodes (mem s) pt" for x
    using N(6)[of x] tn[OF that] by blast
  note F = pt_ok_frame[OF inv(2) N(2) rc bytes]
  have t2: "node (mem ?s2) pt (vpath va) = Some t" using F(2)[of "vpath va"] t by simp
  have s3: "?s3 = ?s2\<lparr>mem := store64 (mem ?s2) (pte_at t 0 va) v\<rparr>" by simp
  note S = store_leaf_grows[OF N(1) F(1) t2 s3]
  note T = pt_okD[OF inv(2) is_path_vpath(1) t]
  have out3: "mem ?s3 x = mem ?s2 x" if "PGROUNDDOWN x \<noteq> t" for x
    using that entry_on_page[OF T(3) PX_less[of 0 va], of x] by (auto simp: pte_at_nat intro!: store64_other)
  have al: "page_aligned pa" "page_ok s pa" "pa \<noteq> p" using pa(1) page_okD N(4) by (auto simp: held_def)
  have tne: "t \<noteq> pa" "t \<noteq> p" using nodesI[OF is_path_vpath(1) t] pa(2) tn by blast+
  have rc3: "refcount ?s3 q = refcount ?s2 q" for q by (simp add: refcount_def)
  have ok3: "page_ok ?s3 pa" "refcount ?s3 pa = refcount s pa" "0 < refcount ?s3 pa"
    using N(2) N(5)[of pa] al pa(1) by (simp_all add: rc3 held_def page_ok_def)
  obtain s' where s': "kfree pa ?s3 = OK s'" "kmem_inv s'" "kend s' = kend ?s3"
    "\<And>q. page_aligned q \<Longrightarrow> refcount s' q = (if q = pa then refcount ?s3 pa - 1 else refcount ?s3 q)"
    "1 < refcount ?s3 pa \<Longrightarrow> mem s' = mem ?s3" "\<And>x. PGROUNDDOWN x \<noteq> pa \<Longrightarrow> mem s' x = mem ?s3 x"
    using kfree_cases[OF S(1) ok3(1,3)] by blast
  have n3: "nodes (mem ?s3) pt = nodes (mem s) pt"
    using store_leaf(1)[OF F(1) t2 PX_less[of 0 va]] F(2) by (auto simp: nodes_def pte_at_nat)
  have "0 < refcount s' a" if "a \<in> nodes (mem ?s3) pt" for a
    using s'(4)[of a] that tn[of a] page_okD[of s a] pa(2) rc[of a] unfolding n3 rc3 by auto
  moreover have "mem s' x = mem ?s3 x" if "PGROUNDDOWN x \<in> nodes (mem ?s3) pt" for x
    using s'(6)[of x] that pa(2) unfolding n3 by blast
  ultimately have P: "pt_ok s' pt" "\<And>q. is_path q \<Longrightarrow> node (mem s') pt q = node (mem ?s3) pt q"
    "\<And>va'. entry (mem s') pt va' = entry (mem ?s3) pt va'"
    using pt_ok_frame[OF S(2) s'(3)] by blast+
  show thesis
  proof (rule that[OF s'(1,2) P(1) _ _ N(3,4)])
    show "kend s' = kend s" using s'(3) N(2) by simp
    have "nodes (mem s') pt = nodes (mem ?s3) pt" unfolding nodes_def using P(2) by auto
    then show "nodes (mem s') pt = nodes (mem s) pt" using n3 by simp
    show "entry (mem s') pt va' = (if same_page va va' then v else entry (mem s) pt va')" for va'
      using P(3)[of va'] S(4)[of va'] F(3)[of va'] by simp
    show "refcount s' q = (if q = p then 1 else if q = pa then refcount s pa - 1 else refcount s q)" if "page_aligned q" for q
      using s'(4)[OF that] N(5)[OF that] ok3(2) al(3) unfolding rc3 by (auto split: if_splits)
    show "mem s' (p + of_nat k) = mem s (pa + of_nat k)" if "k < 4096" for k
    proof -
      have "in_range p 4096 (p + of_nat k)" using that by (simp add: in_range_def unat_of_nat)
      then have "PGROUNDDOWN (p + of_nat k) = p" using in_page page_okD[OF N(3)] by blast
      then show ?thesis using s'(6) out3 N(7)[OF that] tne al(3) by simp
    qed
    show "mem s' x = mem s x" if "PGROUNDDOWN x \<noteq> p" "PGROUNDDOWN x \<noteq> t" "PGROUNDDOWN x = pa \<longrightarrow> 1 < refcount s pa" for x
      using that s'(5,6) out3[of x] N(6)[of x] ok3(2) by (cases "PGROUNDDOWN x = pa") auto
  qed
qed

text \<open>
  C23 (copy on write keeps processes apart). A store to a user page marked copy-on-write, outside the
  guard range: if no page is free the process is marked killed; otherwise \<^verbatim>\<open>usertrap\<close> gives the
  process a fresh page of its own with the same bytes, mapped writable and no longer
  copy-on-write, and drops one reference to the shared page.  Every other entry of the
  page table, every other page in use, and the shared page itself while another process
  still refers to it, are unchanged.
\<close>

theorem cow_fault_private_copy:
  assumes inv: "kmem_inv s" "pt_ok s pt" "pt = pagetable (procs s ! cur)"
    and va: "va < MAXVA" "\<not> guard_range (tf_get cur TF_sp s) va"
    and e: "e = entry (mem s) pt (PGROUNDDOWN va)" "e AND PTE_V \<noteq> 0" "e AND PTE_U \<noteq> 0" "e AND PTE_C \<noteq> 0"
    and pa: "held s (PTE2PA e)" "PTE2PA e \<notin> nodes (mem s) pt"
    and p: "kalloc s = OK (p, s1)"
  shows "if p = 0 then cow_fault cur va s = OK (False, setkilled cur s)
    else \<exists>s'. cow_fault cur va s = OK (True, s') \<and> kmem_inv s' \<and> pt_ok s' pt
      \<and> refcount s p = 0 \<and> refcount s' p = 1 \<and> refcount s' (PTE2PA e) = refcount s (PTE2PA e) - 1
      \<and> (\<forall>k<4096. mem s' (p + of_nat k) = mem s (PTE2PA e + of_nat k))
      \<and> entry (mem s') pt (PGROUNDDOWN va) = PA2PTE p OR (PTE_FLAGS e AND NOT PTE_C) OR PTE_W
      \<and> (\<forall>va'. \<not> same_page (PGROUNDDOWN va) va' \<longrightarrow> entry (mem s') pt va' = entry (mem s) pt va')
      \<and> (\<forall>b x. held s b \<longrightarrow> b \<notin> nodes (mem s) pt \<longrightarrow> b \<noteq> PTE2PA e \<or> 1 < refcount s b \<longrightarrow> PGROUNDDOWN x = b
           \<longrightarrow> mem s' x = mem s x)"
proof -
  let ?v = "PGROUNDDOWN va" and ?f = "(PTE_FLAGS e AND NOT PTE_C) OR PTE_W"
  have "?v < MAXVA" using va(1) PGROUNDDOWN_le[of va] by (rule le_less_trans[rotated])
  then obtain t where t: "node (mem s) pt (vpath ?v) = Some t" and w: "walk pt ?v False s = OK (pte_at t 0 ?v, s)"
    and lk: "pte_at t 0 ?v \<noteq> 0" "load64 (mem s) (pte_at t 0 ?v) = e"
    using valid_entry[of s pt ?v] e(1,2) by blast
  have fl: "PTE_FLAGS e AND PTE_V \<noteq> 0" "PTE_FLAGS e AND PTE_U \<noteq> 0" "PTE_FLAGS e AND PTE_C \<noteq> 0"
    using e(2-4) flag_set[of e] flag_set[of "PTE_FLAGS e"] by (simp_all add: bit_PTE_FLAGS)
  have run: "cow_fault cur va s = (if p = 0 then OK (False, setkilled cur s1) else
      rbind (kfree (PTE2PA e) (s1\<lparr>mem := store64 (memmove p (PTE2PA e) 4096 (mem s1)) (pte_at t 0 ?v) (PA2PTE p OR ?f)\<rparr>))
        (\<lambda>s. OK (True, s)))"
    using va(2) leD[of MAXVA va] va(1) fl by (auto simp: cow_fault_def inv(3)[symmetric] w lk Let_def p)
  show ?thesis
  proof (cases "p = 0")
    case True
    then show ?thesis using run kalloc_zero_D(1)[OF inv(1)] p by simp
  next
    case False
    from private_copy[OF inv(1,2) t pa p False, of "PA2PTE p OR ?f"] show ?thesis
    proof cases
      case (1 s')
      have al: "page_aligned p" "page_aligned (PTE2PA e)" "PTE2PA e \<noteq> p"
        using page_okD 1(6,7) pa(1) by (auto simp: held_def)
      have tn: "t \<in> nodes (mem s) pt" by (rule nodesI[OF is_path_vpath(1) t])
      have "mem s' x = mem s x" if "held s b" "b \<notin> nodes (mem s) pt" "b \<noteq> PTE2PA e \<or> 1 < refcount s b" "PGROUNDDOWN x = b" for b x
        using that 1(7) tn by (intro 1(11)) (auto simp: held_def)
      moreover have "cow_fault cur va s = OK (True, s')" using run False 1(1) by simp
      ultimately show ?thesis using False 1(2,3,7,8,10) 1(9)[OF al(1)] 1(9)[OF al(2)] al(3) by (auto simp: same_page_def)
    qed
  qed
qed

section \<open>An example address space\<close>

text \<open>
  Two page tables, at \<open>0x87FF0000\<close> and \<open>0x87FF4000\<close>, whose tables for address 0 are in place; the
  first maps the page \<open>0x87FF3000\<close> at address 0 with flags \<open>f\<close>.  The page \<open>0x87FF7000\<close> is free.
\<close>

definition two_spaces_mem :: "u64 \<Rightarrow> memory" where
  "two_spaces_mem f = store64 (store64 (store64 (store64 (store64 (\<lambda>_. 0)
     0x87FF0000 0x21FFC401) 0x87FF1000 0x21FFC801) 0x87FF2000 (0x21FFCC00 OR f)) 0x87FF4000 0x21FFD401) 0x87FF5000 0x21FFD801"

definition two_spaces :: "u64 \<Rightarrow> 'a kmem_scheme \<Rightarrow> 'a kmem_scheme" where
  "two_spaces f s = s\<lparr>mem := two_spaces_mem f, freelist := 0x87FF7000,
     pgrc := (\<lambda>_. 1)(pgindex 0x87FF7000 := 0), kend := 0x87FF0000\<rparr>"

lemma load_first_store:
  assumes "page_aligned t" "page_aligned u" "j < 512"
  shows "load64 (store64 m t v) (u + 8 * of_nat j) = (if t = u \<and> j = 0 then v else load64 m (u + 8 * of_nat j))"
  using load_entry_store[OF assms(1,2) _ assms(3), of 0 m v] by simp

lemma load_page_store:
  "page_aligned t \<Longrightarrow> page_aligned u \<Longrightarrow> load64 (store64 m t v) u = (if t = u then v else load64 m u)"
  using load_first_store[of t u 0 m v] by simp

lemma chain_node:
  assumes "\<And>i. i < 512 \<Longrightarrow> load64 m (a + 8 * of_nat i) = (if i = 0 then x else 0)"
    "\<And>i. i < 512 \<Longrightarrow> load64 m (PTE2PA x + 8 * of_nat i) = (if i = 0 then y else 0)"
    "x AND PTE_V \<noteq> 0" "y AND PTE_V \<noteq> 0" "is_path p"
  shows "node m a p = (if p = [] then Some a else if p = [0] then Some (PTE2PA x) else if p = [0, 0] then Some (PTE2PA y) else None)"
proof -
  consider "p = []" | i where "p = [i]" "i < 512" | i j where "p = [i, j]" "i < 512" "j < 512"
    using assms(5) by (cases p; cases "tl p"; auto simp: is_path_def)
  then show ?thesis using assms(1-4) assms(2)[of 0] by cases (auto simp: Let_def)
qed

lemma chain_tree:
  assumes "\<And>i. i < 512 \<Longrightarrow> load64 (mem s) (a + 8 * of_nat i) = (if i = 0 then x else 0)"
    "\<And>i. i < 512 \<Longrightarrow> load64 (mem s) (PTE2PA x + 8 * of_nat i) = (if i = 0 then y else 0)"
    "x AND PTE_V \<noteq> 0" "y AND PTE_V \<noteq> 0" "distinct [a, PTE2PA x, PTE2PA y]"
    "held s a" "held s (PTE2PA x)" "held s (PTE2PA y)"
  shows "pt_ok s a" "nodes (mem s) a = {a, PTE2PA x, PTE2PA y}"
proof -
  note N = chain_node[OF assms(1-4)]
  show "pt_ok s a" unfolding pt_ok_def using assms(5-8) by (auto simp: N held_def split: if_splits)
  have "is_path [0]" "is_path [0, 0]" by (simp_all add: is_path_def)
  then have "{a, PTE2PA x, PTE2PA y} \<subseteq> nodes (mem s) a"
    using nodesI[of "[]" "mem s" a a] nodesI[of "[0]" "mem s" a] nodesI[of "[0, 0]" "mem s" a] N[of "[]"] N[of "[0]"] N[of "[0, 0]"]
    by auto
  moreover have "nodes (mem s) a \<subseteq> {a, PTE2PA x, PTE2PA y}" unfolding nodes_def using N by (auto split: if_splits)
  ultimately show "nodes (mem s) a = {a, PTE2PA x, PTE2PA y}" by (rule equalityI[rotated])
qed

lemma two_spaces_held:
  "held (two_spaces f s) p \<longleftrightarrow> page_aligned p \<and> 0x87FF0000 \<le> p \<and> p < PHYSTOP \<and> p \<noteq> 0x87FF7000"
proof -
  have "page_aligned p \<Longrightarrow> pgindex p = pgindex 0x87FF7000 \<longleftrightarrow> p = 0x87FF7000"
    using pgindex_inject[of p "0x87FF7000"] page_aligned_unat[of "0x87FF7000"] by auto
  then show ?thesis by (auto simp: held_def page_ok_def two_spaces_def refcount_def)
qed

lemma two_spaces_inv: "kmem_inv (two_spaces f s)"
proof -
  have "kmem_inv_of (two_spaces f s) [0x87FF7000]"
  proof (rule kmem_inv_ofI)
    show "free_list (mem (two_spaces f s)) (freelist (two_spaces f s)) [0x87FF7000]"
      by (simp add: two_spaces_def two_spaces_mem_def load_page_store page_aligned_unat load64_zero)
    fix p assume p: "page_ok (two_spaces f s) p"
    then have "page_aligned p" "page_aligned 0x87FF7000" using page_okD by (auto simp: page_aligned_unat)
    then show "0 \<le> refcount (two_spaces f s) p \<and> (p \<in> set [0x87FF7000] \<longleftrightarrow> refcount (two_spaces f s) p = 0)"
      using pgindex_inject[of p "0x87FF7000"] by (auto simp: two_spaces_def refcount_def)
  qed (auto simp: two_spaces_def page_ok_def page_aligned_unat)
  then show ?thesis by (auto simp: kmem_inv_def)
qed

lemma two_spaces_trees:
  "pt_ok (two_spaces f s) 0x87FF0000" "nodes (two_spaces_mem f) 0x87FF0000 = {0x87FF0000, 0x87FF1000, 0x87FF2000}"
  "pt_ok (two_spaces f s) 0x87FF4000" "nodes (two_spaces_mem f) 0x87FF4000 = {0x87FF4000, 0x87FF5000, 0x87FF6000}"
proof -
  have m: "mem (two_spaces f s) = two_spaces_mem f" by (simp add: two_spaces_def)
  have pa: "PTE2PA 0x21FFC401 = 0x87FF1000" "PTE2PA 0x21FFC801 = 0x87FF2000" "PTE2PA 0x21FFD401 = 0x87FF5000" "PTE2PA 0x21FFD801 = 0x87FF6000"
    by (simp_all add: PTE2PA_def)
  note ld = two_spaces_mem_def load_first_store page_aligned_unat load64_zero
  show "pt_ok (two_spaces f s) 0x87FF0000" "nodes (two_spaces_mem f) 0x87FF0000 = {0x87FF0000, 0x87FF1000, 0x87FF2000}"
    using chain_tree[of "two_spaces f s" "0x87FF0000" "0x21FFC401" "0x21FFC801"]
    by (simp_all add: m pa ld two_spaces_held)
  show "pt_ok (two_spaces f s) 0x87FF4000" "nodes (two_spaces_mem f) 0x87FF4000 = {0x87FF4000, 0x87FF5000, 0x87FF6000}"
    using chain_tree[of "two_spaces f s" "0x87FF4000" "0x21FFD401" "0x21FFD801"]
    by (simp_all add: m pa ld two_spaces_held)
qed

lemma lookup_0:
  "lookup m pt 0 = (let e = load64 m pt; e' = load64 m (PTE2PA e)
     in if e AND PTE_V \<noteq> 0 \<and> e' AND PTE_V \<noteq> 0 then PTE2PA e' else 0)"
  by (simp add: lookup_def numeral_2_eq_2 pte_at_def PX_def Let_def)

lemma two_spaces_entry:
  "lookup (two_spaces_mem f) 0x87FF0000 0 = 0x87FF2000" "lookup (two_spaces_mem f) 0x87FF4000 0 = 0x87FF6000"
  "entry (two_spaces_mem f) 0x87FF0000 0 = 0x21FFCC00 OR f" "entry (two_spaces_mem f) 0x87FF4000 0 = 0"
proof -
  have "load64 (two_spaces_mem f) a = (if a = 0x87FF0000 then 0x21FFC401 else if a = 0x87FF1000 then 0x21FFC801
      else if a = 0x87FF2000 then 0x21FFCC00 OR f else if a = 0x87FF4000 then 0x21FFD401 else if a = 0x87FF5000 then 0x21FFD801 else 0)"
    if "page_aligned a" for a
    using that by (simp add: two_spaces_mem_def load_page_store page_aligned_unat load64_zero)
  note ld = this[of "0x87FF0000"] this[of "0x87FF1000"] this[of "0x87FF2000"] this[of "0x87FF4000"] this[of "0x87FF5000"] this[of "0x87FF6000"]
  show l: "lookup (two_spaces_mem f) 0x87FF0000 0 = 0x87FF2000" "lookup (two_spaces_mem f) 0x87FF4000 0 = 0x87FF6000"
    using ld by (simp_all add: lookup_0 page_aligned_unat PTE2PA_def)
  show "entry (two_spaces_mem f) 0x87FF0000 0 = 0x21FFCC00 OR f" "entry (two_spaces_mem f) 0x87FF4000 0 = 0"
    using ld by (simp_all add: entry_def l page_aligned_unat)
qed

lemma walk_levels_existing: "lookup_levels l (mem s) pt va \<noteq> 0 \<Longrightarrow> walk_levels l pt va alloc s = OK (lookup_levels l (mem s) pt va, s)"
  by (induction l arbitrary: pt) (auto simp: Let_def split: if_splits)

lemma walk_existing: "lookup (mem s) pt va \<noteq> 0 \<Longrightarrow> va < MAXVA \<Longrightarrow> walk pt va alloc s = OK (lookup (mem s) pt va, s)"
  using walk_levels_existing[of 2 s pt va alloc] by (auto simp: walk_def lookup_def)

lemma two_spaces_map:
  assumes "mem t = two_spaces_mem f \<or> mem t = store64 (two_spaces_mem f) 0x87FF2000 v"
  shows "mappages 0x87FF4000 0 PGSIZE pa fl t = OK (0, t\<lparr>mem := store64 (mem t) 0x87FF6000 (PA2PTE pa OR fl OR PTE_V)\<rparr>)"
proof -
  have ld: "load64 (mem t) 0x87FF4000 = 0x21FFD401" "load64 (mem t) 0x87FF5000 = 0x21FFD801" "load64 (mem t) 0x87FF6000 = 0"
    using assms by (auto simp: two_spaces_mem_def load_page_store page_aligned_unat load64_zero)
  have lk: "lookup (mem t) 0x87FF4000 0 = 0x87FF6000" using ld by (simp add: lookup_0 PTE2PA_def)
  show ?thesis using walk_existing[of t "0x87FF4000" 0 True]
    by (simp add: mappages_def PGROUNDDOWN_def mappages_loop.simps lk ld)
qed

text \<open>The state after the copy; a writable page is marked on both sides, a read-only one is not.\<close>

definition two_spaces_copy :: "u64 \<Rightarrow> 'a kmem_scheme \<Rightarrow> 'a kmem_scheme" where
  "two_spaces_copy f s = two_spaces f s
     \<lparr>mem := store64 (if f = 0x17 then store64 (two_spaces_mem f) 0x87FF2000 0x21FFCC33 else two_spaces_mem f)
        0x87FF6000 (if f = 0x17 then 0x21FFCC33 else 0x21FFCC00 OR f),
      pgrc := (pgrc (two_spaces f s))(pgindex 0x87FF3000 := 2)\<rparr>"

lemma two_spaces_copied:
  assumes "f = 0x17 \<or> f = 0x1B"
  shows "uvmcopy 0x87FF0000 0x87FF4000 PGSIZE (two_spaces f s) = OK (0, two_spaces_copy f s)"
proof -
  let ?s = "two_spaces f s"
  have e: "load64 (mem ?s) 0x87FF2000 = 0x21FFCC00 OR f"
    by (simp add: two_spaces_def two_spaces_mem_def load_page_store page_aligned_unat)
  have lk: "walk 0x87FF0000 0 False ?s = OK (0x87FF2000, ?s)"
    by (simp add: walk_lookup two_spaces_entry two_spaces_def)
  have i: "pgindex 0x87FF3000 = 0x87FF3" "pgindex 0x87FF7000 = 0x87FF7" by (simp_all add: pgindex_def PGROUNDDOWN_def)
  have mp: "mappages 0x87FF4000 0 PGSIZE pa fl (?s\<lparr>mem := store64 (mem ?s) 0x87FF2000 v\<rparr>)
     = OK (0, ?s\<lparr>mem := store64 (store64 (two_spaces_mem f) 0x87FF2000 v) 0x87FF6000 (PA2PTE pa OR fl OR PTE_V)\<rparr>)"
    "mappages 0x87FF4000 0 PGSIZE pa fl ?s = OK (0, ?s\<lparr>mem := store64 (two_spaces_mem f) 0x87FF6000 (PA2PTE pa OR fl OR PTE_V)\<rparr>)" for pa fl v
    using two_spaces_map[of "?s\<lparr>mem := store64 (mem ?s) 0x87FF2000 v\<rparr>" f v] two_spaces_map[of ?s f] by (simp_all add: two_spaces_def)
  let ?t = "two_spaces_copy f s\<lparr>pgrc := pgrc ?s\<rparr>"
  have tt: "?t = ?s\<lparr>mem := store64 (if f = 0x17 then store64 (two_spaces_mem f) 0x87FF2000 0x21FFCC33 else two_spaces_mem f)
        0x87FF6000 (if f = 0x17 then 0x21FFCC33 else 0x21FFCC00 OR f)\<rparr>"
    by (simp add: two_spaces_copy_def two_spaces_def)
  have "uvmcopy_loop 0x87FF0000 0x87FF4000 0 PGSIZE ?s = rbind (incpgrc 0x87FF3000 ?t) (uvmcopy_loop 0x87FF0000 0x87FF4000 PGSIZE PGSIZE)"
    unfolding tt using assms lk e mp by (elim disjE) (simp_all add: uvmcopy_loop.simps[of _ _ 0] PTE2PA_def PTE_FLAGS_def PA2PTE_def)
  then show ?thesis
    by (simp add: uvmcopy_def incpgrc_def Let_def two_spaces_copy_def two_spaces_def i uvmcopy_loop.simps[of _ _ "4096"])
qed


definition faulting :: "u64 \<Rightarrow> ptable" where
  "faulting f = two_spaces f (boot_table RR)\<lparr>procs := [(procs (boot_table RR) ! 0)\<lparr>pagetable := 0x87FF0000, trapframe := 0x87FF8000\<rparr>]\<rparr>"

theorem cow_fault_private_copy_witness:
  "\<exists>s'. cow_fault 0 5 (faulting 0x33) = OK (True, s') \<and> refcount s' 0x87FF7000 = 1 \<and> refcount s' 0x87FF3000 = 0
     \<and> entry (mem s') 0x87FF0000 0 = 0x21FFDC17"
proof -
  let ?s = "faulting 0x33"
  have m: "mem ?s = two_spaces_mem 0x33" and f: "freelist ?s = 0x87FF7000" and rc: "pgrc ?s = (\<lambda>_. 1)(pgindex 0x87FF7000 := 0)"
    and ke: "kend ?s = 0x87FF0000" and pt: "pagetable (procs ?s ! 0) = 0x87FF0000" and tf: "trapframe (procs ?s ! 0) = 0x87FF8000"
    by (simp_all add: faulting_def two_spaces_def)
  have D: "PTE2PA 0x21FFCC33 = 0x87FF3000" by (simp add: PTE2PA_def)
  have d: "PGROUNDDOWN 5 = 0" by (simp add: PGROUNDDOWN_def)
  have e: "entry (mem ?s) 0x87FF0000 (PGROUNDDOWN 5) = 0x21FFCC33" by (simp add: d m two_spaces_entry)
  have hd: "held ?s b \<longleftrightarrow> held (two_spaces 0x33 (boot_table RR)) b" for b
    by (simp add: held_def page_ok_def refcount_def faulting_def)
  have inv: "kmem_inv ?s" "pt_ok ?s 0x87FF0000"
    using two_spaces_inv[of "0x33" "boot_table RR"] two_spaces_trees(1)[of "0x33" "boot_table RR"]
    by (simp_all add: faulting_def kmem_inv_def kmem_inv_of_def pt_ok_def page_ok_def refcount_def)
  have "load64 (two_spaces_mem 0x33) (0x87FF8000 + 8 * of_nat 6) = 0"
    by (simp add: two_spaces_mem_def load_first_store page_aligned_unat load64_zero del: of_nat_numeral)
  then have "\<not> guard_range (tf_get 0 TF_sp ?s) 5" by (simp add: guard_range_def tf_get_def tf m PGROUNDDOWN_def)
  moreover obtain s1 where k: "kalloc ?s = OK (0x87FF7000, s1)"
    by (simp add: kalloc_def f incpgrc_def rc Let_def)
  moreover have "0x21FFCC33 AND PTE_V \<noteq> 0" "0x21FFCC33 AND PTE_U \<noteq> 0" "0x21FFCC33 AND PTE_C \<noteq> 0" by simp_all
  moreover have "held ?s (PTE2PA 0x21FFCC33)" "PTE2PA 0x21FFCC33 \<notin> nodes (mem ?s) 0x87FF0000"
    by (simp_all add: hd two_spaces_held D page_aligned_unat m two_spaces_trees)
  moreover have "refcount ?s 0x87FF3000 = 1" by (simp add: rc refcount_def pgindex_def PGROUNDDOWN_def)
  ultimately show ?thesis
    using cow_fault_private_copy[OF inv pt[symmetric], of 5 "0x21FFCC33" "0x87FF7000" s1] e
    by (auto simp: D d PA2PTE_def PTE_FLAGS_def)
qed

section \<open>Mapping keeps page tables well formed\<close>



end
