(* ===== verification/Copyout.thy ===== *)
theory Copyout
  imports Cow
begin

text \<open>
  \<^verbatim>\<open>copyout\<close> writes to the memory of one process as that process sees it, and to no other process,
  as long as the pages the two share are marked copy-on-write.
\<close>

section \<open>Views\<close>

text \<open>The byte a process with page table \<open>pt\<close> finds at \<open>va\<close>.\<close>

definition ubyte :: "memory \<Rightarrow> u64 \<Rightarrow> u64 \<Rightarrow> u8 option" where
  "ubyte m pt va = map_option m (uaddr m pt va)"

lemma pg_offset:
  assumes "i < 4096"
  shows "PGROUNDDOWN (pg k + of_nat i) = pg k" "pg k + of_nat i - pg k = of_nat i"
proof -
  have al: "page_aligned (pg k)" unfolding page_aligned_iff_mod pg_def
    by (simp add: word_unat_eq_iff unat_mod unat_of_nat mod_mod_cancel del: of_nat_mult)
  have "in_range (pg k) 4096 (pg k + of_nat i)" using assms by (simp add: in_range_def unat_of_nat)
  then show "PGROUNDDOWN (pg k + of_nat i) = pg k" using in_page[OF al] by simp
qed simp

lemma uaddr_pg:
  "i < 4096 \<Longrightarrow> uaddr m pt (pg k + of_nat i) =
     (if user_page m pt (pg k) = 0 then None else Some (user_page m pt (pg k) + of_nat i))"
  by (simp add: uaddr_def pg_offset)

lemma user_page_cong: "entry m pt va = entry m' pt' va \<Longrightarrow> user_page m pt va = user_page m' pt' va"
  by (simp add: user_page_def)

lemma page_byte: "page_aligned p \<Longrightarrow> i < 4096 \<Longrightarrow> PGROUNDDOWN (p + of_nat i) = p"
  using in_page[of p "p + of_nat i"] by (simp add: in_range_def unat_of_nat)

section \<open>Unsharing a page\<close>

lemma unshared_flags:
  assumes "page_aligned p" "p < 2 ^ 56" "e AND PTE_V \<noteq> 0" "e AND PTE_U \<noteq> 0"
  defines "v \<equiv> PA2PTE p OR (PTE_FLAGS e AND NOT PTE_C) OR PTE_W"
  shows "PTE2PA v = p" "v AND PTE_V \<noteq> 0" "v AND PTE_U \<noteq> 0" "v AND PTE_C = 0"
proof -
  let ?f = "(PTE_FLAGS e AND NOT PTE_C) OR PTE_W"
  have b: "bit ?f n \<longleftrightarrow> n = 2 \<or> n < 10 \<and> n \<noteq> 5 \<and> bit e n" if "n < 64" for n
    using that by (simp only: bit_or_iff bit_and_iff bit_not_iff bit_PTE_FLAGS flag_bits) auto
  have lt: "?f < 1024" 
  proof (rule low_bits)
    fix n assume *: "bit ?f n"
    then have "n < 64" by (auto dest: bit_imp_le_length)
    then show "n < 10" using b[of n] * by auto
  qed
  show "PTE2PA v = p" unfolding v_def by (rule PTE2PA_PA2PTE[OF assms(1,2) lt])
  have F: "PTE_FLAGS v = ?f" unfolding v_def by (rule PTE_FLAGS_PA2PTE[OF lt])
  have "bit v n = bit ?f n" if "n < 10" for n
    using bit_PTE_FLAGS[of v n] that unfolding F by simp
  then have "bit v 0" "bit v 4" "\<not> bit v 5"
    using b[of 0] b[of 4] b[of 5] assms(3,4) flag_set[of e] by auto
  then show "v AND PTE_V \<noteq> 0" "v AND PTE_U \<noteq> 0" "v AND PTE_C = 0" using flag_set[of v] by blast+
qed

definition unshared :: "'a kmem_scheme \<Rightarrow> 'a kmem_scheme \<Rightarrow> u64 \<Rightarrow> nat \<Rightarrow> u64 \<Rightarrow> u64 \<Rightarrow> bool" where
  "unshared s s' pt k pa p \<longleftrightarrow> kmem_inv s' \<and> pt_ok s' pt \<and> kend s' = kend s \<and> nodes (mem s') pt = nodes (mem s) pt
     \<and> page_ok s p \<and> refcount s p = 0 \<and> user_page (mem s') pt (pg k) = p
     \<and> (\<forall>j<2 ^ 26. j \<noteq> k \<longrightarrow> entry (mem s') pt (pg j) = entry (mem s) pt (pg j))
     \<and> (\<forall>q. page_aligned q \<longrightarrow> refcount s' q = (if q = p then 1 else if q = pa then refcount s pa - 1 else refcount s q))
     \<and> (\<forall>i<4096. mem s' (p + of_nat i) = mem s (pa + of_nat i))
     \<and> (\<forall>x. PGROUNDDOWN x \<noteq> p \<longrightarrow> PGROUNDDOWN x \<notin> nodes (mem s) pt \<longrightarrow> (PGROUNDDOWN x = pa \<longrightarrow> 1 < refcount s pa)
          \<longrightarrow> mem s' x = mem s x)"

lemma copyout_cow_step:
  assumes inv: "kmem_inv s" "pt_ok s pt" and k: "k < 2 ^ 26"
    and pa: "user_page (mem s) pt (pg k) = pa" "pa \<noteq> 0" "held s pa" "pa \<notin> nodes (mem s) pt"
    and run: "copyout_cow pt (pg k) pa s = OK (p, s')"
  shows "if entry (mem s) pt (pg k) AND PTE_C = 0 then p = pa \<and> s' = s else unshared s s' pt k pa p"
proof -
  let ?e = "entry (mem s) pt (pg k)"
  have e: "?e AND PTE_V \<noteq> 0" "?e AND PTE_U \<noteq> 0" "PTE2PA ?e = pa"
    using pa(1,2) by (auto simp: user_page_def Let_def split: if_splits)
  obtain t where t: "node (mem s) pt (vpath (pg k)) = Some t" and w: "walk pt (pg k) False s = OK (pte_at t 0 (pg k), s)"
    and lk: "load64 (mem s) (pte_at t 0 (pg k)) = ?e"
    using valid_entry[OF e(1) pg_facts(2)[OF k]] by blast
  have c: "PTE_FLAGS ?e AND PTE_C \<noteq> 0 \<longleftrightarrow> ?e AND PTE_C \<noteq> 0"
    using flag_set(4)[of ?e] flag_set(4)[of "PTE_FLAGS ?e"] by (simp add: bit_PTE_FLAGS)
  show ?thesis
  proof (cases "?e AND PTE_C = 0")
    case True
    then show ?thesis using run c by (simp add: copyout_cow_def w lk Let_def)
  next
    case False
    obtain q s1 where q: "kalloc s = OK (q, s1)" using kmem_inv_cases[OF inv(1)] by metis
    let ?v = "PA2PTE q OR (PTE_FLAGS ?e AND NOT PTE_C) OR PTE_W"
    have qnz: "q \<noteq> 0" using run False c by (auto simp: copyout_cow_def w lk Let_def q)
    from private_copy[OF inv t pa(3,4) q qnz, of ?v] show ?thesis
    proof cases
      case (1 u)
      note al = page_okD[OF 1(6)]
      have up: "user_page (mem u) pt (pg k) = q"
        using unshared_flags[OF al page_ok_below[OF 1(6)] e(1,2)] 1(8)[of "pg k"] pg_facts(2)[OF k]
        by (auto simp: user_page_def same_page_def)
      have res: "p = q" "s' = u"
        using run False c qnz 1(1) by (auto simp: copyout_cow_def w lk Let_def q walkaddr_user_page up)
      have "entry (mem u) pt (pg j) = entry (mem s) pt (pg j)" if "j < 2 ^ 26" "j \<noteq> k" for j
        using 1(8)[of "pg j"] same_page_pg[OF k that(1)] that(2) by auto
      moreover have "mem u x = mem s x"
        if "PGROUNDDOWN x \<noteq> q" "PGROUNDDOWN x \<notin> nodes (mem s) pt" "PGROUNDDOWN x = pa \<longrightarrow> 1 < refcount s pa" for x
        using 1(11)[of x] that nodesI[OF is_path_vpath(1) t] by blast
      ultimately have "unshared s u pt k pa q" using 1(2-7,9,10) up unfolding unshared_def by blast
      then show ?thesis using False res by simp
    qed
  qed
qed

text \<open>Without memory the kernel faults; with a free page, or a page that is not shared, there is a result.\<close>

lemma copyout_cow_total:
  assumes inv: "kmem_inv s" "pt_ok s pt" and k: "k < 2 ^ 26"
    and pa: "user_page (mem s) pt (pg k) = pa" "pa \<noteq> 0" "held s pa" "pa \<notin> nodes (mem s) pt"
    and mem: "entry (mem s) pt (pg k) AND PTE_C = 0 \<or> (\<exists>q. page_ok s q \<and> refcount s q = 0)"
  shows "\<exists>p s'. copyout_cow pt (pg k) pa s = OK (p, s')"
proof -
  let ?e = "entry (mem s) pt (pg k)"
  have e: "?e AND PTE_V \<noteq> 0" using pa(1,2) by (auto simp: user_page_def Let_def split: if_splits)
  obtain t where t: "node (mem s) pt (vpath (pg k)) = Some t" and w: "walk pt (pg k) False s = OK (pte_at t 0 (pg k), s)"
    and lk: "load64 (mem s) (pte_at t 0 (pg k)) = ?e"
    using valid_entry[OF e(1) pg_facts(2)[OF k]] by blast
  have c: "PTE_FLAGS ?e AND PTE_C \<noteq> 0 \<longleftrightarrow> ?e AND PTE_C \<noteq> 0"
    using flag_set(4)[of ?e] flag_set(4)[of "PTE_FLAGS ?e"] by (simp add: bit_PTE_FLAGS)
  obtain q s1 where q: "kalloc s = OK (q, s1)" using kmem_inv_cases[OF inv(1)] by metis
  let ?v = "PA2PTE q OR (PTE_FLAGS ?e AND NOT PTE_C) OR PTE_W"
  show ?thesis
  proof (cases "?e AND PTE_C = 0")
    case False
    then have "q \<noteq> 0" using mem kalloc_zero_D(2)[OF inv(1)] q by fastforce
    from private_copy[OF inv t pa(3,4) q this, of ?v] show ?thesis
      by cases (use False c \<open>q \<noteq> 0\<close> in \<open>auto simp: copyout_cow_def w lk Let_def q walkaddr_user_page\<close>)
  qed (use c in \<open>simp add: copyout_cow_def w lk Let_def\<close>)
qed

section \<open>Invariants\<close>

text \<open>A process's user pages are in use, are not page tables, and appear once in its address space.\<close>

definition space_ok :: "'a kmem_scheme \<Rightarrow> u64 \<Rightarrow> bool" where
  "space_ok s pt \<longleftrightarrow> kmem_inv s \<and> pt_ok s pt
     \<and> (\<forall>j<2 ^ 26. user_page (mem s) pt (pg j) \<noteq> 0 \<longrightarrow>
          held s (user_page (mem s) pt (pg j)) \<and> user_page (mem s) pt (pg j) \<notin> nodes (mem s) pt)
     \<and> (\<forall>j<2 ^ 26. \<forall>k<2 ^ 26. j \<noteq> k \<longrightarrow> user_page (mem s) pt (pg j) \<noteq> 0 \<longrightarrow>
          user_page (mem s) pt (pg j) \<noteq> user_page (mem s) pt (pg k))"

text \<open>The pages that \<open>pt\<close> shares with \<open>other\<close> are marked copy-on-write in \<open>pt\<close> and counted for both.\<close>

definition apart :: "'a kmem_scheme \<Rightarrow> u64 \<Rightarrow> u64 \<Rightarrow> bool" where
  "apart s pt other \<longleftrightarrow> pt_ok s other \<and> nodes (mem s) other \<inter> nodes (mem s) pt = {}
     \<and> (\<forall>j<2 ^ 26. user_page (mem s) pt (pg j) \<notin> nodes (mem s) other)
     \<and> (\<forall>k<2 ^ 26. user_page (mem s) other (pg k) \<noteq> 0 \<longrightarrow>
          held s (user_page (mem s) other (pg k)) \<and> user_page (mem s) other (pg k) \<notin> nodes (mem s) pt)
     \<and> (\<forall>j<2 ^ 26. \<forall>k<2 ^ 26. user_page (mem s) pt (pg j) \<noteq> 0 \<longrightarrow> user_page (mem s) pt (pg j) = user_page (mem s) other (pg k) \<longrightarrow>
          entry (mem s) pt (pg j) AND PTE_C \<noteq> 0 \<and> 1 < refcount s (user_page (mem s) pt (pg j)))"

lemma space_okD:
  assumes "space_ok s pt"
  shows "kmem_inv s" "pt_ok s pt"
    "j < 2 ^ 26 \<Longrightarrow> user_page (mem s) pt (pg j) \<noteq> 0 \<Longrightarrow> held s (user_page (mem s) pt (pg j))"
    "j < 2 ^ 26 \<Longrightarrow> user_page (mem s) pt (pg j) \<noteq> 0 \<Longrightarrow> user_page (mem s) pt (pg j) \<notin> nodes (mem s) pt"
    "j < 2 ^ 26 \<Longrightarrow> k < 2 ^ 26 \<Longrightarrow> j \<noteq> k \<Longrightarrow> user_page (mem s) pt (pg j) \<noteq> 0 \<Longrightarrow>
      user_page (mem s) pt (pg j) \<noteq> user_page (mem s) pt (pg k)"
  using assms unfolding space_ok_def by blast+

lemma apartD:
  assumes "apart s pt other"
  shows "pt_ok s other" "nodes (mem s) other \<inter> nodes (mem s) pt = {}"
    "j < 2 ^ 26 \<Longrightarrow> user_page (mem s) pt (pg j) \<notin> nodes (mem s) other"
    "k < 2 ^ 26 \<Longrightarrow> user_page (mem s) other (pg k) \<noteq> 0 \<Longrightarrow> held s (user_page (mem s) other (pg k))"
    "k < 2 ^ 26 \<Longrightarrow> user_page (mem s) other (pg k) \<noteq> 0 \<Longrightarrow> user_page (mem s) other (pg k) \<notin> nodes (mem s) pt"
    "j < 2 ^ 26 \<Longrightarrow> k < 2 ^ 26 \<Longrightarrow> user_page (mem s) pt (pg j) \<noteq> 0 \<Longrightarrow>
      user_page (mem s) pt (pg j) = user_page (mem s) other (pg k) \<Longrightarrow>
      entry (mem s) pt (pg j) AND PTE_C \<noteq> 0 \<and> 1 < refcount s (user_page (mem s) pt (pg j))"
  using assms unfolding apart_def by blast+

lemma held_aligned: "held s p \<Longrightarrow> page_aligned p"
  by (auto simp: held_def page_okD)

lemma nodes_held: "pt_ok s pt \<Longrightarrow> a \<in> nodes (mem s) pt \<Longrightarrow> held s a"
  using pt_okD(1,2) by (auto simp: nodes_def held_def)

lemma unsharedD:
  assumes "unshared s s' pt k pa p"
  shows "kmem_inv s'" "pt_ok s' pt" "kend s' = kend s" "nodes (mem s') pt = nodes (mem s) pt"
    "page_ok s p" "refcount s p = 0" "user_page (mem s') pt (pg k) = p"
    "j < 2 ^ 26 \<Longrightarrow> j \<noteq> k \<Longrightarrow> entry (mem s') pt (pg j) = entry (mem s) pt (pg j)"
    "page_aligned q \<Longrightarrow> refcount s' q = (if q = p then 1 else if q = pa then refcount s pa - 1 else refcount s q)"
    "i < 4096 \<Longrightarrow> mem s' (p + of_nat i) = mem s (pa + of_nat i)"
    "PGROUNDDOWN x \<noteq> p \<Longrightarrow> PGROUNDDOWN x \<notin> nodes (mem s) pt \<Longrightarrow> (PGROUNDDOWN x = pa \<Longrightarrow> 1 < refcount s pa)
       \<Longrightarrow> mem s' x = mem s x"
    "held s b \<Longrightarrow> b \<noteq> pa \<or> 1 < refcount s b \<Longrightarrow> held s' b \<and> b \<noteq> p"
    "\<not> held s p" "held s' p"
proof -
  show *: "kmem_inv s'" "pt_ok s' pt" "kend s' = kend s" "nodes (mem s') pt = nodes (mem s) pt"
    "page_ok s p" "refcount s p = 0" "user_page (mem s') pt (pg k) = p"
    "j < 2 ^ 26 \<Longrightarrow> j \<noteq> k \<Longrightarrow> entry (mem s') pt (pg j) = entry (mem s) pt (pg j)"
    "i < 4096 \<Longrightarrow> mem s' (p + of_nat i) = mem s (pa + of_nat i)"
    "PGROUNDDOWN x \<noteq> p \<Longrightarrow> PGROUNDDOWN x \<notin> nodes (mem s) pt \<Longrightarrow> (PGROUNDDOWN x = pa \<Longrightarrow> 1 < refcount s pa)
       \<Longrightarrow> mem s' x = mem s x"
    using assms unfolding unshared_def by blast+
  show rc: "page_aligned q \<Longrightarrow> refcount s' q = (if q = p then 1 else if q = pa then refcount s pa - 1 else refcount s q)" for q
    using assms unfolding unshared_def by blast
  show "\<not> held s p" using *(6) by (simp add: held_def)
  have ok: "page_ok s' b = page_ok s b" for b using *(3) by (simp add: page_ok_def)
  show "held s' p" using rc[of p] *(5) page_okD[OF *(5)] by (simp add: held_def ok)
  show "held s b \<Longrightarrow> b \<noteq> pa \<or> 1 < refcount s b \<Longrightarrow> held s' b \<and> b \<noteq> p"
    using rc[of b] held_aligned[of s b] *(6) by (auto simp: held_def ok)
qed

lemma unshared_pages:
  assumes "unshared s s' pt k pa p" "j < 2 ^ 26"
  shows "user_page (mem s') pt (pg j) = (if j = k then p else user_page (mem s) pt (pg j))"
  using unsharedD(7)[OF assms(1)] unsharedD(8)[OF assms] user_page_cong[of "mem s'" pt "pg j" "mem s" pt] by auto

lemma unshared_space:
  assumes u: "unshared s s' pt k pa p" and ok: "space_ok s pt" and k: "k < 2 ^ 26" and pa: "user_page (mem s) pt (pg k) = pa" "pa \<noteq> 0"
  shows "space_ok s' pt" "j < 2 ^ 26 \<Longrightarrow> i < 4096 \<Longrightarrow> ubyte (mem s') pt (pg j + of_nat i) = ubyte (mem s) pt (pg j + of_nat i)"
proof -
  note U = unsharedD[OF u] and S = space_okD[OF ok] and P = unshared_pages[OF u]
  have old: "user_page (mem s) pt (pg j) \<noteq> pa" "user_page (mem s) pt (pg j) \<noteq> p" "held s' (user_page (mem s) pt (pg j))"
    if "j < 2 ^ 26" "j \<noteq> k" "user_page (mem s) pt (pg j) \<noteq> 0" for j
    using S(5)[OF that(1) k that(2,3)] pa(1) U(12)[OF S(3)[OF that(1,3)]] by auto
  have pn: "p \<notin> nodes (mem s) pt" using nodes_held[OF S(2)] U(13) by blast
  show "space_ok s' pt"
    unfolding space_ok_def
  proof (intro conjI allI impI U(1,2))
    fix j :: nat assume j: "j < 2 ^ 26" "user_page (mem s') pt (pg j) \<noteq> 0"
    then show "held s' (user_page (mem s') pt (pg j))" "user_page (mem s') pt (pg j) \<notin> nodes (mem s') pt"
      using P[OF j(1)] U(4,14) pn old(3)[OF j(1)] S(4)[OF j(1)] by (auto split: if_splits)
  next
    fix j i :: nat assume "j < 2 ^ 26" "i < 2 ^ 26" "j \<noteq> i" "user_page (mem s') pt (pg j) \<noteq> 0"
    then show "user_page (mem s') pt (pg j) \<noteq> user_page (mem s') pt (pg i)"
      using P[of j] P[of i] S(5)[of j i] old(2)[of j] old(2)[of i] by (auto split: if_splits)
  qed
  assume j: "j < 2 ^ 26" and i: "i < 4096"
  show "ubyte (mem s') pt (pg j + of_nat i) = ubyte (mem s) pt (pg j + of_nat i)"
  proof (cases "j = k")
    case True
    have "p \<noteq> 0" using page_ok_nonzero[OF U(5)] S(1) kmem_inv_ofD(1) by (auto simp: kmem_inv_def)
    then show ?thesis using True pa P[OF j] U(10)[OF i] by (simp add: ubyte_def uaddr_pg[OF i])
  next
    case False
    let ?q = "user_page (mem s) pt (pg j)"
    show ?thesis
    proof (cases "?q = 0")
      case nz: False
      have "PGROUNDDOWN (?q + of_nat i) = ?q" using page_byte[OF held_aligned[OF S(3)[OF j nz]] i] .
      then have "mem s' (?q + of_nat i) = mem s (?q + of_nat i)"
        using U(11)[of "?q + of_nat i"] old(1,2)[OF j False nz] S(4)[OF j nz] by simp
      then show ?thesis using False P[OF j] by (simp add: ubyte_def uaddr_pg[OF i])
    qed (use False P[OF j] in \<open>simp add: ubyte_def uaddr_pg[OF i]\<close>)
  qed
qed

lemma view_frame:
  assumes "\<And>va. entry m' pt va = entry m pt va" "page_aligned (user_page m pt (pg j))" "i < 4096"
    "\<And>x. user_page m pt (pg j) \<noteq> 0 \<Longrightarrow> PGROUNDDOWN x = user_page m pt (pg j) \<Longrightarrow> m' x = m x"
  shows "ubyte m' pt (pg j + of_nat i) = ubyte m pt (pg j + of_nat i)"
  using assms(4)[of "user_page m pt (pg j) + of_nat i"] page_byte[OF assms(2,3)] user_page_cong[OF assms(1)]
  by (simp add: ubyte_def uaddr_pg[OF assms(3)])

lemma user_page_aligned: "(user_page m pt va \<noteq> 0 \<Longrightarrow> held s (user_page m pt va)) \<Longrightarrow> page_aligned (user_page m pt va)"
  using held_aligned[of s "user_page m pt va"] by (cases "user_page m pt va = 0") (simp_all add: page_aligned_unat)

lemma unshared_apart:
  assumes u: "unshared s s' pt k pa p" and ok: "space_ok s pt" and k: "k < 2 ^ 26" and pa: "user_page (mem s) pt (pg k) = pa" "pa \<noteq> 0"
    and ap: "apart s pt other"
  shows "apart s' pt other" "j < 2 ^ 26 \<Longrightarrow> i < 4096 \<Longrightarrow> ubyte (mem s') other (pg j + of_nat i) = ubyte (mem s) other (pg j + of_nat i)"
    "j < 2 ^ 26 \<Longrightarrow> user_page (mem s') other (pg j) \<noteq> p"
proof -
  note U = unsharedD[OF u] and S = space_okD[OF ok] and P = unshared_pages[OF u] and A = apartD[OF ap]
  have tn: "held s a" "a \<noteq> pa" "a \<noteq> p" "a \<notin> nodes (mem s) pt" if "a \<in> nodes (mem s) other" for a
    using nodes_held[OF A(1) that] A(3)[OF k] pa(1) U(13) A(2) that by auto
  have rc: "0 < refcount s' a" if "a \<in> nodes (mem s) other" for a
    using U(12)[of a] tn(1,2)[OF that] by (auto simp: held_def)
  have bytes: "mem s' x = mem s x" if "PGROUNDDOWN x \<in> nodes (mem s) other" for x
    using U(11)[of x] tn(2-4)[OF that] by blast
  note F = pt_ok_frame[OF A(1) U(3) rc bytes]
  have n: "nodes (mem s') other = nodes (mem s) other" using F(2) by (auto simp: nodes_def)
  have up: "user_page (mem s') other va = user_page (mem s) other va" for va using user_page_cong[OF F(3)] by simp
  have q: "held s' (user_page (mem s) other (pg j))" "user_page (mem s) other (pg j) \<noteq> p"
    "user_page (mem s) other (pg j) = pa \<Longrightarrow> 1 < refcount s pa"
    if "j < 2 ^ 26" "user_page (mem s) other (pg j) \<noteq> 0" for j
  proof -
    show sh: "user_page (mem s) other (pg j) = pa \<Longrightarrow> 1 < refcount s pa" using A(6)[OF k that(1)] pa by auto
    then have "user_page (mem s) other (pg j) \<noteq> pa \<or> 1 < refcount s (user_page (mem s) other (pg j))" by auto
    then show "held s' (user_page (mem s) other (pg j))" "user_page (mem s) other (pg j) \<noteq> p"
      using U(12)[OF A(4)[OF that]] by blast+
  qed
  have pnz: "p \<noteq> 0" using page_ok_nonzero[OF U(5)] S(1) kmem_inv_ofD(1) by (auto simp: kmem_inv_def)
  show "j < 2 ^ 26 \<Longrightarrow> user_page (mem s') other (pg j) \<noteq> p" for j using q(2)[of j] up pnz by auto
  show "j < 2 ^ 26 \<Longrightarrow> i < 4096 \<Longrightarrow> ubyte (mem s') other (pg j + of_nat i) = ubyte (mem s) other (pg j + of_nat i)"
  proof (rule view_frame[OF F(3)])
    assume j: "j < 2 ^ 26"
    show "page_aligned (user_page (mem s) other (pg j))" by (rule user_page_aligned[OF A(4)[OF j]])
    fix x assume "user_page (mem s) other (pg j) \<noteq> 0" "PGROUNDDOWN x = user_page (mem s) other (pg j)"
    then show "mem s' x = mem s x" using U(11)[of x] q(2,3)[OF j] A(5)[OF j] by simp
  qed
  show "apart s' pt other"
    unfolding apart_def n U(4) up
  proof (intro conjI allI impI A(2) F(1))
    fix j :: nat assume j: "j < 2 ^ 26"
    show "user_page (mem s') pt (pg j) \<notin> nodes (mem s) other" using P[OF j] A(3)[OF j] tn(3) by auto
    show "user_page (mem s) other (pg j) \<noteq> 0 \<Longrightarrow> held s' (user_page (mem s) other (pg j))" using q(1)[OF j] .
    show "user_page (mem s) other (pg j) \<noteq> 0 \<Longrightarrow> user_page (mem s) other (pg j) \<notin> nodes (mem s) pt" using A(5)[OF j] .
    fix i :: nat assume i: "i < 2 ^ 26" and nz: "user_page (mem s') pt (pg j) \<noteq> 0" "user_page (mem s') pt (pg j) = user_page (mem s) other (pg i)"
    have jk: "j \<noteq> k" using q(2)[OF i] P[OF j] nz by auto
    then have old: "user_page (mem s) pt (pg j) \<noteq> 0" "user_page (mem s) pt (pg j) = user_page (mem s) other (pg i)"
      using P[OF j] nz by simp_all
    have "user_page (mem s) pt (pg j) \<noteq> pa" using S(5)[OF j k jk old(1)] pa(1) by simp
    then have "refcount s' (user_page (mem s) pt (pg j)) = refcount s (user_page (mem s) pt (pg j))"
      using U(9)[OF held_aligned[OF S(3)[OF j old(1)]]] q(2)[OF i] old by auto
    then show "entry (mem s') pt (pg j) AND PTE_C \<noteq> 0" "1 < refcount s' (user_page (mem s') pt (pg j))"
      using A(6)[OF j i old] U(8)[OF j jk] P[OF j] jk by simp_all
  qed
qed

section \<open>Writing to a page of the process\<close>

lemma in_range_shift:
  assumes "i < 4096" "off + n \<le> 4096"
  shows "in_range (p + of_nat off) n (p + of_nat i) \<longleftrightarrow> off \<le> i \<and> i < off + n"
    "off \<le> i \<Longrightarrow> unat (p + of_nat i - (p + of_nat off)) = i - off"
proof -
  have d: "p + of_nat i - (p + of_nat off) = (of_nat i - of_nat off :: u64)" by simp
  have u: "unat (of_nat i - of_nat off :: u64) = (if off \<le> i then i - off else 2 ^ 64 - (off - i))"
  proof -
    have v: "unat (of_nat i :: u64) = i" "unat (of_nat off :: u64) = off" using assms by (simp_all add: unat_of_nat)
    show ?thesis
    proof (cases "off \<le> i")
      case True
      then show ?thesis by (simp add: unat_sub word_le_nat_alt v)
    next
      case False
      then have "unat (of_nat i - of_nat off :: u64) = i + 2 ^ 64 - off"
        by (simp add: unat_sub_if_size word_size word_le_nat_alt v)
      then show ?thesis using False by simp
    qed
  qed
  show "off \<le> i \<Longrightarrow> unat (p + of_nat i - (p + of_nat off)) = i - off" unfolding d u by simp
  show "in_range (p + of_nat off) n (p + of_nat i) \<longleftrightarrow> off \<le> i \<and> i < off + n"
    unfolding in_range_def d u using assms by auto
qed

lemma store_in_page:
  assumes p: "page_aligned p" and b: "off + length bs \<le> 4096" and s': "s' = s\<lparr>mem := store_bytes (mem s) (p + of_nat off) bs\<rparr>"
  shows "i < 4096 \<Longrightarrow> mem s' (p + of_nat i) = (if off \<le> i \<and> i < off + length bs then bs ! (i - off) else mem s (p + of_nat i))"
    "PGROUNDDOWN x \<noteq> p \<Longrightarrow> mem s' x = mem s x"
    "held s' q = held s q" "refcount s' q = refcount s q"
proof -
  show "i < 4096 \<Longrightarrow> mem s' (p + of_nat i) = (if off \<le> i \<and> i < off + length bs then bs ! (i - off) else mem s (p + of_nat i))"
    using in_range_shift[OF _ b, of i p] b by (auto simp: s' store_bytes_apply)
  show "held s' q = held s q" "refcount s' q = refcount s q" by (simp_all add: s' held_def page_ok_def refcount_def)
  assume x: "PGROUNDDOWN x \<noteq> p"
  have "\<not> in_range (p + of_nat off) (length bs) x"
  proof
    assume r: "in_range (p + of_nat off) (length bs) x"
    define i where "i = unat (x - (p + of_nat off))"
    have i: "i < length bs" using r by (simp add: in_range_def i_def)
    have "x = p + of_nat (off + i)" by (simp add: i_def)
    then show False using page_byte[OF p, of "off + i"] i b x by simp
  qed
  then show "mem s' x = mem s x" using b by (simp add: s' store_bytes_apply)
qed

lemma store_beside_tables:
  assumes p: "page_aligned p" "off + length bs \<le> 4096" "s' = s\<lparr>mem := store_bytes (mem s) (p + of_nat off) bs\<rparr>"
    and t: "pt_ok s pt" "p \<notin> nodes (mem s) pt"
  shows "pt_ok s' pt" "nodes (mem s') pt = nodes (mem s) pt" "entry (mem s') pt va = entry (mem s) pt va"
proof -
  note W = store_in_page[OF p]
  have rc: "0 < refcount s' a" if "a \<in> nodes (mem s) pt" for a using nodes_held[OF t(1) that] by (simp add: W held_def)
  have bytes: "mem s' x = mem s x" if "PGROUNDDOWN x \<in> nodes (mem s) pt" for x using W(2)[of x] that t(2) by blast
  have ke: "kend s' = kend s" using p(3) by simp
  note F = pt_ok_frame[OF t(1) ke rc bytes]
  show "pt_ok s' pt" "entry (mem s') pt va = entry (mem s) pt va" using F(1,3) by simp_all
  have "is_path q \<Longrightarrow> node (mem s') pt q = node (mem s) pt q" for q using F(2)[of q] by simp
  then show "nodes (mem s') pt = nodes (mem s) pt" by (auto simp: nodes_def)
qed

lemma store_page:
  assumes ok: "space_ok s pt" and k: "k < 2 ^ 26" and p: "user_page (mem s) pt (pg k) = p" "p \<noteq> 0" and b: "off + length bs \<le> 4096"
    and s': "s' = s\<lparr>mem := store_bytes (mem s) (p + of_nat off) bs\<rparr>"
  shows "space_ok s' pt"
    "j < 2 ^ 26 \<Longrightarrow> i < 4096 \<Longrightarrow> ubyte (mem s') pt (pg j + of_nat i) =
      (if j = k \<and> off \<le> i \<and> i < off + length bs then Some (bs ! (i - off)) else ubyte (mem s) pt (pg j + of_nat i))"
    "apart s pt other \<Longrightarrow> (\<And>j. j < 2 ^ 26 \<Longrightarrow> user_page (mem s) other (pg j) \<noteq> p) \<Longrightarrow> apart s' pt other"
    "apart s pt other \<Longrightarrow> (\<And>j. j < 2 ^ 26 \<Longrightarrow> user_page (mem s) other (pg j) \<noteq> p) \<Longrightarrow> j < 2 ^ 26 \<Longrightarrow> i < 4096 \<Longrightarrow>
      ubyte (mem s') other (pg j + of_nat i) = ubyte (mem s) other (pg j + of_nat i)"
proof -
  note S = space_okD[OF ok]
  have ph: "held s p" "p \<notin> nodes (mem s) pt" "page_aligned p" using S(3,4)[OF k] p held_aligned by auto
  note W = store_in_page[OF ph(3) b s'] and F = store_beside_tables[OF ph(3) b s']
  note at = W(1) and out = W(2) and h = W(3,4)
  note Fp = F[OF S(2) ph(2)]
  have up: "user_page (mem s') pt va = user_page (mem s) pt va" for va using user_page_cong[OF Fp(3)] .
  have inv: "kmem_inv s'" unfolding s'
  proof (rule kmem_inv_mem[OF S(1)])
    fix q x assume "refcount s q = 0" "PGROUNDDOWN x = q"
    then have "PGROUNDDOWN x \<noteq> p" using ph(1) by (auto simp: held_def)
    then have "mem s' x = mem s x" by (rule out)
    then show "store_bytes (mem s) (p + of_nat off) bs x = mem s x" by (simp add: s')
  qed
  show "space_ok s' pt" using ok inv unfolding space_ok_def up h Fp(2) using Fp(1) by blast
  show "j < 2 ^ 26 \<Longrightarrow> i < 4096 \<Longrightarrow> ubyte (mem s') pt (pg j + of_nat i) =
      (if j = k \<and> off \<le> i \<and> i < off + length bs then Some (bs ! (i - off)) else ubyte (mem s) pt (pg j + of_nat i))"
  proof -
    assume j: "j < 2 ^ 26" and i: "i < 4096"
    show ?thesis
    proof (cases "j = k")
      case True
      then show ?thesis using p up at[OF i] by (simp add: ubyte_def uaddr_pg[OF i])
    next
      case False
      have "ubyte (mem s') pt (pg j + of_nat i) = ubyte (mem s) pt (pg j + of_nat i)"
        by (rule view_frame[OF Fp(3) _ i])
          (use user_page_aligned[OF S(3)[OF j]] out S(5)[OF j k False] p(1) in auto)
      then show ?thesis using False by simp
    qed
  qed
  assume ap: "apart s pt other" and ne: "\<And>j. j < 2 ^ 26 \<Longrightarrow> user_page (mem s) other (pg j) \<noteq> p"
  note A = apartD[OF ap]
  have po: "p \<notin> nodes (mem s) other" using A(3)[OF k] p(1) by simp
  note Fo = F[OF A(1) po]
  have upo: "user_page (mem s') other va = user_page (mem s) other va" for va using user_page_cong[OF Fo(3)] .
  show "apart s' pt other" using ap unfolding apart_def up upo h Fp(2,3) Fo(2) using Fo(1) by blast
  show "j < 2 ^ 26 \<Longrightarrow> i < 4096 \<Longrightarrow> ubyte (mem s') other (pg j + of_nat i) = ubyte (mem s) other (pg j + of_nat i)"
    by (rule view_frame[OF Fo(3)]) (use user_page_aligned[OF A(4)] out ne in auto)
qed

section \<open>The loop\<close>

lemma copyout_round:
  assumes ok: "space_ok s pt" and k: "k \<le> 2 ^ 26" "off < 4096" and src: "src \<noteq> []"
    and run: "copyout pt (pg k + of_nat off) src s = OK (0, s')"
  defines "n \<equiv> min (4096 - off) (length src)"
  obtains s2 where "k < 2 ^ 26" "copyout pt (pg (Suc k)) (drop n src) s2 = OK (0, s')" "space_ok s2 pt"
    "\<And>j i. j < 2 ^ 26 \<Longrightarrow> i < 4096 \<Longrightarrow> ubyte (mem s2) pt (pg j + of_nat i) =
      (if j = k \<and> off \<le> i \<and> i < off + n then Some (src ! (i - off)) else ubyte (mem s) pt (pg j + of_nat i))"
    "\<And>other. apart s pt other \<Longrightarrow> apart s2 pt other"
    "\<And>other j i. apart s pt other \<Longrightarrow> j < 2 ^ 26 \<Longrightarrow> i < 4096 \<Longrightarrow>
      ubyte (mem s2) other (pg j + of_nat i) = ubyte (mem s) other (pg j + of_nat i)"
proof -
  let ?pa = "user_page (mem s) pt (pg k)"
  have off: "PGROUNDDOWN (pg k + of_nat off) = pg k" "pg k + of_nat off - pg k = of_nat off" using pg_offset[OF k(2)] by auto
  have ch: "chunk (pg k + of_nat off) (length src) = n"
    using k(2) by (simp add: chunk_def off n_def unat_sub word_le_nat_alt unat_of_nat min_def)
  have pa: "?pa \<noteq> 0" using run src by (auto simp: copyout.simps[of pt "pg k + of_nat off"] off(1) walkaddr_user_page)
  have k': "k < 2 ^ 26"
  proof (rule ccontr)
    assume "\<not> k < 2 ^ 26"
    then have "k = 2 ^ 26" using k(1) by simp
    then have "unat (pg k) = 0x4000000000" using unat_pg[of k] by simp
    then have "MAXVA \<le> pg k" by (simp add: word_le_nat_alt)
    then show False using pa by (auto simp: user_page_def Let_def)
  qed
  obtain p s1 where c: "copyout_cow pt (pg k) ?pa s = OK (p, s1)"
    and rest: "copyout pt (pg k + PGSIZE) (drop n src) (s1\<lparr>mem := store_bytes (mem s1) (p + of_nat off) (take n src)\<rparr>) = OK (0, s')"
    using run src pa by (auto simp: copyout.simps[of pt "pg k + of_nat off"] off ch walkaddr_user_page Let_def res_simps)
  note S = space_okD[OF ok]
  note st = copyout_cow_step[OF S(1,2) k' refl pa S(3)[OF k' pa] S(4)[OF k' pa] c]
  have one: "space_ok s1 pt \<and> user_page (mem s1) pt (pg k) = p \<and> p \<noteq> 0
      \<and> (\<forall>j<2 ^ 26. \<forall>i<4096. ubyte (mem s1) pt (pg j + of_nat i) = ubyte (mem s) pt (pg j + of_nat i))
      \<and> (\<forall>other. apart s pt other \<longrightarrow> apart s1 pt other \<and> (\<forall>j<2 ^ 26. user_page (mem s1) other (pg j) \<noteq> p)
          \<and> (\<forall>j<2 ^ 26. \<forall>i<4096. ubyte (mem s1) other (pg j + of_nat i) = ubyte (mem s) other (pg j + of_nat i)))"
  proof (cases "entry (mem s) pt (pg k) AND PTE_C = 0")
    case True
    then have "p = ?pa" "s1 = s" using st by simp_all
    moreover have "user_page (mem s) other (pg j) \<noteq> ?pa" if "apart s pt other" "j < 2 ^ 26" for other j
      using apartD(6)[OF that(1) k' that(2) pa] True by metis
    ultimately show ?thesis using ok pa by simp
  next
    case False
    then have u: "unshared s s1 pt k ?pa p" using st by simp
    have "p \<noteq> 0" using page_ok_nonzero[OF unsharedD(5)[OF u]] S(1) kmem_inv_ofD(1) by (auto simp: kmem_inv_def)
    then show ?thesis
      using unshared_space[OF u ok k' refl pa] unsharedD(7)[OF u] unshared_apart[OF u ok k' refl pa] by blast
  qed
  let ?s2 = "s1\<lparr>mem := store_bytes (mem s1) (p + of_nat off) (take n src)\<rparr>"
  have len: "length (take n src) = n" "off + length (take n src) \<le> 4096" using k(2) by (auto simp: n_def)
  note W = store_page[OF conjunct1[OF one] k' _ _ len(2) refl, of p]
  show thesis
  proof (rule that[OF k'])
    show "copyout pt (pg (Suc k)) (drop n src) ?s2 = OK (0, s')" using rest pg_facts(3)[OF k'] by simp
    show "space_ok ?s2 pt" using W(1) one by blast
    show "ubyte (mem ?s2) pt (pg j + of_nat i) =
      (if j = k \<and> off \<le> i \<and> i < off + n then Some (src ! (i - off)) else ubyte (mem s) pt (pg j + of_nat i))"
      if "j < 2 ^ 26" "i < 4096" for j i
      using W(2)[OF _ _ that] one that unfolding len(1) by auto
    show "apart ?s2 pt other" if "apart s pt other" for other using W(3) one that by blast
    show "ubyte (mem ?s2) other (pg j + of_nat i) = ubyte (mem s) other (pg j + of_nat i)"
      if "apart s pt other" "j < 2 ^ 26" "i < 4096" for other j i
      using W(4)[of other j i] one that by auto
  qed
qed

lemma write_range_cases:
  fixes j k i off n len :: nat
  assumes "i < 4096" "off < 4096" "n = min (4096 - off) len"
  shows "4096 * k + off \<le> 4096 * j + i \<and> 4096 * j + i < 4096 * k + off + len \<longleftrightarrow>
    (j = k \<and> off \<le> i \<and> i < off + n) \<or> (4096 * Suc k \<le> 4096 * j + i \<and> 4096 * j + i < 4096 * Suc k + (len - n))"
proof (cases "j = k")
  case False
  then consider "Suc k \<le> j" | "Suc j \<le> k" by linarith
  then show ?thesis using assms False by cases (auto simp: min_def)
qed (use assms in \<open>auto simp: min_def\<close>)

lemma copyout_loop:
  assumes "space_ok s pt" "k \<le> 2 ^ 26" "off < 4096" "copyout pt (pg k + of_nat off) src s = OK (0, s')"
  shows "space_ok s' pt
    \<and> (\<forall>j<2 ^ 26. \<forall>i<4096. ubyte (mem s') pt (pg j + of_nat i) =
        (if 4096 * k + off \<le> 4096 * j + i \<and> 4096 * j + i < 4096 * k + off + length src
         then Some (src ! (4096 * j + i - (4096 * k + off))) else ubyte (mem s) pt (pg j + of_nat i)))
    \<and> (\<forall>other. apart s pt other \<longrightarrow> apart s' pt other
        \<and> (\<forall>j<2 ^ 26. \<forall>i<4096. ubyte (mem s') other (pg j + of_nat i) = ubyte (mem s) other (pg j + of_nat i)))"
  using assms
proof (induction "length src" arbitrary: src k off s rule: less_induct)
  case less
  show ?case
  proof (cases "src = []")
    case True
    then have "s' = s" using less.prems(4) by (simp add: copyout.simps)
    then show ?thesis using True less.prems(1) by (auto simp: not_less)
  next
    case False
    define n where "n = min (4096 - off) (length src)"
    from copyout_round[OF less.prems(1-3) False less.prems(4), folded n_def] show ?thesis
    proof cases
      case (1 s2)
      have n: "0 < n" "n \<le> length src" using False less.prems(3) by (auto simp: n_def)
      have run: "copyout pt (pg (Suc k) + of_nat 0) (drop n src) s2 = OK (0, s')" using 1(2) by simp
      have ih: "space_ok s' pt"
        "\<And>j i. j < 2 ^ 26 \<Longrightarrow> i < 4096 \<Longrightarrow> ubyte (mem s') pt (pg j + of_nat i) =
          (if 4096 * Suc k \<le> 4096 * j + i \<and> 4096 * j + i < 4096 * Suc k + (length src - n)
           then Some (src ! (n + (4096 * j + i - 4096 * Suc k))) else ubyte (mem s2) pt (pg j + of_nat i))"
        "\<And>other. apart s2 pt other \<Longrightarrow> apart s' pt other
          \<and> (\<forall>j<2 ^ 26. \<forall>i<4096. ubyte (mem s') other (pg j + of_nat i) = ubyte (mem s2) other (pg j + of_nat i))"
        using less.hyps[of "drop n src" s2 "Suc k" 0] 1(1,3) n run by auto
      have "ubyte (mem s') pt (pg j + of_nat i) =
        (if 4096 * k + off \<le> 4096 * j + i \<and> 4096 * j + i < 4096 * k + off + length src
         then Some (src ! (4096 * j + i - (4096 * k + off))) else ubyte (mem s) pt (pg j + of_nat i))"
        if ji: "j < 2 ^ 26" "i < 4096" for j i
      proof -
        let ?A = "j = k \<and> off \<le> i \<and> i < off + n" and ?B = "4096 * Suc k \<le> 4096 * j + i \<and> 4096 * j + i < 4096 * Suc k + (length src - n)"
        have B: "n + (4096 * j + i - 4096 * Suc k) = 4096 * j + i - (4096 * k + off)" if ?B
          using that less.prems(3) by (auto simp: n_def min_def split: if_splits)
        show ?thesis
          unfolding write_range_cases[OF ji(2) less.prems(3) n_def] ih(2)[OF ji] 1(4)[OF ji] using B ji(2) by auto
      qed
      then show ?thesis using ih(1,3) 1(5,6) by metis
    qed
  qed
qed

lemma va_pg: "va = pg (unat va div 4096) + of_nat (unat va mod 4096)"
proof -
  have "pg (unat va div 4096) + of_nat (unat va mod 4096) = of_nat (4096 * (unat va div 4096) + unat va mod 4096)"
    by (simp only: pg_def of_nat_add)
  then show ?thesis by (simp only: mult_div_mod_eq) simp
qed

lemma page_of_va: "va \<le> MAXVA \<Longrightarrow> unat va div 4096 \<le> 2 ^ 26" "va < MAXVA \<Longrightarrow> unat va div 4096 < 2 ^ 26" "unat va mod 4096 < 4096"
  by (simp_all add: word_less_nat_alt word_le_nat_alt)


text \<open>
  Writing to one process's memory leaves the others alone: if the pages it shares with another are
  marked copy-on-write in its page table, no byte the other process sees changes.
\<close>

lemma copyout_isolated:
  assumes "space_ok s pt" "apart s pt other" "dstva \<le> MAXVA" "copyout pt dstva src s = OK (0, s')" "va < MAXVA"
  shows "apart s' pt other \<and> ubyte (mem s') other va = ubyte (mem s) other va"
proof -
  have run: "copyout pt (pg (unat dstva div 4096) + of_nat (unat dstva mod 4096)) src s = OK (0, s')"
    using assms(4) va_pg[of dstva] by simp
  note L = copyout_loop[OF assms(1) page_of_va(1)[OF assms(3)] page_of_va(3) run]
  have "ubyte (mem s') other (pg (unat va div 4096) + of_nat (unat va mod 4096)) =
     ubyte (mem s) other (pg (unat va div 4096) + of_nat (unat va mod 4096))"
    using L assms(2) page_of_va(2)[OF assms(5)] page_of_va(3)[of va] by blast
  then show ?thesis using L assms(2) va_pg[of va] by simp
qed

lemma copyout_within_page:
  assumes ok: "space_ok s pt" and k: "k < 2 ^ 26" and pa: "user_page (mem s) pt (pg k) \<noteq> 0"
    and src: "off < 4096" "off + length src \<le> 4096"
    and mem: "entry (mem s) pt (pg k) AND PTE_C = 0 \<or> (\<exists>q. page_ok s q \<and> refcount s q = 0)"
  shows "\<exists>s'. copyout pt (pg k + of_nat off) src s = OK (0, s')"
proof (cases "src = []")
  case False
  note S = space_okD[OF ok]
  have o: "PGROUNDDOWN (pg k + of_nat off) = pg k" "pg k + of_nat off - pg k = of_nat off" using pg_offset[OF src(1)] by auto
  have ch: "chunk (pg k + of_nat off) (length src) = length src"
    using src by (auto simp: chunk_def o unat_sub word_le_nat_alt unat_of_nat Let_def)
  obtain p s1 where "copyout_cow pt (pg k) (user_page (mem s) pt (pg k)) s = OK (p, s1)"
    using copyout_cow_total[OF S(1,2) k refl pa S(3,4)[OF k pa] mem] by blast
  then show ?thesis using False pa
    by (subst copyout.simps) (simp add: o ch walkaddr_user_page copyout.simps[of _ _ "[]"])
qed (simp add: copyout.simps)

section \<open>After fork\<close>

text \<open>Every page of the parent below \<open>sz\<close> is writable or already copy-on-write.\<close>

definition all_cow :: "'a kmem_scheme \<Rightarrow> u64 \<Rightarrow> u64 \<Rightarrow> bool" where
  "all_cow s pt sz \<longleftrightarrow> (\<forall>j < npages sz. entry (mem s) pt (pg j) AND PTE_W \<noteq> 0 \<or> entry (mem s) pt (pg j) AND PTE_C \<noteq> 0)"

text \<open>An address space of size \<open>sz\<close> that can be copied into the empty one of \<open>new\<close>.\<close>

definition forkable :: "'a kmem_scheme \<Rightarrow> u64 \<Rightarrow> u64 \<Rightarrow> u64 \<Rightarrow> bool" where
  "forkable s old new sz \<longleftrightarrow> space_ok s old \<and> pt_ok s new \<and> nodes (mem s) old \<inter> nodes (mem s) new = {}
     \<and> npages sz \<le> 2 ^ 26 \<and> (\<forall>j < npages sz. sharable s old new j)
     \<and> (\<forall>j<2 ^ 26. npages sz \<le> j \<longrightarrow> user_page (mem s) old (pg j) = 0)
     \<and> (\<forall>j<2 ^ 26. user_page (mem s) new (pg j) = 0)"

lemma bit_C_child:
  assumes "page_ok s (PTE2PA e)" "e AND PTE_V \<noteq> 0"
  shows "child_of e AND PTE_C = 0 \<longleftrightarrow> cow_entry e AND PTE_C = 0"
    "cow_entry e AND PTE_C \<noteq> 0 \<longleftrightarrow> e AND PTE_W \<noteq> 0 \<or> e AND PTE_C \<noteq> 0"
proof -
  note C = child_entry(2)[OF page_okD[OF assms(1)] page_ok_below[OF assms(1)] assms(2), folded child_of_def]
  have "bit (child_of e) 5 = bit (cow_entry e) 5"
    using arg_cong[OF C, of "\<lambda>f. bit f 5"] by (simp add: bit_PTE_FLAGS)
  then show "child_of e AND PTE_C = 0 \<longleftrightarrow> cow_entry e AND PTE_C = 0"
    using flag_set(4)[of "child_of e"] flag_set(4)[of "cow_entry e"] by argo
  show "cow_entry e AND PTE_C \<noteq> 0 \<longleftrightarrow> e AND PTE_W \<noteq> 0 \<or> e AND PTE_C \<noteq> 0"
    using flag_set(4)[of "cow_entry e"] flag_set(1,4)[of e] bit_cow_entry[of 5 e] by auto
qed

lemma forked_pages:
  assumes f: "forkable s old new sz" and run: "uvmcopy old new sz s = OK (0, s')"
  shows "shared {0..<npages sz} old new s s'"
    "j < 2 ^ 26 \<Longrightarrow> user_page (mem s') old (pg j) = user_page (mem s) old (pg j)"
    "j < 2 ^ 26 \<Longrightarrow> user_page (mem s') new (pg j) = user_page (mem s) old (pg j)"
    "j < npages sz \<Longrightarrow> entry (mem s') new (pg j) = child_of (entry (mem s) old (pg j))"
    "j < npages sz \<Longrightarrow> entry (mem s) old (pg j) AND PTE_V \<noteq> 0"
proof -
  have F: "kmem_inv s" "pt_ok s old" "pt_ok s new" "nodes (mem s) old \<inter> nodes (mem s) new = {}" "npages sz \<le> 2 ^ 26"
    "\<forall>j. 0 \<le> j \<longrightarrow> j < npages sz \<longrightarrow> sharable s old new j"
    using f space_okD(1,2) unfolding forkable_def by blast+
  have "uvmcopy_loop old new (pg 0) sz s = OK (0, s')" using run by (simp add: uvmcopy_def pg_def)
  then have sh: "shared {0..<npages sz} old new s s'" and v: "\<And>j. j < npages sz \<Longrightarrow> entry (mem s) old (pg j) AND PTE_V \<noteq> 0"
    using uvmcopy_loop_shared[OF F(1-4) _ F(5,6)] by blast+
  show "shared {0..<npages sz} old new s s'" by (rule sh)
  show "j < npages sz \<Longrightarrow> entry (mem s) old (pg j) AND PTE_V \<noteq> 0" for j by (rule v)
  show ch: "j < npages sz \<Longrightarrow> entry (mem s') new (pg j) = child_of (entry (mem s) old (pg j))" for j
    using sharedD(7)[OF sh, of j] F(5) by simp
  have "user_page (mem s') old (pg j) = user_page (mem s) old (pg j) \<and> user_page (mem s') new (pg j) = user_page (mem s) old (pg j)"
    if j: "j < 2 ^ 26" for j
  proof (cases "j < npages sz")
    case True
    let ?e = "entry (mem s) old (pg j)"
    have pok: "page_ok s (PTE2PA ?e)" using F(6) True by (auto simp: sharable_def held_def)
    then show ?thesis
      using ch[OF True] sharedD(6)[OF sh j] child_of_facts[OF pok v[OF True]] v[OF True] cow_entry_flags[of ?e] True
      by (simp add: user_page_def PTE2PA_cow_entry)
  next
    case False
    then have "user_page (mem s) old (pg j) = 0" "user_page (mem s) new (pg j) = 0" using f j by (auto simp: forkable_def)
    then show ?thesis
      using False sharedD(6,7)[OF sh j] user_page_cong[of "mem s'" old "pg j" "mem s" old] user_page_cong[of "mem s'" new "pg j" "mem s" new]
      by simp
  qed
  then show "j < 2 ^ 26 \<Longrightarrow> user_page (mem s') old (pg j) = user_page (mem s) old (pg j)"
    "j < 2 ^ 26 \<Longrightarrow> user_page (mem s') new (pg j) = user_page (mem s) old (pg j)" for j by blast+
qed

lemma forked_child_page:
  assumes f: "forkable s old new sz" and run: "uvmcopy old new sz s = OK (0, s')" and j: "j < 2 ^ 26"
    and nz: "user_page (mem s) old (pg j) \<noteq> 0"
  shows "j < npages sz" "held s (user_page (mem s) old (pg j))" "held s' (user_page (mem s) old (pg j))"
    "user_page (mem s) old (pg j) \<notin> nodes (mem s') old \<union> nodes (mem s') new"
    "1 < refcount s' (user_page (mem s) old (pg j))"
    "PTE2PA (entry (mem s) old (pg j)) = user_page (mem s) old (pg j)"
proof -
  note P = forked_pages[OF f run]
  let ?q = "user_page (mem s) old (pg j)"
  show jn: "j < npages sz" using f j nz by (auto simp: forkable_def not_less[symmetric])
  show pq: "PTE2PA (entry (mem s) old (pg j)) = ?q" using nz by (auto simp: user_page_def Let_def split: if_splits)
  have sh: "sharable s old new j" using f jn by (auto simp: forkable_def)
  then show h: "held s ?q" using pq by (auto simp: sharable_def)
  then show "held s' ?q" by (rule sharedD(11)[OF P(1)])
  show "?q \<notin> nodes (mem s') old \<union> nodes (mem s') new" using sharedD(10)[OF P(1) h] sh pq by (auto simp: sharable_def)
  have "{i \<in> {0..<npages sz}. PTE2PA (entry (mem s) old (pg i)) = ?q} \<noteq> {}" using jn pq by auto
  then have "0 < card {i \<in> {0..<npages sz}. PTE2PA (entry (mem s) old (pg i)) = ?q}" by (simp add: card_gt_0_iff)
  moreover have "refcount s' ?q = refcount s ?q + int (card {i \<in> {0..<npages sz}. PTE2PA (entry (mem s) old (pg i)) = ?q})"
    by (rule sharedD(8)[OF P(1) h])
  moreover have "0 < refcount s ?q" using h by (simp add: held_def)
  ultimately show "1 < refcount s' ?q" by linarith
qed

lemma forked_spaces:
  assumes f: "forkable s old new sz" and run: "uvmcopy old new sz s = OK (0, s')"
  shows "space_ok s' new" "all_cow s old sz \<Longrightarrow> apart s' new old"
proof -
  note P = forked_pages[OF f run] and Q = forked_child_page[OF f run] and H = sharedD[OF forked_pages(1)[OF f run]]
  have so: "space_ok s old" using f by (simp add: forkable_def)
  show "space_ok s' new"
    unfolding space_ok_def
  proof (intro conjI allI impI H(1,3))
    fix j :: nat assume j: "j < 2 ^ 26" "user_page (mem s') new (pg j) \<noteq> 0"
    then show "held s' (user_page (mem s') new (pg j))" "user_page (mem s') new (pg j) \<notin> nodes (mem s') new"
      using P(3)[OF j(1)] Q(3,4)[OF j(1)] by auto
  next
    fix j k :: nat assume "j < 2 ^ 26" "k < 2 ^ 26" "j \<noteq> k" "user_page (mem s') new (pg j) \<noteq> 0"
    then show "user_page (mem s') new (pg j) \<noteq> user_page (mem s') new (pg k)"
      using P(3) space_okD(5)[OF so, of j k] by simp
  qed
  assume cow: "all_cow s old sz"
  show "apart s' new old"
    unfolding apart_def
  proof (intro conjI allI impI H(2))
    show "nodes (mem s') old \<inter> nodes (mem s') new = {}" by (rule H(4))
    fix j :: nat assume j: "j < 2 ^ 26"
    have znot: "0 \<notin> nodes (mem s') old"
      using nodes_held[OF H(2)] held_nonzero[OF H(1)] by (auto simp: held_def)
    show "user_page (mem s') new (pg j) \<notin> nodes (mem s') old"
      using P(3)[OF j] Q(4)[OF j] znot by (cases "user_page (mem s) old (pg j) = 0") auto
    show "user_page (mem s') old (pg j) \<noteq> 0 \<Longrightarrow> held s' (user_page (mem s') old (pg j))"
      "user_page (mem s') old (pg j) \<noteq> 0 \<Longrightarrow> user_page (mem s') old (pg j) \<notin> nodes (mem s') new"
      using P(2)[OF j] Q(3,4)[OF j] by auto
    assume nz: "user_page (mem s') new (pg j) \<noteq> 0"
    then have nz': "user_page (mem s) old (pg j) \<noteq> 0" using P(3)[OF j] by simp
    show "1 < refcount s' (user_page (mem s') new (pg j))" using Q(5)[OF j nz'] P(3)[OF j] by simp
    have pok: "page_ok s (PTE2PA (entry (mem s) old (pg j)))" using Q(2,6)[OF j nz'] by (simp add: held_def)
    show "entry (mem s') new (pg j) AND PTE_C \<noteq> 0"
      using bit_C_child[OF pok P(5)[OF Q(1)[OF j nz']]] P(4)[OF Q(1)[OF j nz']] cow Q(1)[OF j nz'] by (auto simp: all_cow_def)
  qed
qed

lemma forked_parent_view:
  assumes f: "forkable s old new sz" and run: "uvmcopy old new sz s = OK (0, s')" and va: "va < MAXVA"
  shows "ubyte (mem s') old va = ubyte (mem s) old va" "ubyte (mem s') new va = ubyte (mem s) old va"
proof -
  note P = forked_pages[OF f run] and Q = forked_child_page[OF f run]
  let ?j = "unat va div 4096" and ?i = "unat va mod 4096"
  let ?q = "user_page (mem s) old (pg ?j)"
  note j = page_of_va(2)[OF va] and i = page_of_va(3)[of va]
  have same: "mem s' (?q + of_nat ?i) = mem s (?q + of_nat ?i)" if nz: "?q \<noteq> 0"
  proof (rule sharedD(9)[OF P(1) Q(2)[OF j nz]])
    show "?q \<notin> nodes (mem s) old \<union> nodes (mem s) new" using f Q(1,6)[OF j nz] by (auto simp: forkable_def sharable_def)
    show "PGROUNDDOWN (?q + of_nat ?i) = ?q" by (rule page_byte[OF held_aligned[OF Q(2)[OF j nz]] i])
  qed
  have "ubyte (mem s') old (pg ?j + of_nat ?i) = ubyte (mem s) old (pg ?j + of_nat ?i)"
    "ubyte (mem s') new (pg ?j + of_nat ?i) = ubyte (mem s) old (pg ?j + of_nat ?i)"
    using same P(2,3)[OF j] by (simp_all add: ubyte_def uaddr_pg[OF i])
  then show "ubyte (mem s') old va = ubyte (mem s) old va" "ubyte (mem s') new va = ubyte (mem s) old va"
    using va_pg[of va] by simp_all
qed


text \<open>
  C22 (read-only pages are shared without protection). A page that the parent may read but not write,
  such as its program text, is shared by \<^verbatim>\<open>fork\<close> without the copy-on-write mark.  Since
  \<^verbatim>\<open>copyout\<close> does not ask for write permission, one byte written to the child at such an
  address, for example by \<^verbatim>\<open>read\<close>, shows up in the parent.
\<close>

theorem fork_readonly_leak:
  assumes f: "forkable s old new sz" and run: "uvmcopy old new sz s = OK (0, s')" and va: "va < MAXVA"
    and ro: "user_page (mem s) old (PGROUNDDOWN va) \<noteq> 0" "entry (mem s) old (PGROUNDDOWN va) AND PTE_W = 0"
      "entry (mem s) old (PGROUNDDOWN va) AND PTE_C = 0"
  shows "\<exists>s''. copyout new va [b] s' = OK (0, s'') \<and> ubyte (mem s'') new va = Some b \<and> ubyte (mem s'') old va = Some b"
proof -
  note P = forked_pages[OF f run] and Q = forked_child_page[OF f run]
  let ?j = "unat va div 4096" and ?i = "unat va mod 4096"
  let ?q = "user_page (mem s) old (pg ?j)" and ?e = "entry (mem s) old (pg ?j)"
  note j = page_of_va(2)[OF va] and i = page_of_va(3)[of va]
  have nz: "?q \<noteq> 0" "?e AND PTE_W = 0" "?e AND PTE_C = 0" using ro by (simp_all add: PGROUNDDOWN_pg)
  have qn: "user_page (mem s') new (pg ?j) = ?q" "user_page (mem s') old (pg ?j) = ?q" using P(2,3)[OF j] by simp_all
  have pok: "page_ok s (PTE2PA ?e)" using Q(2,6)[OF j nz(1)] by (simp add: held_def)
  have c: "entry (mem s') new (pg ?j) AND PTE_C = 0"
    using bit_C_child[OF pok P(5)[OF Q(1)[OF j nz(1)]]] P(4)[OF Q(1)[OF j nz(1)]] nz(2,3) by simp
  have ok: "space_ok s' new" by (rule forked_spaces(1)[OF f run])
  have off: "PGROUNDDOWN (pg ?j + of_nat ?i) = pg ?j" "pg ?j + of_nat ?i - pg ?j = of_nat ?i" using pg_offset[OF i] by auto
  have ch: "chunk (pg ?j + of_nat ?i) 1 = 1" using chunk_pos[of 1] chunk_le[of _ 1] by (simp add: le_antisym Suc_leI)
  have cw: "copyout_cow new (pg ?j) ?q s' = OK (?q, s')"
    using copyout_cow_total[OF space_okD(1,2)[OF ok] j qn(1) nz(1) Q(3)[OF j nz(1)]] copyout_cow_step[OF space_okD(1,2)[OF ok] j qn(1) nz(1) Q(3)[OF j nz(1)]]
      Q(4)[OF j nz(1)] c by auto
  let ?s = "s'\<lparr>mem := store_bytes (mem s') (?q + of_nat ?i) [b]\<rparr>"
  have "copyout new (pg ?j + of_nat ?i) [b] s' = OK (0, ?s)"
    using cw nz(1) ch by (simp add: copyout.simps[of new _ "[b]"] copyout.simps[of new _ "[]"] off walkaddr_user_page qn Let_def)
  then have run2: "copyout new va [b] s' = OK (0, ?s)" using va_pg[of va] by simp
  have al: "page_aligned ?q" by (rule held_aligned[OF Q(2)[OF j nz(1)]])
  have fit: "?i + length [b] \<le> 4096" using i by simp
  note F = store_beside_tables[OF al fit refl] and H = sharedD[OF P(1)]
  have "entry (mem ?s) old (pg ?j) = entry (mem s') old (pg ?j)" "entry (mem ?s) new (pg ?j) = entry (mem s') new (pg ?j)"
    using F(3)[OF H(2)] F(3)[OF H(3)] Q(4)[OF j nz(1)] by blast+
  then have "user_page (mem ?s) old (pg ?j) = ?q" "user_page (mem ?s) new (pg ?j) = ?q"
    using user_page_cong qn by metis+
  moreover have "mem ?s (?q + of_nat ?i) = b" using store_in_page(1)[OF al fit refl i] by simp
  ultimately have "ubyte (mem ?s) old (pg ?j + of_nat ?i) = Some b" "ubyte (mem ?s) new (pg ?j + of_nat ?i) = Some b"
    using nz(1) by (simp_all add: ubyte_def uaddr_pg[OF i])
  then show ?thesis using run2 va_pg[of va] by auto
qed

section \<open>Examples\<close>

lemma chain_entry:
  assumes "\<And>i. i < 512 \<Longrightarrow> load64 m (a + 8 * of_nat i) = (if i = 0 then x else 0)"
    "\<And>i. i < 512 \<Longrightarrow> load64 m (PTE2PA x + 8 * of_nat i) = (if i = 0 then y else 0)"
    "\<And>i. i < 512 \<Longrightarrow> load64 m (PTE2PA y + 8 * of_nat i) = (if i = 0 then z else 0)"
    "x AND PTE_V \<noteq> 0" "y AND PTE_V \<noteq> 0" "\<And>i. i < 512 \<Longrightarrow> PTE2PA y + 8 * of_nat i \<noteq> 0"
  shows "entry m a va = (if same_page 0 va then z else 0)"
proof -
  have n: "node m a (vpath va) = (if vpath va = [0, 0] then Some (PTE2PA y) else None)"
    using chain_node[OF assms(1,2,4,5) is_path_vpath(1)[of va]] by (simp add: vpath_def)
  have v: "vpath va = [0, 0] \<longleftrightarrow> PX 1 va = 0 \<and> PX 2 va = 0" by (auto simp: vpath_def unat_eq_zero)
  have "PX l 0 = 0" for l by (simp add: PX_def)
  then have sp: "same_page 0 va \<longleftrightarrow> vpath va = [0, 0] \<and> unat (PX 0 va) = 0" by (auto simp: same_page_def v unat_eq_zero)
  show ?thesis
  proof (cases "vpath va = [0, 0]")
    case True
    define w where "w = PTE2PA y + 8 * of_nat (unat (PX 0 va))"
    have "lookup m a va = w" using n True by (simp only: lookup_node pte_at_nat w_def) simp
    moreover have "w \<noteq> 0" "load64 m w = (if unat (PX 0 va) = 0 then z else 0)"
      unfolding w_def by (rule assms(6)[OF PX_less], rule assms(3)[OF PX_less])
    ultimately show ?thesis using True by (simp add: entry_def sp)
  qed (simp add: entry_def lookup_node n sp)
qed

lemma two_spaces_entries:
  "j < 2 ^ 26 \<Longrightarrow> entry (two_spaces_mem f) 0x87FF0000 (pg j) = (if j = 0 then 0x21FFCC00 OR f else 0)"
  "j < 2 ^ 26 \<Longrightarrow> entry (two_spaces_mem f) 0x87FF4000 (pg j) = 0"
proof -
  have pa: "PTE2PA 0x21FFC401 = 0x87FF1000" "PTE2PA 0x21FFC801 = 0x87FF2000" "PTE2PA 0x21FFD401 = 0x87FF5000" "PTE2PA 0x21FFD801 = 0x87FF6000"
    by (simp_all add: PTE2PA_def)
  note ld = two_spaces_mem_def load_first_store page_aligned_unat load64_zero
  have nz: "(t :: u64) + 8 * of_nat i \<noteq> 0" if "t = 0x87FF2000 \<or> t = 0x87FF6000" "i < 512" for t i
  proof -
    have "page_aligned t" using that(1) by (auto simp: page_aligned_unat)
    then have "PGROUNDDOWN (t + 8 * of_nat i) = t" using page_byte[of t "8 * i"] that(2) by simp
    then show ?thesis using that(1) by (auto simp: PGROUNDDOWN_def)
  qed
  have e: "entry (two_spaces_mem f) 0x87FF0000 va = (if same_page 0 va then 0x21FFCC00 OR f else 0)"
    "entry (two_spaces_mem f) 0x87FF4000 va = (if same_page 0 va then 0 else 0)" for va
    by (rule chain_entry[where x = "0x21FFC401" and y = "0x21FFC801"]; simp add: pa ld nz)
      (rule chain_entry[where x = "0x21FFD401" and y = "0x21FFD801"]; simp add: pa ld nz)
  have "same_page 0 (pg j) \<longleftrightarrow> j = 0" if "j < 2 ^ 26" for j using same_page_pg[of 0 j] that by (simp add: pg_def)
  then show "j < 2 ^ 26 \<Longrightarrow> entry (two_spaces_mem f) 0x87FF0000 (pg j) = (if j = 0 then 0x21FFCC00 OR f else 0)"
    "j < 2 ^ 26 \<Longrightarrow> entry (two_spaces_mem f) 0x87FF4000 (pg j) = 0"
    using e by simp_all
qed

lemma two_spaces_forkable:
  assumes "f = 0x17 \<or> f = 0x33 \<or> f = 0x1B"
  shows "forkable (two_spaces f s) 0x87FF0000 0x87FF4000 PGSIZE"
    "j < 2 ^ 26 \<Longrightarrow> user_page (two_spaces_mem f) 0x87FF0000 (pg j) = (if j = 0 then 0x87FF3000 else 0)"
    "space_ok (two_spaces f s) 0x87FF0000"
proof -
  have m: "mem (two_spaces f s) = two_spaces_mem f" by (simp add: two_spaces_def)
  have n: "npages PGSIZE = 1" "pg 0 = 0" by (simp_all add: npages_def pg_def)
  have z: "PTE2PA (0x21FFCC00 OR f) = 0x87FF3000" "(0x21FFCC00 OR f) AND PTE_V \<noteq> 0" "(0x21FFCC00 OR f) AND PTE_U \<noteq> 0"
    using assms by (auto simp: PTE2PA_def)
  show up: "j < 2 ^ 26 \<Longrightarrow> user_page (two_spaces_mem f) 0x87FF0000 (pg j) = (if j = 0 then 0x87FF3000 else 0)" for j
    using z by (simp add: user_page_def two_spaces_entries n)
  have h: "held (two_spaces f s) 0x87FF3000" by (simp add: two_spaces_held page_aligned_unat)
  show "space_ok (two_spaces f s) 0x87FF0000"
    unfolding space_ok_def m using two_spaces_inv two_spaces_trees(1)[of f s] by (auto simp: up h two_spaces_trees(2))
  moreover note this
  moreover have "sharable (two_spaces f s) 0x87FF0000 0x87FF4000 0"
    using h z(1) by (simp add: sharable_def m two_spaces_trees two_spaces_entry n)
  moreover have "user_page (two_spaces_mem f) 0x87FF4000 (pg j) = 0" if "j < 2 ^ 26" for j
    using that by (simp add: user_page_def two_spaces_entries)
  ultimately show "forkable (two_spaces f s) 0x87FF0000 0x87FF4000 PGSIZE"
    unfolding forkable_def m using two_spaces_trees(3)[of f s] by (simp add: two_spaces_trees n up)
qed

lemma two_spaces_copyout:
  assumes "f = 0x17 \<or> f = 0x33 \<or> f = 0x1B" "off < 4096" "off + length src \<le> 4096"
  shows "\<exists>s'. copyout 0x87FF0000 (of_nat off) src (two_spaces f s) = OK (0, s')"
proof -
  have m: "mem (two_spaces f s) = two_spaces_mem f" by (simp add: two_spaces_def)
  have "page_ok (two_spaces f s) 0x87FF7000" "refcount (two_spaces f s) 0x87FF7000 = 0"
    by (simp_all add: page_ok_def two_spaces_def refcount_def page_aligned_unat)
  moreover have "space_ok (two_spaces f s) 0x87FF0000" by (rule two_spaces_forkable(3)[OF assms(1)])
  moreover have "user_page (mem (two_spaces f s)) 0x87FF0000 (pg 0) \<noteq> 0" using two_spaces_forkable(2)[OF assms(1), of 0] by (simp add: m)
  ultimately show ?thesis
    using copyout_within_page[of "two_spaces f s" "0x87FF0000" 0 off src] assms(2,3) by (auto simp: pg_def)
qed



theorem fork_readonly_leak_witness:
  "\<exists>s''. copyout 0x87FF4000 7 [0x42] (two_spaces_copy 0x1B one_page) = OK (0, s'') \<and> ubyte (mem s'') 0x87FF0000 7 = Some 0x42"
proof -
  let ?s = "two_spaces 0x1B one_page"
  have m: "mem ?s = two_spaces_mem 0x1B" by (simp add: two_spaces_def)
  have d: "PGROUNDDOWN 7 = pg 0" by (simp add: PGROUNDDOWN_def pg_def)
  have f: "forkable ?s 0x87FF0000 0x87FF4000 PGSIZE" by (rule two_spaces_forkable(1)) simp
  have run: "uvmcopy 0x87FF0000 0x87FF4000 PGSIZE ?s = OK (0, two_spaces_copy 0x1B one_page)" by (rule two_spaces_copied) simp
  have "user_page (mem ?s) 0x87FF0000 (PGROUNDDOWN 7) \<noteq> 0" "entry (mem ?s) 0x87FF0000 (PGROUNDDOWN 7) AND PTE_W = 0"
    "entry (mem ?s) 0x87FF0000 (PGROUNDDOWN 7) AND PTE_C = 0"
    unfolding d m using two_spaces_forkable(2)[of "0x1B" 0] by (simp_all add: two_spaces_entries)
  then show ?thesis using fork_readonly_leak[OF f run, of 7 "0x42"] by auto
qed

end
