(* ===== verification/Cache.thy ===== *)
theory Cache
  imports Log
begin

text \<open>
  What the buffer cache promises to the code above it: seen through \<^verbatim>\<open>bread\<close>, a device is a map from
  block numbers to blocks.
\<close>

section \<open>Waking up leaves the file system alone\<close>

lemma make_runnable_fs [simp]:
  "bufs (make_runnable i s) = bufs s" "lru (make_runnable i s) = lru s" "disk (make_runnable i s) = disk s"
  "dhist (make_runnable i s) = dhist s"
  by (simp_all add: make_runnable_def upd_proc_def Let_def)

lemma make_runnable_log [simp]:
  "log_start (make_runnable i s) = log_start s" "log_size (make_runnable i s) = log_size s"
  "outstanding (make_runnable i s) = outstanding s" "committing (make_runnable i s) = committing s"
  "log_dev (make_runnable i s) = log_dev s" "lh_n (make_runnable i s) = lh_n s" "lh_block (make_runnable i s) = lh_block s"
  by (simp_all add: make_runnable_def upd_proc_def Let_def)

lemma wakeup_fs [simp]:
  "bufs (wakeup c ch s) = bufs s" "lru (wakeup c ch s) = lru s" "disk (wakeup c ch s) = disk s" "dhist (wakeup c ch s) = dhist s"
proof -
  have "bufs (wakeup_loop is c ch s) = bufs s \<and> lru (wakeup_loop is c ch s) = lru s \<and> disk (wakeup_loop is c ch s) = disk s
    \<and> dhist (wakeup_loop is c ch s) = dhist s" for "is"
    by (induction "is" arbitrary: s) auto
  then show "bufs (wakeup c ch s) = bufs s" "lru (wakeup c ch s) = lru s" "disk (wakeup c ch s) = disk s" "dhist (wakeup c ch s) = dhist s"
    by (simp_all add: wakeup_def)
qed

lemma wakeup_log [simp]:
  "log_start (wakeup c ch s) = log_start s" "log_size (wakeup c ch s) = log_size s"
  "outstanding (wakeup c ch s) = outstanding s" "committing (wakeup c ch s) = committing s"
  "log_dev (wakeup c ch s) = log_dev s" "lh_n (wakeup c ch s) = lh_n s" "lh_block (wakeup c ch s) = lh_block s"
proof -
  have "log_start (wakeup_loop is c ch s) = log_start s \<and> log_size (wakeup_loop is c ch s) = log_size s
    \<and> outstanding (wakeup_loop is c ch s) = outstanding s \<and> committing (wakeup_loop is c ch s) = committing s
    \<and> log_dev (wakeup_loop is c ch s) = log_dev s \<and> lh_n (wakeup_loop is c ch s) = lh_n s
    \<and> lh_block (wakeup_loop is c ch s) = lh_block s" for "is"
    by (induction "is" arbitrary: s) auto
  then show "log_start (wakeup c ch s) = log_start s" "log_size (wakeup c ch s) = log_size s"
    "outstanding (wakeup c ch s) = outstanding s" "committing (wakeup c ch s) = committing s"
    "log_dev (wakeup c ch s) = log_dev s" "lh_n (wakeup c ch s) = lh_n s" "lh_block (wakeup c ch s) = lh_block s"
    by (simp_all add: wakeup_def)
qed

lemma wakeup_cur [simp]: "procs (wakeup (Some cur) ch s) ! cur = procs s ! cur"
proof -
  have "procs (wakeup_loop is (Some cur) ch s) ! cur = procs s ! cur" for "is"
    by (induction "is" arbitrary: s) (auto simp: make_runnable_def upd_proc_def Let_def)
  then show ?thesis by (simp add: wakeup_def)
qed

section \<open>Invariant and view\<close>

text \<open>
  The invariant of the cache for device \<open>dev\<close> while process \<open>cur\<close> holds the buffers in \<open>L\<close> and all others are
  unlocked: every buffer is on the list once, a block is in at most one buffer, and a buffer
  nobody refers to agrees with the disk.
\<close>

definition cache_inv :: "u32 \<Rightarrow> nat set \<Rightarrow> nat \<Rightarrow> 'a bcache_scheme \<Rightarrow> bool" where
  "cache_inv dev L cur s \<longleftrightarrow>
     length (bufs s) = NBUF \<and> distinct (lru s) \<and> set (lru s) = {..<NBUF} \<and> L \<subseteq> {..<NBUF}
     \<and> (\<forall>i<NBUF. \<forall>j<NBUF. bdev (bufs s ! i) = dev \<longrightarrow> bdev (bufs s ! j) = dev \<longrightarrow> blockno (bufs s ! i) = blockno (bufs s ! j) \<longrightarrow> i = j)
     \<and> (\<forall>i<NBUF. 0 \<le> refcnt (bufs s ! i) \<and> refcnt (bufs s ! i) < 2 ^ 31)
     \<and> (\<forall>i<NBUF. bdev (bufs s ! i) = dev \<longrightarrow> valid (bufs s ! i) \<longrightarrow> refcnt (bufs s ! i) = 0 \<longrightarrow>
          bdata (bufs s ! i) = disk s (blockno (bufs s ! i)))
     \<and> (\<forall>i \<in> L. valid (bufs s ! i) \<and> bdev (bufs s ! i) = dev \<and> 0 < refcnt (bufs s ! i) \<and> holdingsleep cur (block (bufs s ! i)) s)
     \<and> (\<forall>i<NBUF. i \<notin> L \<longrightarrow> slocked (block (bufs s ! i)) = 0)"

definition cached :: "u32 \<Rightarrow> 'a bcache_scheme \<Rightarrow> u32 \<Rightarrow> nat \<Rightarrow> bool" where
  "cached dev s b i \<longleftrightarrow> i < NBUF \<and> bdev (bufs s ! i) = dev \<and> blockno (bufs s ! i) = b"

text \<open>The contents of block \<open>b\<close> as a reader of the cache sees it.\<close>

definition bview :: "u32 \<Rightarrow> 'a bcache_scheme \<Rightarrow> u32 \<Rightarrow> u8 list" where
  "bview dev s b =
     (case find (\<lambda>i. bdev (bufs s ! i) = dev \<and> blockno (bufs s ! i) = b \<and> valid (bufs s ! i)) [0..<NBUF] of
        Some i \<Rightarrow> bdata (bufs s ! i)
      | None \<Rightarrow> disk s b)"

lemma cache_invD:
  assumes "cache_inv dev L cur s"
  shows "length (bufs s) = NBUF" "distinct (lru s)" "set (lru s) = {..<NBUF}" "L \<subseteq> {..<NBUF}"
    "cached dev s b i \<Longrightarrow> cached dev s b j \<Longrightarrow> i = j"
    "i < NBUF \<Longrightarrow> 0 \<le> refcnt (bufs s ! i)" "i < NBUF \<Longrightarrow> refcnt (bufs s ! i) < 2 ^ 31"
    "i < NBUF \<Longrightarrow> bdev (bufs s ! i) = dev \<Longrightarrow> valid (bufs s ! i) \<Longrightarrow> refcnt (bufs s ! i) = 0 \<Longrightarrow>
       bdata (bufs s ! i) = disk s (blockno (bufs s ! i))"
    "i \<in> L \<Longrightarrow> valid (bufs s ! i) \<and> bdev (bufs s ! i) = dev \<and> 0 < refcnt (bufs s ! i) \<and> holdingsleep cur (block (bufs s ! i)) s"
    "i < NBUF \<Longrightarrow> i \<notin> L \<Longrightarrow> slocked (block (bufs s ! i)) = 0"
  using assms unfolding cache_inv_def cached_def by blast+

lemma find_SomeD: "find P xs = Some x \<Longrightarrow> P x \<and> x \<in> set xs"
  by (induction xs) (auto split: if_splits)

lemma bview_cached:
  assumes "cache_inv dev L cur s" "cached dev s b i" "valid (bufs s ! i)"
  shows "bview dev s b = bdata (bufs s ! i)"
proof -
  let ?P = "\<lambda>i. bdev (bufs s ! i) = dev \<and> blockno (bufs s ! i) = b \<and> valid (bufs s ! i)"
  have "find ?P [0..<NBUF] \<noteq> None" using assms(2,3) by (auto simp: find_None_iff cached_def)
  then obtain j where j: "find ?P [0..<NBUF] = Some j" by blast
  then have "?P j" "j < NBUF" by (auto dest: find_SomeD)
  then have "j = i" using cache_invD(5)[OF assms(1)] assms(2) by (auto simp: cached_def)
  then show ?thesis using j by (simp add: bview_def)
qed

lemma bview_uncached:
  assumes "\<And>i. cached dev s b i \<Longrightarrow> \<not> valid (bufs s ! i)"
  shows "bview dev s b = disk s b"
proof -
  have "find (\<lambda>i. bdev (bufs s ! i) = dev \<and> blockno (bufs s ! i) = b \<and> valid (bufs s ! i)) [0..<NBUF] = None"
    using assms by (auto simp: find_None_iff cached_def)
  then show ?thesis by (simp add: bview_def)
qed

section \<open>Reading a block\<close>

text \<open>The state after \<^verbatim>\<open>bread\<close> has chosen buffer \<open>i\<close> for block \<open>b\<close>.\<close>

definition claim_buf :: "nat \<Rightarrow> u32 \<Rightarrow> u32 \<Rightarrow> nat \<Rightarrow> 'a bcache_scheme \<Rightarrow> 'a bcache_scheme" where
  "claim_buf cur dev b i s = s\<lparr>bufs := (bufs s)[i :=
     \<lparr>valid = True, bdev = dev, blockno = b, block = take_sleeplock cur s (block (bufs s ! i)),
      refcnt = (if cached dev s b i then refcnt (bufs s ! i) + 1 else 1), bdata = bview dev s b\<rparr>]\<rparr>"

text \<open>A buffer that may be chosen: the one that holds the block or, if there is none, an unused one.\<close>

definition claimable :: "u32 \<Rightarrow> u32 \<Rightarrow> 'a bcache_scheme \<Rightarrow> nat \<Rightarrow> bool" where
  "claimable dev b s i \<longleftrightarrow> i < NBUF \<and> (cached dev s b i \<or> refcnt (bufs s ! i) = 0 \<and> (\<forall>j. \<not> cached dev s b j))"

lemma claim_inv:
  assumes inv: "cache_inv dev L cur s" and i: "claimable dev b s i" "i \<notin> L" and room: "refcnt (bufs s ! i) < 2 ^ 31 - 1"
  shows "cache_inv dev (insert i L) cur (claim_buf cur dev b i s)" "bview dev (claim_buf cur dev b i s) = bview dev s"
proof -
  let ?s = "claim_buf cur dev b i s"
  note I = cache_invD[OF inv]
  have lt: "i < NBUF" using i(1) by (simp add: claimable_def)
  have other: "bufs ?s ! j = bufs s ! j" if "j \<noteq> i" for j using that by (simp add: claim_buf_def)
  have new: "bdev (bufs ?s ! i) = dev" "blockno (bufs ?s ! i) = b" "valid (bufs ?s ! i)" "bdata (bufs ?s ! i) = bview dev s b"
    "refcnt (bufs ?s ! i) = (if cached dev s b i then refcnt (bufs s ! i) + 1 else 1)" "holdingsleep cur (block (bufs ?s ! i)) ?s"
    using lt I(1) by (simp_all add: claim_buf_def holdingsleep_def take_sleeplock_def)
  have same: "disk ?s = disk s" "lru ?s = lru s" "length (bufs ?s) = length (bufs s)" "procs ?s = procs s" by (simp_all add: claim_buf_def)
  have only: "\<not> cached dev s b j" if "j \<noteq> i" for j
    using i(1) I(5)[of b i j] that by (auto simp: claimable_def)
  have c: "cached dev ?s b' j \<longleftrightarrow> (if j = i then b' = b else cached dev s b' j)" for b' j
    using lt new(1,2) other[of j] by (auto simp: cached_def)
  have pos: "0 < refcnt (bufs ?s ! i)" "refcnt (bufs ?s ! i) < 2 ^ 31" using new(5) I(6)[OF lt] room by auto
  show inv': "cache_inv dev (insert i L) cur ?s"
    unfolding cache_inv_def
  proof (intro conjI)
    show "\<forall>k<NBUF. \<forall>j<NBUF. bdev (bufs ?s ! k) = dev \<longrightarrow> bdev (bufs ?s ! j) = dev \<longrightarrow> blockno (bufs ?s ! k) = blockno (bufs ?s ! j) \<longrightarrow> k = j"
    proof (intro allI impI)
      fix k j assume *: "k < NBUF" "j < NBUF" "bdev (bufs ?s ! k) = dev" "bdev (bufs ?s ! j) = dev" "blockno (bufs ?s ! k) = blockno (bufs ?s ! j)"
      then have "cached dev ?s (blockno (bufs ?s ! k)) k" "cached dev ?s (blockno (bufs ?s ! k)) j" by (auto simp: cached_def)
      then show "k = j" unfolding c using only[of k] only[of j] I(5) by (auto split: if_splits)
    qed
    show "\<forall>k<NBUF. 0 \<le> refcnt (bufs ?s ! k) \<and> refcnt (bufs ?s ! k) < 2 ^ 31"
      using other pos I(6,7) by (metis less_imp_le)
    show "\<forall>k<NBUF. bdev (bufs ?s ! k) = dev \<longrightarrow> valid (bufs ?s ! k) \<longrightarrow> refcnt (bufs ?s ! k) = 0 \<longrightarrow> bdata (bufs ?s ! k) = disk ?s (blockno (bufs ?s ! k))"
      using other pos I(8) same(1) by (metis less_irrefl)
    show "\<forall>k \<in> insert i L. valid (bufs ?s ! k) \<and> bdev (bufs ?s ! k) = dev \<and> 0 < refcnt (bufs ?s ! k) \<and> holdingsleep cur (block (bufs ?s ! k)) ?s"
    proof
      fix k assume "k \<in> insert i L"
      then show "valid (bufs ?s ! k) \<and> bdev (bufs ?s ! k) = dev \<and> 0 < refcnt (bufs ?s ! k) \<and> holdingsleep cur (block (bufs ?s ! k)) ?s"
        using new pos i(2) I(9)[of k] other[of k] same(4) by (cases "k = i") (auto simp: holdingsleep_def)
    qed
    show "\<forall>k<NBUF. k \<notin> insert i L \<longrightarrow> slocked (block (bufs ?s ! k)) = 0" using other I(10) by auto
  qed (use I same lt in auto)
  show "bview dev ?s = bview dev s"
  proof
    fix b'
    show "bview dev ?s b' = bview dev s b'"
    proof (cases "\<exists>j. cached dev ?s b' j \<and> valid (bufs ?s ! j)")
      case True
      then obtain j where j: "cached dev ?s b' j" "valid (bufs ?s ! j)" by blast
      show ?thesis
      proof (cases "j = i")
        case True
        then show ?thesis using bview_cached[OF inv' j] j(1) new(4) unfolding c by simp
      next
        case False
        then show ?thesis using bview_cached[OF inv' j] bview_cached[OF inv, of b' j] j other[OF False] unfolding c by simp
      qed
    next
      case False
      then have u: "bview dev ?s b' = disk s b'" using bview_uncached[of dev ?s b'] same(1) by auto
      have nb: "b' \<noteq> b" using False new c[of b' i] by auto
      show ?thesis
      proof (cases "cached dev s b' i \<and> valid (bufs s ! i)")
        case True
        then have "\<not> cached dev s b i" using nb by (auto simp: cached_def)
        then have "refcnt (bufs s ! i) = 0" using i(1) by (simp add: claimable_def)
        then show ?thesis using u bview_cached[OF inv, of b' i] True I(8)[OF lt] by (auto simp: cached_def)
      next
        case inv2: False
        have "\<not> valid (bufs s ! j)" if "cached dev s b' j" for j
          using that inv2 False c[of b' j] other[of j] by (cases "j = i") auto
        then show ?thesis using u bview_uncached[of dev s b'] by simp
      qed
    qed
  qed
qed

lemma buf_eqI:
  "valid x = valid y \<Longrightarrow> bdev x = bdev y \<Longrightarrow> blockno x = blockno y \<Longrightarrow> block x = block y \<Longrightarrow> refcnt x = refcnt y \<Longrightarrow>
     bdata x = bdata y \<Longrightarrow> (x :: buf) = y"
  by simp

lemma ui32_small: "0 \<le> x \<Longrightarrow> x < 2 ^ 31 \<Longrightarrow> ui32 x = x"
  by (simp add: ui32_def take_bit_int_eq_self)

lemma bread_claims:
  assumes inv: "cache_inv dev L cur s" and room: "\<And>i. i < NBUF \<Longrightarrow> refcnt (bufs s ! i) < 2 ^ 31 - 1"
    and free: "\<And>i. cached dev s b i \<Longrightarrow> i \<notin> L" "(\<exists>i. cached dev s b i) \<or> (\<exists>i<NBUF. refcnt (bufs s ! i) = 0)"
  obtains i where "bread cur dev b s = OK (i, claim_buf cur dev b i s)" "claimable dev b s i" "i \<notin> L"
proof -
  note I = cache_invD[OF inv]
  have read: "(if \<not> valid nb then OK (i, upd_buf i (\<lambda>b. b\<lparr>valid := True\<rparr>) (virtio_disk_rw i False (s\<lparr>bufs := (bufs s)[i := nb]\<rparr>)))
      else OK (i, s\<lparr>bufs := (bufs s)[i := nb]\<rparr>)) = OK (i, claim_buf cur dev b i s)"
    if "i < NBUF" "bdev nb = dev" "blockno nb = b" "block nb = take_sleeplock cur s (block (bufs s ! i))"
      "refcnt nb = (if cached dev s b i then refcnt (bufs s ! i) + 1 else 1)" "valid nb \<Longrightarrow> bdata nb = bview dev s b"
      "\<not> valid nb \<Longrightarrow> bview dev s b = disk s b" for i and nb :: buf
  proof -
    let ?r = "\<lparr>valid = True, bdev = dev, blockno = b, block = take_sleeplock cur s (block (bufs s ! i)),
      refcnt = (if cached dev s b i then refcnt (bufs s ! i) + 1 else 1), bdata = bview dev s b\<rparr>"
    show ?thesis
    proof (cases "valid nb")
      case True
      then have "nb = ?r" using that by (intro buf_eqI) simp_all
      then show ?thesis by (simp add: claim_buf_def)
    next
      case False
      then have "nb\<lparr>bdata := disk s b, valid := True\<rparr> = ?r" using that by (intro buf_eqI) simp_all
      then show ?thesis using False that(1,3) I(1) by (simp add: claim_buf_def upd_buf_def virtio_disk_rw_def)
    qed
  qed
  show thesis
  proof (cases "find (\<lambda>i. bdev (bufs s ! i) = dev \<and> blockno (bufs s ! i) = b) (lru s)")
    case (Some i)
    then have c: "cached dev s b i" using find_SomeD[OF Some] I(3) by (auto simp: cached_def)
    have iL: "i \<notin> L" "i < NBUF" using free(1)[OF c] c by (auto simp: cached_def)
    let ?nb = "(bufs s ! i)\<lparr>refcnt := refcnt (bufs s ! i) + 1, block := take_sleeplock cur s (block (bufs s ! i))\<rparr>"
    have "ui32 (refcnt (bufs s ! i) + 1) = refcnt (bufs s ! i) + 1" using I(6)[OF iL(2)] room[OF iL(2)] by (intro ui32_small) auto
    then have "bget cur dev b s = OK (i, s\<lparr>bufs := (bufs s)[i := ?nb]\<rparr>)"
      using Some iL I(1) I(10)[OF iL(2,1)] by (simp add: bget_def lock_buf_def acquiresleep_def upd_buf_def take_sleeplock_def)
    moreover have "valid (bufs s ! i) \<Longrightarrow> bdata (bufs s ! i) = bview dev s b" using bview_cached[OF inv c] by simp
    moreover have "\<not> valid (bufs s ! i) \<Longrightarrow> bview dev s b = disk s b"
      using bview_uncached[of dev s b] I(5)[OF c] by metis
    ultimately have "bread cur dev b s = OK (i, claim_buf cur dev b i s)"
      using read[of i ?nb] iL(2) c I(1) by (simp add: bread_def cached_def)
    then show thesis using that c iL by (simp add: claimable_def)
  next
    case None
    then have no: "\<not> cached dev s b j" for j using I(3) by (auto simp: find_None_iff cached_def)
    then have "find (\<lambda>i. refcnt (bufs s ! i) = 0) (rev (lru s)) \<noteq> None" using free(2) I(3) by (auto simp: find_None_iff)
    then obtain i where f: "find (\<lambda>i. refcnt (bufs s ! i) = 0) (rev (lru s)) = Some i" by blast
    then have i: "i < NBUF" "refcnt (bufs s ! i) = 0" using find_SomeD[OF f] I(3) by auto
    have iL: "i \<notin> L" using I(9)[of i] i(2) by auto
    let ?nb = "(bufs s ! i)\<lparr>bdev := dev, blockno := b, valid := False, refcnt := 1, block := take_sleeplock cur s (block (bufs s ! i))\<rparr>"
    have "bget cur dev b s = OK (i, s\<lparr>bufs := (bufs s)[i := ?nb]\<rparr>)"
      using None f iL i I(1) I(10)[OF i(1) iL] by (simp add: bget_def lock_buf_def acquiresleep_def upd_buf_def take_sleeplock_def)
    then have "bread cur dev b s = OK (i, claim_buf cur dev b i s)"
      using read[of i ?nb] i(1) no bview_uncached[of dev s b] I(1) by (simp add: bread_def)
    then show thesis using that no i iL by (simp add: claimable_def)
  qed
qed

section \<open>Working on a held buffer\<close>

lemma held_update:
  assumes inv: "cache_inv dev L cur s" and i: "i \<in> L"
    and nb: "valid nb" "bdev nb = dev" "blockno nb = blockno (bufs s ! i)" "block nb = block (bufs s ! i)" "0 < refcnt nb" "refcnt nb < 2 ^ 31"
  defines "t \<equiv> s\<lparr>bufs := (bufs s)[i := nb]\<rparr>"
  shows "cache_inv dev L cur t" "bview dev t = (bview dev s)(blockno (bufs s ! i) := bdata nb)"
proof -
  note I = cache_invD[OF inv]
  have lt: "i < NBUF" using I(4) i by auto
  have b: "bufs t ! j = (if j = i then nb else bufs s ! j)" for j using lt I(1) by (simp add: t_def)
  have h: "valid (bufs s ! i)" "bdev (bufs s ! i) = dev" using I(9)[OF i] by auto
  have key: "bdev (bufs t ! j) = bdev (bufs s ! j)" "blockno (bufs t ! j) = blockno (bufs s ! j)" "valid (bufs t ! j) = valid (bufs s ! j)"
    "block (bufs t ! j) = block (bufs s ! j)" for j using nb h by (simp_all add: b)
  have c: "cached dev t b' j = cached dev s b' j" for b' j by (simp add: cached_def key)
  have dk: "disk t = disk s" and pc: "procs t = procs s" by (simp_all add: t_def)
  show inv': "cache_inv dev L cur t"
    unfolding cache_inv_def key
  proof (intro conjI)
    show "\<forall>k<NBUF. 0 \<le> refcnt (bufs t ! k) \<and> refcnt (bufs t ! k) < 2 ^ 31" using I(6,7) nb by (auto simp: b)
    show "\<forall>k<NBUF. bdev (bufs s ! k) = dev \<longrightarrow> valid (bufs s ! k) \<longrightarrow> refcnt (bufs t ! k) = 0 \<longrightarrow> bdata (bufs t ! k) = disk t (blockno (bufs s ! k))"
      using I(8) nb by (auto simp: b dk)
    show "\<forall>k \<in> L. valid (bufs s ! k) \<and> bdev (bufs s ! k) = dev \<and> 0 < refcnt (bufs t ! k) \<and> holdingsleep cur (block (bufs s ! k)) t"
      using I(9) nb by (auto simp: b pc holdingsleep_def)
    show "\<forall>k<NBUF. k \<notin> L \<longrightarrow> slocked (block (bufs s ! k)) = 0" using I(10) by blast
    show "\<forall>k<NBUF. \<forall>j<NBUF. bdev (bufs s ! k) = dev \<longrightarrow> bdev (bufs s ! j) = dev \<longrightarrow> blockno (bufs s ! k) = blockno (bufs s ! j) \<longrightarrow> k = j"
      using I(5) by (auto simp: cached_def)
  qed (use I in \<open>auto simp: t_def\<close>)
  show "bview dev t = (bview dev s)(blockno (bufs s ! i) := bdata nb)"
  proof
    fix b'
    show "bview dev t b' = ((bview dev s)(blockno (bufs s ! i) := bdata nb)) b'"
    proof (cases "\<exists>j. cached dev s b' j \<and> valid (bufs s ! j)")
      case True
      then obtain j where j: "cached dev s b' j" "valid (bufs s ! j)" by blast
      have ji: "j = i \<longleftrightarrow> b' = blockno (bufs s ! i)"
      proof
        assume "b' = blockno (bufs s ! i)"
        then have "cached dev s b' i" using lt h(2) by (simp add: cached_def)
        then show "j = i" using I(5)[OF j(1)] by simp
      qed (use j(1) in \<open>simp add: cached_def\<close>)
      have "bview dev t b' = bdata (bufs t ! j)" using bview_cached[OF inv'] j by (simp only: c key)
      then show ?thesis using bview_cached[OF inv j] ji by (simp add: b)
    next
      case False
      then have "b' \<noteq> blockno (bufs s ! i)" using lt h by (auto simp: cached_def)
      then show ?thesis using False bview_uncached[of dev t b'] bview_uncached[of dev s b'] by (auto simp: c key dk)
    qed
  qed
qed

lemma set_data_held:
  assumes "cache_inv dev L cur s" "i \<in> L"
  shows "cache_inv dev L cur (set_data i d s)" "bview dev (set_data i d s) = (bview dev s)(blockno (bufs s ! i) := d)"
    "bufs (set_data i d s) ! j = (if j = i then (bufs s ! i)\<lparr>bdata := d\<rparr> else bufs s ! j)"
proof -
  note I = cache_invD[OF assms(1)]
  have lt: "i < NBUF" using I(4) assms(2) by auto
  have h: "valid (bufs s ! i)" "bdev (bufs s ! i) = dev" "0 < refcnt (bufs s ! i)" "refcnt (bufs s ! i) < 2 ^ 31"
    using I(9)[OF assms(2)] I(7)[OF lt] by auto
  note U = held_update[OF assms, of "(bufs s ! i)\<lparr>bdata := d\<rparr>"]
  show "cache_inv dev L cur (set_data i d s)" "bview dev (set_data i d s) = (bview dev s)(blockno (bufs s ! i) := d)"
    using U h by (simp_all add: set_data_def upd_buf_def)
  show "bufs (set_data i d s) ! j = (if j = i then (bufs s ! i)\<lparr>bdata := d\<rparr> else bufs s ! j)"
    using lt I(1) by (simp add: set_data_def upd_buf_def)
qed

lemma bunpin_held:
  assumes "cache_inv dev L cur s" "i \<in> L" "1 < refcnt (bufs s ! i)"
  shows "bunpin i s = s\<lparr>bufs := (bufs s)[i := (bufs s ! i)\<lparr>refcnt := refcnt (bufs s ! i) - 1\<rparr>]\<rparr>"
    "cache_inv dev L cur (bunpin i s)" "bview dev (bunpin i s) = bview dev s"
proof -
  note I = cache_invD[OF assms(1)]
  have lt: "i < NBUF" using I(4) assms(2) by auto
  have h: "valid (bufs s ! i)" "bdev (bufs s ! i) = dev" "refcnt (bufs s ! i) < 2 ^ 31" using I(9)[OF assms(2)] I(7)[OF lt] by auto
  show e: "bunpin i s = s\<lparr>bufs := (bufs s)[i := (bufs s ! i)\<lparr>refcnt := refcnt (bufs s ! i) - 1\<rparr>]\<rparr>"
    using assms(3) h(3) ui32_small[of "refcnt (bufs s ! i) - 1"] by (simp add: bunpin_def upd_buf_def)
  note U = held_update[OF assms(1,2), of "(bufs s ! i)\<lparr>refcnt := refcnt (bufs s ! i) - 1\<rparr>"]
  have "bview dev s (blockno (bufs s ! i)) = bdata (bufs s ! i)"
    using bview_cached[OF assms(1), of _ i] h lt by (auto simp: cached_def)
  then show "cache_inv dev L cur (bunpin i s)" "bview dev (bunpin i s) = bview dev s"
    unfolding e using U h assms(3) by (auto simp: fun_eq_iff)
qed

lemma bwrite_held:
  assumes "cache_inv dev L cur s" "i \<in> L"
  defines "t \<equiv> s\<lparr>disk := (disk s)(blockno (bufs s ! i) := bdata (bufs s ! i)), dhist := dhist s @ [(blockno (bufs s ! i), bdata (bufs s ! i))]\<rparr>"
  shows "bwrite cur i s = OK t" "cache_inv dev L cur t" "bview dev t = bview dev s"
proof -
  note I = cache_invD[OF assms(1)]
  have lt: "i < NBUF" using I(4) assms(2) by auto
  have h: "valid (bufs s ! i)" "bdev (bufs s ! i) = dev" "0 < refcnt (bufs s ! i)" "holdingsleep cur (block (bufs s ! i)) s"
    using I(9)[OF assms(2)] by auto
  show "bwrite cur i s = OK t" using h(4) by (simp add: bwrite_def virtio_disk_rw_def t_def Let_def)
  have bt: "bufs t = bufs s" "disk t b' = (if b' = blockno (bufs s ! i) then bdata (bufs s ! i) else disk s b')" for b' by (simp_all add: t_def)
  have c: "cached dev t b' j = cached dev s b' j" for b' j by (simp add: cached_def bt)
  have "blockno (bufs s ! j) \<noteq> blockno (bufs s ! i)" if "j < NBUF" "bdev (bufs s ! j) = dev" "refcnt (bufs s ! j) = 0" for j
    using I(5)[of "blockno (bufs s ! i)" i j] that h lt by (auto simp: cached_def)
  then show inv': "cache_inv dev L cur t"
    using assms(1) unfolding cache_inv_def by (simp add: t_def holdingsleep_def)
  show "bview dev t = bview dev s"
  proof
    fix b'
    show "bview dev t b' = bview dev s b'"
    proof (cases "\<exists>j. cached dev s b' j \<and> valid (bufs s ! j)")
      case True
      then show ?thesis using bview_cached[OF inv', of b'] bview_cached[OF assms(1), of b'] by (auto simp: c bt)
    next
      case False
      then have "b' \<noteq> blockno (bufs s ! i)" using lt h by (auto simp: cached_def)
      then show ?thesis using False bview_uncached[of dev t b'] bview_uncached[of dev s b'] by (auto simp: c bt)
    qed
  qed
qed

section \<open>Releasing a buffer\<close>

lemma brelse_held:
  assumes inv: "cache_inv dev L cur s" and i: "i \<in> L"
    and clean: "refcnt (bufs s ! i) = 1 \<Longrightarrow> bdata (bufs s ! i) = disk s (blockno (bufs s ! i))"
  obtains t where "brelse cur i s = OK t" "cache_inv dev (L - {i}) cur t" "bview dev t = bview dev s"
    "bufs t = (bufs s)[i := (bufs s ! i)\<lparr>block := block (bufs t ! i), refcnt := refcnt (bufs s ! i) - 1\<rparr>]"
    "\<exists>l. t = (wakeup (Some cur) (ChBufLock i) s)\<lparr>bufs := bufs t, lru := l\<rparr>"
proof -
  note I = cache_invD[OF inv]
  have lt: "i < NBUF" using I(4) i by auto
  have h: "valid (bufs s ! i)" "bdev (bufs s ! i) = dev" "0 < refcnt (bufs s ! i)" "holdingsleep cur (block (bufs s ! i)) s" "refcnt (bufs s ! i) < 2 ^ 31"
    using I(9)[OF i] I(7)[OF lt] by auto
  let ?nb = "(bufs s ! i)\<lparr>block := (block (bufs s ! i))\<lparr>slocked := 0, spid := 0\<rparr>, refcnt := refcnt (bufs s ! i) - 1\<rparr>"
  let ?l = "if refcnt (bufs s ! i) = 1 then i # removeAll i (lru s) else lru s"
  define t where "t = (wakeup (Some cur) (ChBufLock i) s)\<lparr>bufs := (bufs s)[i := ?nb], lru := ?l\<rparr>"
  have "ui32 (refcnt (bufs s ! i) - 1) = refcnt (bufs s ! i) - 1" using h by (intro ui32_small) auto
  then have run: "brelse cur i s = OK t"
    using h(4) lt I(1) by (auto simp: brelse_def releasesleep_def upd_buf_def t_def)
  have b: "bufs t ! j = (if j = i then ?nb else bufs s ! j)" for j using lt I(1) by (simp add: t_def)
  have key: "bdev (bufs t ! j) = bdev (bufs s ! j)" "blockno (bufs t ! j) = blockno (bufs s ! j)" "valid (bufs t ! j) = valid (bufs s ! j)"
    "bdata (bufs t ! j) = bdata (bufs s ! j)" for j by (simp_all add: b)
  have dk: "disk t = disk s" and pc: "procs t ! cur = procs s ! cur" and ln: "length (bufs t) = NBUF" by (simp_all add: t_def I(1))
  have c: "cached dev t b' j = cached dev s b' j" for b' j by (simp add: cached_def key)
  have inv': "cache_inv dev (L - {i}) cur t"
    unfolding cache_inv_def key dk
  proof (intro conjI)
    show "distinct (lru t)" "set (lru t) = {..<NBUF}" using I(2,3) lt by (auto simp: t_def distinct_removeAll)
    show "\<forall>k<NBUF. 0 \<le> refcnt (bufs t ! k) \<and> refcnt (bufs t ! k) < 2 ^ 31" using I(6,7) h by (auto simp: b)
    show "\<forall>k<NBUF. bdev (bufs s ! k) = dev \<longrightarrow> valid (bufs s ! k) \<longrightarrow> refcnt (bufs t ! k) = 0 \<longrightarrow> bdata (bufs s ! k) = disk s (blockno (bufs s ! k))"
      using I(8) clean by (auto simp: b)
    show "\<forall>k \<in> L - {i}. valid (bufs s ! k) \<and> bdev (bufs s ! k) = dev \<and> 0 < refcnt (bufs t ! k) \<and> holdingsleep cur (block (bufs t ! k)) t"
      using I(9) pc by (auto simp: b holdingsleep_def)
    show "\<forall>k<NBUF. k \<notin> L - {i} \<longrightarrow> slocked (block (bufs t ! k)) = 0" using I(10) by (auto simp: b)
    show "\<forall>k<NBUF. \<forall>j<NBUF. bdev (bufs s ! k) = dev \<longrightarrow> bdev (bufs s ! j) = dev \<longrightarrow> blockno (bufs s ! k) = blockno (bufs s ! j) \<longrightarrow> k = j"
      using I(5) by (auto simp: cached_def)
  qed (use I(4) ln in auto)
  moreover have "bview dev t = bview dev s"
  proof
    fix b'
    show "bview dev t b' = bview dev s b'"
      using bview_cached[OF inv', of b'] bview_cached[OF inv, of b'] bview_uncached[of dev t b'] bview_uncached[of dev s b']
      by (cases "\<exists>j. cached dev s b' j \<and> valid (bufs s ! j)") (auto simp: c key dk)
  qed
  moreover have "bufs t = (bufs s)[i := (bufs s ! i)\<lparr>block := block (bufs t ! i), refcnt := refcnt (bufs s ! i) - 1\<rparr>]"
    by (simp add: b) (simp add: t_def)
  moreover have "t = (wakeup (Some cur) (ChBufLock i) s)\<lparr>bufs := bufs t, lru := ?l\<rparr>" by (simp add: t_def)
  ultimately show thesis using run that by blast
qed

section \<open>Reading and releasing together\<close>

text \<open>
  \<open>t\<close> differs from \<open>s\<close> only in the cache and in processes that were woken up, and every buffer in use in \<open>s\<close>
  still holds the same block.
\<close>

definition same_log :: "'a logst_scheme \<Rightarrow> 'a logst_scheme \<Rightarrow> bool" where
  "same_log s t \<longleftrightarrow> log_start t = log_start s \<and> log_size t = log_size s \<and> outstanding t = outstanding s
     \<and> committing t = committing s \<and> log_dev t = log_dev s \<and> lh_n t = lh_n s \<and> lh_block t = lh_block s"

lemma same_log_refl [simp]: "same_log s s" by (simp add: same_log_def)

lemma same_log_trans: "same_log s t \<Longrightarrow> same_log t u \<Longrightarrow> same_log s u" by (simp add: same_log_def)

definition keeps_pins :: "'a bcache_scheme \<Rightarrow> 'a bcache_scheme \<Rightarrow> bool" where
  "keeps_pins s t \<longleftrightarrow> (\<forall>i<NBUF. 0 < refcnt (bufs s ! i) \<longrightarrow>
     bdev (bufs t ! i) = bdev (bufs s ! i) \<and> blockno (bufs t ! i) = blockno (bufs s ! i))"

lemma keeps_pins_trans:
  "keeps_pins s t \<Longrightarrow> keeps_pins t u \<Longrightarrow> (\<And>i. 0 < refcnt (bufs s ! i) \<Longrightarrow> 0 < refcnt (bufs t ! i)) \<Longrightarrow> keeps_pins s u"
  by (simp add: keeps_pins_def)

lemma claim_facts:
  assumes "cache_inv dev L cur s" "claimable dev b s i"
  shows "j \<noteq> i \<Longrightarrow> bufs (claim_buf cur dev b i s) ! j = bufs s ! j"
    "bdev (bufs (claim_buf cur dev b i s) ! i) = dev" "blockno (bufs (claim_buf cur dev b i s) ! i) = b"
    "bdata (bufs (claim_buf cur dev b i s) ! i) = bview dev s b"
    "refcnt (bufs (claim_buf cur dev b i s) ! i) = refcnt (bufs s ! i) + 1"
    "disk (claim_buf cur dev b i s) = disk s" "dhist (claim_buf cur dev b i s) = dhist s"
    "keeps_pins s (claim_buf cur dev b i s)"
proof -
  have lt: "i < NBUF" "length (bufs s) = NBUF" using assms cache_invD(1) by (auto simp: claimable_def)
  show b: "j \<noteq> i \<Longrightarrow> bufs (claim_buf cur dev b i s) ! j = bufs s ! j" for j by (simp add: claim_buf_def)
  show new: "bdev (bufs (claim_buf cur dev b i s) ! i) = dev" "blockno (bufs (claim_buf cur dev b i s) ! i) = b"
    "bdata (bufs (claim_buf cur dev b i s) ! i) = bview dev s b"
    "disk (claim_buf cur dev b i s) = disk s" "dhist (claim_buf cur dev b i s) = dhist s"
    using lt by (simp_all add: claim_buf_def)
  show "refcnt (bufs (claim_buf cur dev b i s) ! i) = refcnt (bufs s ! i) + 1"
    using lt assms(2) by (auto simp: claim_buf_def claimable_def)
  have "bdev (bufs s ! i) = dev \<and> blockno (bufs s ! i) = b" if "0 < refcnt (bufs s ! i)"
    using that assms(2) by (auto simp: claimable_def cached_def)
  then show "keeps_pins s (claim_buf cur dev b i s)"
    unfolding keeps_pins_def using b new(1,2) by metis
qed

lemma same_log_claim [simp]: "same_log s (claim_buf cur dev b i s)"
  by (simp add: same_log_def claim_buf_def)

text \<open>\<open>t\<close> comes from \<open>s\<close> by reading block \<open>x\<close> into buffer \<open>i\<close> and then block \<open>y\<close> into buffer \<open>j\<close>.\<close>

definition opened :: "u32 \<Rightarrow> nat \<Rightarrow> u32 \<Rightarrow> u32 \<Rightarrow> nat \<Rightarrow> nat \<Rightarrow> 'a bcache_scheme \<Rightarrow> 'a bcache_scheme \<Rightarrow> bool" where
  "opened dev cur x y i j s t \<longleftrightarrow> i \<noteq> j \<and> i < NBUF \<and> j < NBUF \<and> cache_inv dev {i, j} cur t \<and> bview dev t = bview dev s
     \<and> bdata (bufs t ! i) = bview dev s x \<and> bdata (bufs t ! j) = bview dev s y \<and> blockno (bufs t ! i) = x \<and> blockno (bufs t ! j) = y
     \<and> disk t = disk s \<and> dhist t = dhist s \<and> keeps_pins s t
     \<and> (\<forall>k. refcnt (bufs t ! k) = refcnt (bufs s ! k) + (if k = i \<or> k = j then 1 else 0)) \<and> (\<exists>B. t = s\<lparr>bufs := B\<rparr>)"

lemma openedD:
  assumes "opened dev cur x y i j s t"
  shows "i \<noteq> j" "i < NBUF" "j < NBUF" "cache_inv dev {i, j} cur t" "bview dev t = bview dev s"
    "bdata (bufs t ! i) = bview dev s x" "bdata (bufs t ! j) = bview dev s y" "blockno (bufs t ! i) = x" "blockno (bufs t ! j) = y"
    "disk t = disk s" "dhist t = dhist s" "keeps_pins s t"
    "refcnt (bufs t ! k) = refcnt (bufs s ! k) + (if k = i \<or> k = j then 1 else 0)"
  using assms unfolding opened_def by blast+

lemma opened_same_log: "opened dev cur x y i j s t \<Longrightarrow> same_log s t"
  by (auto simp: opened_def same_log_def)

text \<open>Two different blocks, read one after the other.\<close>

lemma read_two:
  assumes inv: "cache_inv dev {} cur s" and ne: "x \<noteq> y" and room: "\<And>i. i < NBUF \<Longrightarrow> refcnt (bufs s ! i) < 2 ^ 31 - 2"
    and fx: "(\<exists>i. cached dev s x i) \<or> (\<exists>i<NBUF. refcnt (bufs s ! i) = 0)"
    and fy: "(\<exists>i<NBUF. cached dev s y i \<and> 0 < refcnt (bufs s ! i))
      \<or> (\<exists>i<NBUF. \<exists>j<NBUF. i \<noteq> j \<and> refcnt (bufs s ! i) = 0 \<and> refcnt (bufs s ! j) = 0)"
  shows "\<exists>i j s1 t. bread cur dev x s = OK (i, s1) \<and> bread cur dev y s1 = OK (j, t) \<and> opened dev cur x y i j s t \<and> same_log s s1"
proof -
  have "\<And>i. i < NBUF \<Longrightarrow> refcnt (bufs s ! i) < 2 ^ 31 - 1" using room by force
  then obtain i where i: "bread cur dev x s = OK (i, claim_buf cur dev x i s)" "claimable dev x s i"
    using bread_claims[OF inv _ _ fx] by blast
  let ?s1 = "claim_buf cur dev x i s"
  have lt: "i < NBUF" using i(2) by (simp add: claimable_def)
  note R = room[OF lt]
  have "refcnt (bufs s ! i) < 2 ^ 31 - 1" using R by simp
  note C = claim_inv[OF inv i(2) _ this] and F = claim_facts[OF inv i(2)]
  have inv1: "cache_inv dev {i} cur ?s1" using C(1) by simp
  have room1: "refcnt (bufs ?s1 ! k) < 2 ^ 31 - 1" if "k < NBUF" for k
    using F(1)[of k] F(5) room[OF that] R by (cases "k = i") simp_all
  have nL: "k \<notin> {i}" if "cached dev ?s1 y k" for k using that F(3) ne by (auto simp: cached_def)
  have fy1: "(\<exists>k. cached dev ?s1 y k) \<or> (\<exists>k<NBUF. refcnt (bufs ?s1 ! k) = 0)"
    using fy
  proof
    assume "\<exists>i<NBUF. cached dev s y i \<and> 0 < refcnt (bufs s ! i)"
    then obtain k where k: "k < NBUF" "cached dev s y k" "0 < refcnt (bufs s ! k)" by blast
    then have "cached dev ?s1 y k" using F(8) by (auto simp: keeps_pins_def cached_def)
    then show ?thesis by blast
  next
    assume "\<exists>i<NBUF. \<exists>j<NBUF. i \<noteq> j \<and> refcnt (bufs s ! i) = 0 \<and> refcnt (bufs s ! j) = 0"
    then obtain k where "k < NBUF" "k \<noteq> i" "refcnt (bufs s ! k) = 0" by metis
    then show ?thesis using F(1)[of k] by auto
  qed
  obtain j where j: "bread cur dev y ?s1 = OK (j, claim_buf cur dev y j ?s1)" "claimable dev y ?s1 j" "j \<notin> {i}"
    using bread_claims[OF inv1 room1 nL fy1] by blast
  let ?t = "claim_buf cur dev y j ?s1"
  have ltj: "j < NBUF" using j(2) by (simp add: claimable_def)
  note C2 = claim_inv[OF inv1 j(2,3) room1[OF ltj]] and G = claim_facts[OF inv1 j(2)]
  have ij: "i \<noteq> j" using j(3) by simp
  have bi: "bufs ?t ! i = bufs ?s1 ! i" using G(1)[of i] ij by simp
  have "opened dev cur x y i j s ?t"
    unfolding opened_def
  proof (intro conjI ij lt ltj allI)
    show "cache_inv dev {i, j} cur ?t" using C2(1) by (simp add: insert_commute)
    show "bview dev ?t = bview dev s" using C2(2) C(2) by simp
    show "bdata (bufs ?t ! i) = bview dev s x" "blockno (bufs ?t ! i) = x" using bi F(3,4) by simp_all
    show "bdata (bufs ?t ! j) = bview dev s y" "blockno (bufs ?t ! j) = y" using G(3,4) C(2) by simp_all
    show "disk ?t = disk s" "dhist ?t = dhist s" using F(6,7) G(6,7) by simp_all
    have "0 < refcnt (bufs s ! k) \<Longrightarrow> 0 < refcnt (bufs ?s1 ! k)" for k using F(1)[of k] F(5) by (cases "k = i") simp_all
    then show "keeps_pins s ?t" by (rule keeps_pins_trans[OF F(8) G(8)])
    show "refcnt (bufs ?t ! k) = refcnt (bufs s ! k) + (if k = i \<or> k = j then 1 else 0)" for k
      using F(1)[of k] F(1)[of j] F(5) G(1)[of k] G(5) ij by (cases "k = i"; cases "k = j") simp_all
    show "\<exists>B. ?t = s\<lparr>bufs := B\<rparr>" by (auto simp: claim_buf_def)
  qed
  then show ?thesis using i(1) j(1) same_log_claim by blast
qed

lemma release_one:
  fixes s :: "'a logst_scheme"
  assumes inv: "cache_inv dev L cur s" and i: "i \<in> L"
    and clean: "refcnt (bufs s ! i) = 1 \<Longrightarrow> bdata (bufs s ! i) = disk s (blockno (bufs s ! i))"
  obtains t where "brelse cur i s = OK t" "cache_inv dev (L - {i}) cur t" "bview dev t = bview dev s" "disk t = disk s"
    "dhist t = dhist s" "same_log s t"
    "\<And>k. refcnt (bufs t ! k) = refcnt (bufs s ! k) - (if k = i then 1 else 0)"
    "\<And>k. bdev (bufs t ! k) = bdev (bufs s ! k) \<and> blockno (bufs t ! k) = blockno (bufs s ! k) \<and> bdata (bufs t ! k) = bdata (bufs s ! k)"
proof -
  obtain t where 1: "brelse cur i s = OK t" "cache_inv dev (L - {i}) cur t" "bview dev t = bview dev s"
    "bufs t = (bufs s)[i := (bufs s ! i)\<lparr>block := block (bufs t ! i), refcnt := refcnt (bufs s ! i) - 1\<rparr>]"
    "\<exists>l. t = (wakeup (Some cur) (ChBufLock i) s)\<lparr>bufs := bufs t, lru := l\<rparr>"
    using brelse_held[OF inv i clean] by blast
  have lt: "i < length (bufs s)" using cache_invD(1,4)[OF inv] i by auto
  obtain l where l: "t = (wakeup (Some cur) (ChBufLock i) s)\<lparr>bufs := bufs t, lru := l\<rparr>" using 1(5) by blast
  define nb where "nb = (bufs s ! i)\<lparr>block := block (bufs t ! i), refcnt := refcnt (bufs s ! i) - 1\<rparr>"
  have nb: "refcnt nb = refcnt (bufs s ! i) - 1" "bdev nb = bdev (bufs s ! i)" "blockno nb = blockno (bufs s ! i)" "bdata nb = bdata (bufs s ! i)"
    by (simp_all add: nb_def)
  have "bufs t = (bufs s)[i := nb]" using 1(4) unfolding nb_def .
  then have b: "bufs t ! k = (if k = i then nb else bufs s ! k)" for k using lt by simp
  have f: "disk t = disk s" "dhist t = dhist s" "same_log s t"
    using arg_cong[OF l, of disk] arg_cong[OF l, of dhist] arg_cong[OF l, of "same_log s"] by (simp_all add: same_log_def)
  show ?thesis by (rule that[OF 1(1-3) f]) (simp_all add: b nb)
qed

lemma release_two:
  fixes s :: "'a logst_scheme"
  assumes inv: "cache_inv dev {i, j} cur s" and ij: "i \<noteq> j"
    and clean: "\<And>k. k = i \<or> k = j \<Longrightarrow> refcnt (bufs s ! k) = 1 \<Longrightarrow> bdata (bufs s ! k) = disk s (blockno (bufs s ! k))"
  obtains u where "rbind (brelse cur i s) (brelse cur j) = OK u" "cache_inv dev {} cur u" "bview dev u = bview dev s" "disk u = disk s"
    "dhist u = dhist s" "same_log s u"
    "\<And>k. refcnt (bufs u ! k) = refcnt (bufs s ! k) - (if k = i \<or> k = j then 1 else 0)"
    "\<And>k. bdev (bufs u ! k) = bdev (bufs s ! k) \<and> blockno (bufs u ! k) = blockno (bufs s ! k)"
proof -
  obtain t where t: "brelse cur i s = OK t" "cache_inv dev ({i, j} - {i}) cur t" "bview dev t = bview dev s" "disk t = disk s"
    "dhist t = dhist s" "same_log s t" "\<And>k. refcnt (bufs t ! k) = refcnt (bufs s ! k) - (if k = i then 1 else 0)"
    "\<And>k. bdev (bufs t ! k) = bdev (bufs s ! k) \<and> blockno (bufs t ! k) = blockno (bufs s ! k) \<and> bdata (bufs t ! k) = bdata (bufs s ! k)"
    using release_one[OF inv _ clean] by blast
  have L: "{i, j} - {i} = {j}" "{j} - {j} = ({} :: nat set)" using ij by auto
  have "refcnt (bufs t ! j) = 1 \<Longrightarrow> bdata (bufs t ! j) = disk t (blockno (bufs t ! j))" using t(4,7,8) clean[of j] ij by simp
  then obtain u where u: "brelse cur j t = OK u" "cache_inv dev ({j} - {j}) cur u" "bview dev u = bview dev t" "disk u = disk t"
    "dhist u = dhist t" "same_log t u" "\<And>k. refcnt (bufs u ! k) = refcnt (bufs t ! k) - (if k = j then 1 else 0)"
    "\<And>k. bdev (bufs u ! k) = bdev (bufs t ! k) \<and> blockno (bufs u ! k) = blockno (bufs t ! k) \<and> bdata (bufs u ! k) = bdata (bufs t ! k)"
    using release_one[of dev "{j}" cur t j] t(2) unfolding L by blast
  show thesis
    by (rule that[of u]) (use t u L ij same_log_trans in \<open>auto simp: L\<close>)
qed

section \<open>Copying a block\<close>

text \<open>The state between two blocks: nothing is locked, and the references are those of \<open>s\<close>.\<close>

definition settled :: "u32 \<Rightarrow> nat \<Rightarrow> 'a logst_scheme \<Rightarrow> 'a logst_scheme \<Rightarrow> bool" where
  "settled dev cur s t \<longleftrightarrow> cache_inv dev {} cur t \<and> same_log s t \<and> (\<forall>k<NBUF. refcnt (bufs t ! k) = refcnt (bufs s ! k)) \<and> keeps_pins s t"

text \<open>Block \<open>b\<close> is in a buffer that somebody refers to.\<close>

definition pinned :: "u32 \<Rightarrow> 'a bcache_scheme \<Rightarrow> u32 \<Rightarrow> bool" where
  "pinned dev s b \<longleftrightarrow> (\<exists>i. cached dev s b i \<and> 0 < refcnt (bufs s ! i))"

definition spare :: "nat \<Rightarrow> 'a bcache_scheme \<Rightarrow> bool" where
  "spare n s \<longleftrightarrow> n \<le> card {i. i < NBUF \<and> refcnt (bufs s ! i) = 0} \<and> (\<forall>i<NBUF. refcnt (bufs s ! i) < 2 ^ 31 - 2)"

lemma spareD:
  "spare n s \<Longrightarrow> i < NBUF \<Longrightarrow> refcnt (bufs s ! i) < 2 ^ 31 - 2"
  "spare n s \<Longrightarrow> 1 \<le> n \<Longrightarrow> \<exists>i<NBUF. refcnt (bufs s ! i) = 0"
  "spare n s \<Longrightarrow> 2 \<le> n \<Longrightarrow> \<exists>i<NBUF. \<exists>j<NBUF. i \<noteq> j \<and> refcnt (bufs s ! i) = 0 \<and> refcnt (bufs s ! j) = 0"
proof -
  let ?S = "{i. i < NBUF \<and> refcnt (bufs s ! i) = 0}"
  have fin: "finite ?S" by simp
  show "spare n s \<Longrightarrow> i < NBUF \<Longrightarrow> refcnt (bufs s ! i) < 2 ^ 31 - 2" by (simp add: spare_def)
  show "spare n s \<Longrightarrow> 1 \<le> n \<Longrightarrow> \<exists>i<NBUF. refcnt (bufs s ! i) = 0"
    using card_gt_0_iff[of ?S] by (auto simp: spare_def)
  assume "spare n s" "2 \<le> n"
  then have "2 \<le> card ?S" by (simp add: spare_def)
  then obtain T where T: "T \<subseteq> ?S" "card T = 2" by (rule obtain_subset_with_card_n)
  then obtain i j where "T = {i, j}" "i \<noteq> j" unfolding card_2_iff by blast
  then have "i \<in> ?S" "j \<in> ?S" "i \<noteq> j" using T(1) by auto
  then show "\<exists>i<NBUF. \<exists>j<NBUF. i \<noteq> j \<and> refcnt (bufs s ! i) = 0 \<and> refcnt (bufs s ! j) = 0" by blast
qed

lemma settled_facts:
  assumes "settled dev cur s t"
  shows "cache_inv dev {} cur t" "same_log s t" "spare n t = spare n s" "pinned dev s b \<Longrightarrow> pinned dev t b"
proof -
  have r: "k < NBUF \<Longrightarrow> refcnt (bufs t ! k) = refcnt (bufs s ! k)" for k using assms by (simp add: settled_def)
  show "cache_inv dev {} cur t" "same_log s t" using assms by (simp_all add: settled_def)
  have "{i. i < NBUF \<and> refcnt (bufs t ! i) = 0} = {i. i < NBUF \<and> refcnt (bufs s ! i) = 0}" using r by auto
  then show "spare n t = spare n s" using r by (auto simp: spare_def)
  show "pinned dev s b \<Longrightarrow> pinned dev t b"
    using assms r by (auto simp: pinned_def cached_def settled_def keeps_pins_def)
qed

lemma settled_refl: "cache_inv dev {} cur s \<Longrightarrow> settled dev cur s s"
  by (simp add: settled_def keeps_pins_def)

lemma settled_trans: "settled dev cur s t \<Longrightarrow> settled dev cur t u \<Longrightarrow> settled dev cur s u"
  unfolding settled_def keeps_pins_def same_log_def by simp

lemma unpinned_view:
  assumes "cache_inv dev L cur s" "\<not> pinned dev s b"
  shows "bview dev s b = disk s b"
proof (cases "\<exists>i. cached dev s b i \<and> valid (bufs s ! i)")
  case True
  then obtain i where i: "cached dev s b i" "valid (bufs s ! i)" by blast
  then have "i < NBUF" "bdev (bufs s ! i) = dev" "blockno (bufs s ! i) = b" by (auto simp: cached_def)
  moreover have "refcnt (bufs s ! i) = 0" using assms(2) i(1) cache_invD(6)[OF assms(1) \<open>i < NBUF\<close>] by (auto simp: pinned_def)
  ultimately show ?thesis using bview_cached[OF assms(1) i] cache_invD(8)[OF assms(1)] i(2) by auto
qed (use bview_uncached[of dev s b] in blast)

lemma opened_clean:
  assumes inv: "cache_inv dev {} cur s" and O: "opened dev cur x y i j s t" and k: "k = i \<or> k = j"
    and rc: "refcnt (bufs t ! k) = 1"
  shows "bdata (bufs t ! k) = disk t (blockno (bufs t ! k))"
proof -
  note D = openedD[OF O]
  have r0: "refcnt (bufs s ! k) = 0" using rc D(13)[of k] k by auto
  have lt: "k < NBUF" using k D(2,3) by auto
  let ?b = "blockno (bufs t ! k)"
  have "\<not> pinned dev s ?b"
  proof
    assume "pinned dev s ?b"
    then obtain m where m: "m < NBUF" "bdev (bufs s ! m) = dev" "blockno (bufs s ! m) = ?b" "0 < refcnt (bufs s ! m)"
      by (auto simp: pinned_def cached_def)
    then have "cached dev t ?b m" using D(12) by (auto simp: keeps_pins_def cached_def)
    moreover have "cached dev t ?b k" using cache_invD(9)[OF D(4)] k lt by (auto simp: cached_def)
    ultimately have "m = k" using cache_invD(5)[OF D(4)] by blast
    then show False using m(4) r0 by simp
  qed
  then have "bview dev s ?b = disk s ?b" by (rule unpinned_view[OF inv])
  then show ?thesis using k D(6-10) by auto
qed

lemma overwrite_and_close:
  fixes s :: "'a logst_scheme"
  assumes inv: "cache_inv dev {} cur s" and O: "opened dev cur x y i j s t" and xy: "x \<noteq> y"
    and pq: "p = i \<and> q = j \<or> p = j \<and> q = i" and un: "unpin \<Longrightarrow> 0 < refcnt (bufs s ! p)"
  obtains u where "rbind (bwrite cur p (set_data p d t)) (\<lambda>s. rbind (brelse cur q (if unpin then bunpin p s else s)) (brelse cur p)) = OK u"
    "cache_inv dev {} cur u" "same_log s u" "keeps_pins s u"
    "\<And>k. refcnt (bufs u ! k) = refcnt (bufs s ! k) - (if unpin \<and> k = p then 1 else 0)"
    "bview dev u = (bview dev s)(blockno (bufs t ! p) := d)" "disk u = (disk s)(blockno (bufs t ! p) := d)"
    "dhist u = dhist s @ [(blockno (bufs t ! p), d)]"
proof -
  note D = openedD[OF O]
  let ?b = "blockno (bufs t ! p)"
  have pL: "p \<in> {i, j}" and ne: "p \<noteq> q" and bne: "blockno (bufs t ! q) \<noteq> ?b" and lt: "p < NBUF" using pq D(1-3,8,9) xy by auto
  note S = set_data_held[OF D(4) pL, of d]
  let ?t1 = "set_data p d t"
  have t1: "disk ?t1 = disk t" "dhist ?t1 = dhist t" "same_log t ?t1"
    using cache_invD(1)[OF D(4)] by (simp_all add: set_data_def upd_buf_def same_log_def)
  note W = bwrite_held[OF S(1) pL]
  let ?t2 = "?t1\<lparr>disk := (disk ?t1)(blockno (bufs ?t1 ! p) := bdata (bufs ?t1 ! p)), dhist := dhist ?t1 @ [(blockno (bufs ?t1 ! p), bdata (bufs ?t1 ! p))]\<rparr>"
  have b1: "blockno (bufs ?t1 ! p) = ?b" "bdata (bufs ?t1 ! p) = d" using S(3)[of p] by simp_all
  define t3 where "t3 = (if unpin then bunpin p ?t2 else ?t2)"
  have r2: "refcnt (bufs ?t2 ! k) = refcnt (bufs s ! k) + (if k = i \<or> k = j then 1 else 0)"
    "blockno (bufs ?t2 ! k) = blockno (bufs t ! k)" "bdev (bufs ?t2 ! k) = bdev (bufs t ! k)"
    "bdata (bufs ?t2 ! k) = (if k = p then d else bdata (bufs t ! k))" for k
    using S(3)[of k] D(13)[of k] by auto
  have un2: "unpin \<Longrightarrow> 1 < refcnt (bufs ?t2 ! p)" using un r2(1)[of p] pq by auto
  have "cache_inv dev {i, j} cur t3 \<and> bview dev t3 = bview dev ?t2 \<and> disk t3 = disk ?t2 \<and> dhist t3 = dhist ?t2 \<and> same_log ?t2 t3
    \<and> (\<forall>k. refcnt (bufs t3 ! k) = refcnt (bufs ?t2 ! k) - (if unpin \<and> k = p then 1 else 0) \<and> blockno (bufs t3 ! k) = blockno (bufs ?t2 ! k)
      \<and> bdev (bufs t3 ! k) = bdev (bufs ?t2 ! k) \<and> bdata (bufs t3 ! k) = bdata (bufs ?t2 ! k))"
  proof (cases unpin)
    case True
    note B = bunpin_held[OF W(2) pL un2[OF True]]
    have "length (bufs ?t2) = NBUF" using cache_invD(1)[OF W(2)] .
    then have l: "p < length (bufs ?t2)" using lt by simp
    show ?thesis unfolding t3_def using True B(2,3) l by (auto simp: B(1) nth_list_update same_log_def)
  next
    case False
    then show ?thesis using W(2) by (simp add: t3_def)
  qed
  then have T: "cache_inv dev {i, j} cur t3" "bview dev t3 = bview dev ?t2" "disk t3 = disk ?t2" "dhist t3 = dhist ?t2" "same_log ?t2 t3"
    "\<And>k. refcnt (bufs t3 ! k) = refcnt (bufs ?t2 ! k) - (if unpin \<and> k = p then 1 else 0)" "\<And>k. blockno (bufs t3 ! k) = blockno (bufs t ! k)"
    "\<And>k. bdev (bufs t3 ! k) = bdev (bufs t ! k)" "\<And>k. bdata (bufs t3 ! k) = (if k = p then d else bdata (bufs t ! k))"
    using r2 by simp_all
  have dk: "disk t3 b = (if b = ?b then d else disk s b)" for b using T(3) t1(1) b1 D(10) by simp
  have clean: "bdata (bufs t3 ! k) = disk t3 (blockno (bufs t3 ! k))" if "k = q \<or> k = p" "refcnt (bufs t3 ! k) = 1" for k
  proof (cases "k = p")
    case False
    then have "refcnt (bufs t ! k) = 1" using that T(6)[of k] r2(1)[of k] D(13)[of k] by simp
    then show ?thesis using opened_clean[OF inv O, of k] that(1) pq False bne T(7,9) dk D(10) by auto
  qed (use T(7,9) dk in simp)
  have inv3: "cache_inv dev {q, p} cur t3" using T(1) pq by (auto simp: insert_commute)
  obtain u where u: "rbind (brelse cur q t3) (brelse cur p) = OK u" "cache_inv dev {} cur u" "bview dev u = bview dev t3" "disk u = disk t3"
    "dhist u = dhist t3" "same_log t3 u"
    "\<And>k. refcnt (bufs u ! k) = refcnt (bufs t3 ! k) - (if k = q \<or> k = p then 1 else 0)"
    "\<And>k. bdev (bufs u ! k) = bdev (bufs t3 ! k) \<and> blockno (bufs u ! k) = blockno (bufs t3 ! k)"
    using release_two[OF inv3 ne[symmetric] clean] by blast
  show thesis
  proof (rule that[of u])
    show "rbind (bwrite cur p (set_data p d t)) (\<lambda>s. rbind (brelse cur q (if unpin then bunpin p s else s)) (brelse cur p)) = OK u"
      using W(1) u(1) by (simp add: t3_def)
    show "same_log s u" using opened_same_log[OF O] t1(3) T(5) u(6) by (simp add: same_log_def)
    show "keeps_pins s u" using D(12) T(7,8) u(8) by (simp add: keeps_pins_def)
    show "refcnt (bufs u ! k) = refcnt (bufs s ! k) - (if unpin \<and> k = p then 1 else 0)" for k
      using u(7)[of k] T(6)[of k] r2(1)[of k] pq by auto
    show "bview dev u = (bview dev s)(?b := d)" using u(3) T(2) W(3) S(2) D(5) by simp
    show "disk u = (disk s)(?b := d)" using u(4) dk by (auto simp: fun_eq_iff)
    show "dhist u = dhist s @ [(?b, d)]" using u(5) T(4) t1(2) b1 D(11) by simp
  qed (use u(2) in simp)
qed

section \<open>The disk writes of the log\<close>

definition apply_writes :: "(u32 \<times> u8 list) list \<Rightarrow> (u32 \<Rightarrow> u8 list) \<Rightarrow> u32 \<Rightarrow> u8 list" where
  "apply_writes W d = fold (\<lambda>(b, v) d. d(b := v)) W d"

lemma apply_writes_simps [simp]:
  "apply_writes [] d = d" "apply_writes ((b, v) # W) d = apply_writes W (d(b := v))"
  "apply_writes (W @ X) d = apply_writes X (apply_writes W d)"
  by (simp_all add: apply_writes_def)

text \<open>Going from \<open>s\<close> to \<open>t\<close> wrote exactly the blocks \<open>W\<close>, in this order, and left the log's fields alone.\<close>

definition wrote :: "u32 \<Rightarrow> nat \<Rightarrow> (u32 \<times> u8 list) list \<Rightarrow> 'a logst_scheme \<Rightarrow> 'a logst_scheme \<Rightarrow> bool" where
  "wrote dev cur W s t \<longleftrightarrow> cache_inv dev {} cur t \<and> same_log s t \<and> bview dev t = apply_writes W (bview dev s)
     \<and> disk t = apply_writes W (disk s) \<and> dhist t = dhist s @ W"

lemma wroteD:
  assumes "wrote dev cur W s t"
  shows "cache_inv dev {} cur t" "same_log s t" "bview dev t = apply_writes W (bview dev s)" "disk t = apply_writes W (disk s)"
    "dhist t = dhist s @ W"
  using assms by (simp_all add: wrote_def)

lemma wrote_nil: "cache_inv dev {} cur s \<Longrightarrow> wrote dev cur [] s s"
  by (simp add: wrote_def)

lemma wrote_append: "wrote dev cur W s t \<Longrightarrow> wrote dev cur X t u \<Longrightarrow> wrote dev cur (W @ X) s u"
  by (auto simp: wrote_def intro: same_log_trans)

lemma same_logD:
  assumes "same_log s t"
  shows "log_dev t = log_dev s" "lh_block t = lh_block s" "lh_n t = lh_n s" "log_start t = log_start s" "log_slot t = log_slot s"
  using assms by (auto simp: same_log_def log_slot_def)

lemma write_log_step:
  fixes s :: "'a logst_scheme"
  assumes inv: "cache_inv dev {} cur s" "spare 1 s" and dev: "log_dev s = dev" and ne: "log_slot s tail \<noteq> lh_block s ! tail"
    and pin: "pinned dev s (lh_block s ! tail)"
  obtains t where "write_log_loop cur (tail # tails) s = write_log_loop cur tails t" "settled dev cur s t"
    "wrote dev cur [(log_slot s tail, bview dev s (lh_block s ! tail))] s t"
proof -
  let ?x = "log_slot s tail" and ?y = "lh_block s ! tail"
  have room: "refcnt (bufs s ! i) < 2 ^ 31 - 2" if "i < NBUF" for i using spareD(1)[OF inv(2) that] .
  have fx: "(\<exists>i. cached dev s ?x i) \<or> (\<exists>i<NBUF. refcnt (bufs s ! i) = 0)" using spareD(2)[OF inv(2)] by blast
  have fy: "(\<exists>i<NBUF. cached dev s ?y i \<and> 0 < refcnt (bufs s ! i))
      \<or> (\<exists>i<NBUF. \<exists>j<NBUF. i \<noteq> j \<and> refcnt (bufs s ! i) = 0 \<and> refcnt (bufs s ! j) = 0)"
    using pin by (auto simp: pinned_def cached_def)
  obtain i j s1 t where R: "bread cur dev ?x s = OK (i, s1)" "bread cur dev ?y s1 = OK (j, t)" and O: "opened dev cur ?x ?y i j s t"
    and m: "same_log s s1"
    using read_two[OF inv(1) ne room fx fy] by blast
  note D = openedD[OF O]
  obtain u where u: "rbind (bwrite cur i (set_data i (bdata (bufs t ! j)) t)) (\<lambda>s. rbind (brelse cur j (if False then bunpin i s else s)) (brelse cur i)) = OK u"
    "cache_inv dev {} cur u" "same_log s u" "keeps_pins s u"
    "\<And>k. refcnt (bufs u ! k) = refcnt (bufs s ! k) - (if False \<and> k = i then 1 else 0)"
    "bview dev u = (bview dev s)(blockno (bufs t ! i) := bdata (bufs t ! j))" "disk u = (disk s)(blockno (bufs t ! i) := bdata (bufs t ! j))"
    "dhist u = dhist s @ [(blockno (bufs t ! i), bdata (bufs t ! j))]"
    using overwrite_and_close[OF inv(1) O ne, of i j False "bdata (bufs t ! j)"] by blast
  show thesis
  proof (rule that[of u])
    show "write_log_loop cur (tail # tails) s = write_log_loop cur tails u"
      using R dev same_logD[OF m] u(1) by (auto simp: Let_def rbind_eq_OK)
    show "settled dev cur s u" using u(2-5) by (simp add: settled_def)
    show "wrote dev cur [(?x, bview dev s ?y)] s u" using u(2,3,6-8) D(7,8) by (simp add: wrote_def)
  qed
qed

end
