(* ===== verification/Crash.thy ===== *)
theory Crash
  imports Cache
begin

text \<open>
  The log survives a crash: the sequence of disk writes that \<^verbatim>\<open>commit\<close> makes, what
  \<^verbatim>\<open>recover_from_log\<close> makes of a disk, and that every prefix of that sequence followed by a
  recovery leaves either none or all of the transaction on the disk.
\<close>

section \<open>The writes of a commit\<close>

lemma spare_mono:
  assumes "spare n s" "cache_inv dev L cur t" "\<And>k. k < NBUF \<Longrightarrow> refcnt (bufs t ! k) \<le> refcnt (bufs s ! k)"
  shows "spare n t"
proof -
  have "refcnt (bufs t ! k) = 0" if "k < NBUF" "refcnt (bufs s ! k) = 0" for k
    using assms(3)[OF that(1)] cache_invD(6)[OF assms(2) that(1)] that(2) by simp
  then have "{i. i < NBUF \<and> refcnt (bufs s ! i) = 0} \<subseteq> {i. i < NBUF \<and> refcnt (bufs t ! i) = 0}" by blast
  then have "card {i. i < NBUF \<and> refcnt (bufs s ! i) = 0} \<le> card {i. i < NBUF \<and> refcnt (bufs t ! i) = 0}"
    by (rule card_mono[rotated]) simp
  then show ?thesis using assms(1,3) unfolding spare_def by force
qed

text \<open>
  One round of \<^verbatim>\<open>install_trans\<close>.  After a commit the home block is pinned and loses its pin; during
  recovery nothing is pinned.
\<close>

lemma install_step:
  fixes s :: "'a logst_scheme"
  assumes inv: "cache_inv dev {} cur s" "spare (if rec then 2 else 1) s" and dev: "log_dev s = dev"
    and ne: "log_slot s tail \<noteq> lh_block s ! tail" and pin: "\<not> rec \<Longrightarrow> pinned dev s (lh_block s ! tail)"
  obtains t where "install_loop cur rec (tail # tails) s = install_loop cur rec tails t"
    "wrote dev cur [(lh_block s ! tail, bview dev s (log_slot s tail))] s t" "spare (if rec then 2 else 1) t"
    "\<And>b. b \<noteq> lh_block s ! tail \<Longrightarrow> pinned dev s b \<Longrightarrow> pinned dev t b"
proof -
  let ?x = "log_slot s tail" and ?y = "lh_block s ! tail"
  have room: "refcnt (bufs s ! i) < 2 ^ 31 - 2" if "i < NBUF" for i using spareD(1)[OF inv(2) that] .
  have fx: "(\<exists>i. cached dev s ?x i) \<or> (\<exists>i<NBUF. refcnt (bufs s ! i) = 0)" using spareD(2)[OF inv(2)] by (cases rec) auto
  have fy: "(\<exists>i<NBUF. cached dev s ?y i \<and> 0 < refcnt (bufs s ! i))
      \<or> (\<exists>i<NBUF. \<exists>j<NBUF. i \<noteq> j \<and> refcnt (bufs s ! i) = 0 \<and> refcnt (bufs s ! j) = 0)"
    using pin spareD(3)[OF inv(2)] by (cases rec) (auto simp: pinned_def cached_def)
  obtain i j s1 t where R: "bread cur dev ?x s = OK (i, s1)" "bread cur dev ?y s1 = OK (j, t)" and O: "opened dev cur ?x ?y i j s t"
    and m: "same_log s s1"
    using read_two[OF inv(1) ne room fx fy] by blast
  note D = openedD[OF O]
  have un: "0 < refcnt (bufs s ! j)" if nr: "\<not> rec"
  proof -
    obtain k where k: "k < NBUF" "cached dev s ?y k" "0 < refcnt (bufs s ! k)" using pin[OF nr] by (auto simp: pinned_def cached_def)
    then have "cached dev t ?y k" using D(12) by (auto simp: keeps_pins_def cached_def)
    moreover have "cached dev t ?y j" using cache_invD(9)[OF D(4), of j] D(3,9) by (simp add: cached_def)
    ultimately show ?thesis using cache_invD(5)[OF D(4)] k(3) by blast
  qed
  obtain u where u: "rbind (bwrite cur j (set_data j (bdata (bufs t ! i)) t)) (\<lambda>s. rbind (brelse cur i (if \<not> rec then bunpin j s else s)) (brelse cur j)) = OK u"
    "cache_inv dev {} cur u" "same_log s u" "keeps_pins s u"
    "\<And>k. refcnt (bufs u ! k) = refcnt (bufs s ! k) - (if \<not> rec \<and> k = j then 1 else 0)"
    "bview dev u = (bview dev s)(blockno (bufs t ! j) := bdata (bufs t ! i))" "disk u = (disk s)(blockno (bufs t ! j) := bdata (bufs t ! i))"
    "dhist u = dhist s @ [(blockno (bufs t ! j), bdata (bufs t ! i))]"
    using overwrite_and_close[OF inv(1) O ne, of j i "\<not> rec" "bdata (bufs t ! i)"] un by blast
  show thesis
  proof (rule that[of u])
    show "install_loop cur rec (tail # tails) s = install_loop cur rec tails u"
      using R dev same_logD[OF m] u(1) by (auto simp: Let_def rbind_eq_OK)
    show "wrote dev cur [(?y, bview dev s ?x)] s u" using u(2,3,6-8) D(6,9) by (simp add: wrote_def)
    show "spare (if rec then 2 else 1) u" by (rule spare_mono[OF inv(2) u(2)]) (simp add: u(5))
    fix b assume b: "b \<noteq> ?y" "pinned dev s b"
    then obtain k where k: "k < NBUF" "cached dev s b k" "0 < refcnt (bufs s ! k)" by (auto simp: pinned_def cached_def)
    have "cached dev u b k" "cached dev t b k" using k u(4) D(12) by (auto simp: keeps_pins_def cached_def)
    moreover from this have "k \<noteq> j" using b(1) D(9) by (auto simp: cached_def)
    ultimately show "pinned dev u b" using u(5)[of k] k(3) by (auto simp: pinned_def)
  qed
qed

lemma write_log_writes:
  fixes s :: "'a logst_scheme"
  assumes "cache_inv dev {} cur s" "spare 1 s" "log_dev s = dev"
    "\<And>i j. i \<in> set tails \<Longrightarrow> j \<in> set tails \<Longrightarrow> log_slot s i \<noteq> lh_block s ! j" "\<And>i. i \<in> set tails \<Longrightarrow> pinned dev s (lh_block s ! i)"
  obtains t where "write_log_loop cur tails s = OK t" "settled dev cur s t"
    "wrote dev cur (map (\<lambda>i. (log_slot s i, bview dev s (lh_block s ! i))) tails) s t"
  using assms
proof (induction tails arbitrary: s thesis)
  case Nil
  then show ?case using settled_refl[of dev cur s] wrote_nil[of dev cur s] by simp
next
  case (Cons tail tails)
  obtain t where t: "write_log_loop cur (tail # tails) s = write_log_loop cur tails t" "settled dev cur s t"
    "wrote dev cur [(log_slot s tail, bview dev s (lh_block s ! tail))] s t"
    using write_log_step[of dev cur s tail tails] Cons.prems by auto
  note S = settled_facts[OF t(2)] and L = same_logD[OF settled_facts(2)[OF t(2)]]
  have V: "bview dev t (lh_block s ! i) = bview dev s (lh_block s ! i)" if "i \<in> set tails" for i
    using wroteD(3)[OF t(3)] Cons.prems(5)[of tail i] that by simp
  obtain u where u: "write_log_loop cur tails t = OK u" "settled dev cur t u"
    "wrote dev cur (map (\<lambda>i. (log_slot t i, bview dev t (lh_block t ! i))) tails) t u"
    using Cons.IH[of t] S Cons.prems(3-6) L by auto
  have W: "map (\<lambda>i. (log_slot t i, bview dev t (lh_block t ! i))) tails = map (\<lambda>i. (log_slot s i, bview dev s (lh_block s ! i))) tails"
    using V L by simp
  show ?case by (rule Cons.prems(1)[of u]) (use t(1) u(1) settled_trans[OF t(2) u(2)] wrote_append[OF t(3) u(3)[unfolded W]] in simp_all)
qed

lemma install_writes:
  fixes s :: "'a logst_scheme"
  assumes "cache_inv dev {} cur s" "spare (if rec then 2 else 1) s" "log_dev s = dev"
    "\<And>i j. i \<in> set tails \<Longrightarrow> j \<in> set tails \<Longrightarrow> log_slot s i \<noteq> lh_block s ! j"
    "\<not> rec \<Longrightarrow> distinct (map ((!) (lh_block s)) tails)" "\<And>i. \<not> rec \<Longrightarrow> i \<in> set tails \<Longrightarrow> pinned dev s (lh_block s ! i)"
  obtains t where "install_loop cur rec tails s = OK t" "spare (if rec then 2 else 1) t"
    "wrote dev cur (map (\<lambda>i. (lh_block s ! i, bview dev s (log_slot s i))) tails) s t"
  using assms
proof (induction tails arbitrary: s thesis)
  case Nil
  then show ?case using wrote_nil[of dev cur s] by simp
next
  case (Cons tail tails)
  obtain t where t: "install_loop cur rec (tail # tails) s = install_loop cur rec tails t"
    "wrote dev cur [(lh_block s ! tail, bview dev s (log_slot s tail))] s t" "spare (if rec then 2 else 1) t"
    "\<And>b. b \<noteq> lh_block s ! tail \<Longrightarrow> pinned dev s b \<Longrightarrow> pinned dev t b"
    using install_step[of dev cur s rec tail tails] Cons.prems(2-5,7) by auto
  note L = same_logD[OF wroteD(2)[OF t(2)]]
  have V: "bview dev t (log_slot s i) = bview dev s (log_slot s i)" if "i \<in> set tails" for i
    using wroteD(3)[OF t(2)] Cons.prems(5)[of i tail] that by simp
  have P: "pinned dev t (lh_block s ! i)" if "\<not> rec" "i \<in> set tails" for i
    using t(4) Cons.prems(6,7) that by (metis (no_types, lifting) distinct.simps(2) imageI list.set_map list.simps(9) list.set_intros(2))
  obtain u where u: "install_loop cur rec tails t = OK u" "spare (if rec then 2 else 1) u"
    "wrote dev cur (map (\<lambda>i. (lh_block t ! i, bview dev t (log_slot t i))) tails) t u"
    using Cons.IH[of t] wroteD(1)[OF t(2)] t(3) P Cons.prems(4-6) L by auto
  have W: "map (\<lambda>i. (lh_block t ! i, bview dev t (log_slot t i))) tails = map (\<lambda>i. (lh_block s ! i, bview dev s (log_slot s i))) tails"
    using V L by simp
  show ?case by (rule Cons.prems(1)[of u]) (use t(1) u(1,2) wrote_append[OF t(2) u(3)[unfolded W]] in simp_all)
qed

text \<open>One block is read, changed, written and released: this is what \<^verbatim>\<open>write_head\<close> does to the header.\<close>

lemma change_block:
  fixes s :: "'a logst_scheme"
  assumes inv: "cache_inv dev {} cur s" "spare n s" "1 \<le> n"
  obtains i s1 t where "bread cur dev b s = OK (i, s1)" "same_log s s1" "bdata (bufs s1 ! i) = bview dev s b"
    "rbind (bwrite cur i (set_data i d s1)) (brelse cur i) = OK t" "settled dev cur s t" "wrote dev cur [(b, d)] s t"
proof -
  have room: "refcnt (bufs s ! i) < 2 ^ 31 - 1" if "i < NBUF" for i using spareD(1)[OF inv(2) that] by simp
  have "(\<exists>i. cached dev s b i) \<or> (\<exists>i<NBUF. refcnt (bufs s ! i) = 0)" using spareD(2)[OF inv(2,3)] by blast
  then obtain i where i: "bread cur dev b s = OK (i, claim_buf cur dev b i s)" "claimable dev b s i"
    using bread_claims[OF inv(1) room] by blast
  let ?s1 = "claim_buf cur dev b i s" and ?s2 = "set_data i d (claim_buf cur dev b i s)"
  have lt: "i < NBUF" using i(2) by (simp add: claimable_def)
  note C = claim_inv[OF inv(1) i(2) _ room[OF lt]] and F = claim_facts[OF inv(1) i(2)]
  have inv1: "cache_inv dev {i} cur ?s1" using C(1) by simp
  note S = set_data_held[OF inv1, of i d, simplified]
  note W = bwrite_held[OF S(1), of i, simplified]
  have s2: "disk ?s2 = disk s" "dhist ?s2 = dhist s" "same_log s ?s2" "blockno (bufs ?s2 ! i) = b" "bdata (bufs ?s2 ! i) = d"
    using S(3)[of i] F(3,6,7) same_log_claim[of s cur dev b i] by (simp_all add: set_data_def upd_buf_def same_log_def)
  let ?s3 = "?s2\<lparr>disk := (disk s)(b := d), dhist := dhist s @ [(b, d)]\<rparr>"
  have b3: "bwrite cur i ?s2 = OK ?s3" "cache_inv dev {i} cur ?s3" "bview dev ?s3 = bview dev ?s2" using W s2 by simp_all
  obtain t where t: "brelse cur i ?s3 = OK t" "cache_inv dev ({i} - {i}) cur t" "bview dev t = bview dev ?s3" "disk t = disk ?s3"
    "dhist t = dhist ?s3" "same_log ?s3 t"
    "\<And>k. refcnt (bufs t ! k) = refcnt (bufs ?s3 ! k) - (if k = i then 1 else 0)"
    "\<And>k. bdev (bufs t ! k) = bdev (bufs ?s3 ! k) \<and> blockno (bufs t ! k) = blockno (bufs ?s3 ! k) \<and> bdata (bufs t ! k) = bdata (bufs ?s3 ! k)"
    using release_one[OF b3(2), of i] s2(4,5) by auto
  have sl: "same_log s t" using s2(3) t(6) by (simp add: same_log_def)
  show thesis
  proof (rule that[OF i(1) _ F(4)])
    show "rbind (bwrite cur i ?s2) (brelse cur i) = OK t" using b3(1) t(1) by simp
    have "refcnt (bufs t ! k) = refcnt (bufs s ! k)" for k
      using t(7)[of k] S(3)[of k] F(1)[of k] F(5) by (cases "k = i") simp_all
    moreover have "keeps_pins s t" using F(8) t(8) S(3) by (simp add: keeps_pins_def)
    ultimately show "settled dev cur s t" using t(2) sl by (simp add: settled_def)
    show "wrote dev cur [(b, d)] s t" using t sl b3(3) S(2) C(2) F(3) by (simp add: wrote_def)
  qed simp
qed

lemma write_head_writes:
  fixes s :: "'a logst_scheme"
  assumes "cache_inv dev {} cur s" "spare n s" "1 \<le> n" "log_dev s = dev"
  obtains t where "write_head cur s = OK t" "settled dev cur s t"
    "wrote dev cur [(of_int (log_start s), head_data (lh_n s) (lh_block s) (bview dev s (of_int (log_start s))))] s t"
proof -
  let ?b = "of_int (log_start s) :: u32"
  let ?d = "head_data (lh_n s) (lh_block s) (bview dev s ?b)"
  obtain i s1 t where "bread cur dev ?b s = OK (i, s1)" "same_log s s1" "bdata (bufs s1 ! i) = bview dev s ?b"
    "rbind (bwrite cur i (set_data i ?d s1)) (brelse cur i) = OK t" "settled dev cur s t" "wrote dev cur [(?b, ?d)] s t"
    using change_block[OF assms(1-3), of ?b ?d] by blast
  then show thesis using that[of t] assms(4) by (auto simp: write_head_def Let_def same_logD)
qed

section \<open>The log on the disk\<close>

text \<open>Block \<open>b\<close> belongs to the log whose header is block \<open>H\<close>.\<close>

definition in_log :: "u32 \<Rightarrow> u32 \<Rightarrow> bool" where
  "in_log H b \<longleftrightarrow> unat (b - H) < LOGSIZE"

abbreviation log_head :: "'a logst_scheme \<Rightarrow> u32" where
  "log_head s \<equiv> of_int (log_start s)"

abbreviation header_n :: "u8 list \<Rightarrow> int" where
  "header_n d \<equiv> sint (get32 0 d)"

abbreviation header_block :: "u8 list \<Rightarrow> nat \<Rightarrow> u32" where
  "header_block d i \<equiv> get32 (4 + 4 * i) d"

lemma log_slot_head: "log_slot s i = log_head s + (of_nat i + 1)"
  by (simp add: log_slot_def algebra_simps)

lemma unat_small_Suc: "i + 1 < LOGSIZE \<Longrightarrow> unat (of_nat i + 1 :: u32) = i + 1"
proof -
  assume "i + 1 < LOGSIZE"
  then have "unat (of_nat (i + 1) :: u32) = i + 1" by (simp only: unsigned_of_nat of_nat_id) (simp add: take_bit_nat_eq_self)
  then show ?thesis by (simp add: add.commute)
qed

lemma slot_in_log: "i + 1 < LOGSIZE \<Longrightarrow> in_log H (H + (of_nat i + 1))"
  by (simp add: in_log_def unat_small_Suc)

lemma head_in_log: "in_log H H"
  by (simp add: in_log_def)

lemma slot_not_head: "i + 1 < LOGSIZE \<Longrightarrow> H + (of_nat i + 1) \<noteq> (H :: u32)"
  using unat_small_Suc[of i] by auto

lemma slot_inj: "i + 1 < LOGSIZE \<Longrightarrow> j + 1 < LOGSIZE \<Longrightarrow> H + (of_nat i + 1) = H + (of_nat j + 1 :: u32) \<Longrightarrow> i = j"
  unfolding add_left_cancel using unat_small_Suc[of i] unat_small_Suc[of j] by presburger

lemma write_blocks_get:
  assumes "4 + 4 * m \<le> length d"
  shows "length (write_blocks [0..<m] bs d) = length d" "get32 0 (write_blocks [0..<m] bs d) = get32 0 d"
    "i < m \<Longrightarrow> header_block (write_blocks [0..<m] bs d) i = bs ! i"
proof -
  have app: "write_blocks (xs @ [i]) bs d = put32 (4 + 4 * i) (bs ! i) (write_blocks xs bs d)" for xs i d
    by (induction xs arbitrary: d) simp_all
  have "length (write_blocks [0..<m] bs d) = length d \<and> get32 0 (write_blocks [0..<m] bs d) = get32 0 d
    \<and> (\<forall>i<m. header_block (write_blocks [0..<m] bs d) i = bs ! i)"
    using assms
  proof (induction m)
    case (Suc m)
    let ?d = "write_blocks [0..<m] bs d"
    have IH: "length ?d = length d" "get32 0 ?d = get32 0 d" "\<And>i. i < m \<Longrightarrow> header_block ?d i = bs ! i" using Suc by auto
    have "header_block (put32 (4 + 4 * m) (bs ! m) ?d) i = bs ! i" if "i < Suc m" for i
    proof (cases "i = m")
      case False
      then show ?thesis using that IH Suc.prems get32_put32_other[of "4 + 4 * m" ?d "4 + 4 * i" "bs ! m"] by simp
    qed (use get32_put32_same[of "4 + 4 * m" ?d] IH(1) Suc.prems in simp)
    then show ?case using IH Suc.prems by (simp add: app get32_put32_other)
  qed simp
  then show "length (write_blocks [0..<m] bs d) = length d" "get32 0 (write_blocks [0..<m] bs d) = get32 0 d"
    "i < m \<Longrightarrow> header_block (write_blocks [0..<m] bs d) i = bs ! i" by auto
qed

lemma header_round_trip:
  assumes "length d = BSIZE" "0 \<le> n" "n < int LOGSIZE"
  shows "length (head_data n bs d) = BSIZE" "header_n (head_data n bs d) = n"
    "i < nat n \<Longrightarrow> header_block (head_data n bs d) i = bs ! i"
proof -
  have l: "4 + 4 * nat n \<le> length (put32 0 (of_int n) d)" using assms by simp
  show "length (head_data n bs d) = BSIZE" "i < nat n \<Longrightarrow> header_block (head_data n bs d) i = bs ! i"
    using write_blocks_get(1)[OF l, of bs] write_blocks_get(3)[OF l] assms(1) by (simp_all add: head_data_def)
  have "sint (of_int n :: u32) = n" using assms(2,3) by (simp add: signed_of_int signed_take_bit_int_eq_self)
  then show "header_n (head_data n bs d) = n"
    using write_blocks_get(2)[OF l, of bs] assms(1) by (simp add: head_data_def get32_put32_same)
qed

lemma read_blocks_get:
  assumes "m \<le> length bs" "i < m"
  shows "read_blocks [0..<m] d bs ! i = header_block d i"
proof -
  have app: "read_blocks (xs @ [i]) d bs = (read_blocks xs d bs)[i := header_block d i]" for xs i bs
    by (induction xs arbitrary: bs) simp_all
  have len: "length (read_blocks xs d bs) = length bs" for xs bs
    by (induction xs arbitrary: bs) simp_all
  show ?thesis using assms
    by (induction m) (auto simp: app len nth_list_update less_Suc_eq)
qed

lemma apply_writes_other: "b \<notin> fst ` set W \<Longrightarrow> apply_writes W d b = d b"
  by (induction W arbitrary: d) auto

lemma apply_writes_cong: "(b \<notin> fst ` set W \<Longrightarrow> d b = e b) \<Longrightarrow> apply_writes W d b = apply_writes W e b"
proof (induction W arbitrary: d e)
  case (Cons w W)
  obtain c v where w: "w = (c, v)" by (cases w)
  have "(d(c := v)) b = (e(c := v)) b" if "b \<notin> fst ` set W" using Cons.prems that w by (cases "b = c") simp_all
  then have "apply_writes W (d(c := v)) b = apply_writes W (e(c := v)) b" by (rule Cons.IH)
  then show ?case using w by simp
qed simp

lemma apply_writes_map:
  assumes "inj_on f (set xs)" "i \<in> set xs"
  shows "apply_writes (map (\<lambda>i. (f i, g i)) xs) d (f i) = g i"
  using assms
proof (induction xs arbitrary: d)
  case (Cons a xs)
  show ?case
  proof (cases "i \<in> set xs")
    case False
    then have "i = a" "f i \<notin> f ` set xs" using Cons.prems by (auto simp: inj_on_def)
    then show ?thesis by (simp add: apply_writes_other image_image)
  qed (use Cons in simp)
qed simp

text \<open>A prefix of the writes before all of them makes no difference.\<close>

lemma apply_writes_again: "apply_writes W (apply_writes (take k W) d) = apply_writes W d"
proof
  fix b
  have "apply_writes (take k W) d b = d b" if "b \<notin> fst ` set W"
    using that by (intro apply_writes_other) (auto dest: in_set_takeD)
  then show "apply_writes W (apply_writes (take k W) d) b = apply_writes W d b" by (rule apply_writes_cong)
qed

section \<open>What recovery does\<close>

text \<open>The disk that recovery makes, outside the log: every block the header names is overwritten by its copy in the log.\<close>

definition pending :: "u32 \<Rightarrow> (u32 \<Rightarrow> u8 list) \<Rightarrow> (u32 \<times> u8 list) list" where
  "pending H d = map (\<lambda>i. (header_block (d H) i, d (H + (of_nat i + 1)))) [0..<nat (header_n (d H))]"

definition recovered_disk :: "u32 \<Rightarrow> (u32 \<Rightarrow> u8 list) \<Rightarrow> u32 \<Rightarrow> u8 list" where
  "recovered_disk H d = apply_writes (pending H d) d"

definition header_ok :: "u32 \<Rightarrow> (u32 \<Rightarrow> u8 list) \<Rightarrow> bool" where
  "header_ok H d \<longleftrightarrow> length (d H) = BSIZE \<and> 0 \<le> header_n (d H) \<and> header_n (d H) < int LOGSIZE
     \<and> (\<forall>i<nat (header_n (d H)). \<not> in_log H (header_block (d H) i))"

text \<open>A kernel that has just been started on disk \<open>d\<close>: the cache is empty and unlocked.\<close>

definition rebooted :: "u32 \<Rightarrow> nat \<Rightarrow> u32 \<Rightarrow> (u32 \<Rightarrow> u8 list) \<Rightarrow> 'a logst_scheme \<Rightarrow> bool" where
  "rebooted dev cur H d r \<longleftrightarrow> cache_inv dev {} cur r \<and> (\<forall>i<NBUF. refcnt (bufs r ! i) = 0) \<and> disk r = d \<and> log_dev r = dev
     \<and> log_head r = H \<and> length (lh_block r) = LOGSIZE"

lemma cache_inv_fields:
  "cache_inv dev L cur (s\<lparr>lh_n := n\<rparr>) = cache_inv dev L cur s" "cache_inv dev L cur (s\<lparr>lh_block := B\<rparr>) = cache_inv dev L cur s"
  "bview dev (s\<lparr>lh_n := n\<rparr>) = bview dev s" "bview dev (s\<lparr>lh_block := B\<rparr>) = bview dev s"
  "spare k (s\<lparr>lh_n := n\<rparr>) = spare k s" "spare k (s\<lparr>lh_block := B\<rparr>) = spare k s"
  by (simp_all add: cache_inv_def bview_def spare_def holdingsleep_def fun_eq_iff cong: option.case_cong)

lemma pending_outside:
  assumes "header_ok H d" "in_log H b"
  shows "b \<notin> fst ` set (pending H d)"
  using assms by (auto simp: header_ok_def pending_def)

lemma read_head_reads:
  fixes r :: "'a logst_scheme"
  assumes "rebooted dev cur H d r" "header_ok H d"
  obtains t where "read_head cur r = OK t" "cache_inv dev {} cur t" "spare 2 t" "disk t = d" "bview dev t = d" "dhist t = dhist r"
    "log_dev t = dev" "log_start t = log_start r" "lh_n t = header_n (d H)" "\<And>i. i < nat (header_n (d H)) \<Longrightarrow> lh_block t ! i = header_block (d H) i"
proof -
  have inv: "cache_inv dev {} cur r" and rc: "\<And>i. i < NBUF \<Longrightarrow> refcnt (bufs r ! i) = 0" and
    R: "disk r = d" "log_dev r = dev" "log_head r = H" "length (lh_block r) = LOGSIZE"
    using assms(1) by (auto simp: rebooted_def)
  have bv: "bview dev r = d" using unpinned_view[OF inv] rc R(1) by (auto simp: pinned_def cached_def fun_eq_iff)
  have "\<exists>i<NBUF. refcnt (bufs r ! i) = 0" using rc[of 0] by (intro exI[of _ 0]) simp
  then obtain i where i: "bread cur dev H r = OK (i, claim_buf cur dev H i r)" "claimable dev H r i"
    using bread_claims[OF inv, of H] rc by auto
  have lt: "i < NBUF" using i(2) by (simp add: claimable_def)
  then have room: "refcnt (bufs r ! i) < 2 ^ 31 - 1" using rc by simp
  let ?s = "claim_buf cur dev H i r"
  note C = claim_inv[OF inv i(2) _ room] and F = claim_facts[OF inv i(2)]
  define t0 where "t0 = ?s\<lparr>lh_n := header_n (d H), lh_block := read_blocks [0..<nat (header_n (d H))] (d H) (lh_block ?s)\<rparr>"
  have inv1: "cache_inv dev {i} cur t0" using C(1) by (simp add: t0_def cache_inv_fields)
  have b1: "bview dev t0 = d" "bdata (bufs t0 ! i) = d H" "blockno (bufs t0 ! i) = H" "disk t0 = d" "dhist t0 = dhist r"
    "\<And>k. refcnt (bufs t0 ! k) = refcnt (bufs r ! k) + (if k = i then 1 else 0)"
    "log_start t0 = log_start r" "log_dev t0 = dev" "lh_block t0 = read_blocks [0..<nat (header_n (d H))] (d H) (lh_block r)" "lh_n t0 = header_n (d H)"
    using C(2) F(1,3-7) bv R same_logD[OF same_log_claim[of r cur dev H i]] by (simp_all add: t0_def cache_inv_fields)
  have clean: "bdata (bufs t0 ! i) = disk t0 (blockno (bufs t0 ! i))" unfolding b1(2-4) ..
  obtain t where t: "brelse cur i t0 = OK t" "cache_inv dev ({i} - {i}) cur t" "bview dev t = bview dev t0" "disk t = disk t0"
    "dhist t = dhist t0" "same_log t0 t"
    "\<And>k. refcnt (bufs t ! k) = refcnt (bufs t0 ! k) - (if k = i then 1 else 0)"
    "\<And>k. bdev (bufs t ! k) = bdev (bufs t0 ! k) \<and> blockno (bufs t ! k) = blockno (bufs t0 ! k) \<and> bdata (bufs t ! k) = bdata (bufs t0 ! k)"
    using release_one[OF inv1 insertI1 clean] by blast
  note L = same_logD[OF t(6)]
  show thesis
  proof (rule that)
    show "read_head cur r = OK t" using i(1) R(2,3) F(4) bv t(1) by (simp add: read_head_def Let_def t0_def)
    have rt: "refcnt (bufs t ! k) = 0" if "k < NBUF" for k using t(7) b1(6) rc[OF that] by simp
    then have "{k. k < NBUF \<and> refcnt (bufs t ! k) = 0} = {..<NBUF}" by auto
    then show "spare 2 t" using rt by (simp add: spare_def)
    show "lh_block t ! k = header_block (d H) k" if "k < nat (header_n (d H))" for k
    proof -
      have "nat (header_n (d H)) \<le> length (lh_block r)" using assms(2) R(4) unfolding header_ok_def by linarith
      then show ?thesis using read_blocks_get[OF _ that, of "lh_block r" "d H"] L(2) b1(9) by simp
    qed
  qed (use t b1 L in simp_all)
qed

lemma recover_writes:
  fixes r :: "'a logst_scheme"
  assumes "rebooted dev cur H d r" "header_ok H d"
  obtains u h where "recover_from_log cur r = OK u" "dhist u = dhist r @ pending H d @ [(H, h)]"
    "disk u = (recovered_disk H d)(H := h)" "length h = BSIZE" "header_n h = 0" "cache_inv dev {} cur u" "lh_n u = 0"
proof -
  obtain s where s: "read_head cur r = OK s" "cache_inv dev {} cur s" "spare 2 s" "disk s = d" "bview dev s = d" "dhist s = dhist r"
    "log_dev s = dev" "log_start s = log_start r" "lh_n s = header_n (d H)" "\<And>i. i < nat (header_n (d H)) \<Longrightarrow> lh_block s ! i = header_block (d H) i"
    using read_head_reads[OF assms] by blast
  have H: "log_head s = H" using s(8) assms(1) by (simp add: rebooted_def)
  have slot: "log_slot s i = H + (of_nat i + 1)" for i using log_slot_head[of s] H by simp
  have ne: "log_slot s i \<noteq> lh_block s ! j" if "i \<in> set [0..<nat (lh_n s)]" "j \<in> set [0..<nat (lh_n s)]" for i j
  proof -
    have "i + 1 < LOGSIZE" using that(1) assms(2) s(9) unfolding header_ok_def by auto
    then show ?thesis using slot_in_log[of i H] that(2) assms(2) s(9,10) by (auto simp: slot header_ok_def)
  qed
  obtain t where t: "install_loop cur True [0..<nat (lh_n s)] s = OK t" "spare 2 t"
    "wrote dev cur (map (\<lambda>i. (lh_block s ! i, bview dev s (log_slot s i))) [0..<nat (lh_n s)]) s t"
    using install_writes[OF s(2), of True "[0..<nat (lh_n s)]"] s(3,7) ne by auto
  have W: "map (\<lambda>i. (lh_block s ! i, bview dev s (log_slot s i))) [0..<nat (lh_n s)] = pending H d"
    using s(5,9,10) slot by (simp add: pending_def)
  note T = wroteD[OF t(3)[unfolded W]]
  note L = same_logD[OF T(2)]
  let ?t = "t\<lparr>lh_n := 0\<rparr>"
  obtain u where u: "write_head cur ?t = OK u" "settled dev cur ?t u"
    "wrote dev cur [(log_head ?t, head_data 0 (lh_block t) (bview dev ?t (log_head ?t)))] ?t u"
    using write_head_writes[of dev cur ?t 2] T(1) t(2) L(1) s(7) by (auto simp: cache_inv_fields)
  have H': "log_head t = H" using L(4) H by simp
  have "H \<notin> fst ` set (pending H d)" using pending_outside[OF assms(2) head_in_log] .
  then have old: "bview dev t H = d H" using T(3) s(5) by (simp add: apply_writes_other)
  note U = wroteD[OF u(3)]
  show thesis
  proof (rule that)
    show "recover_from_log cur r = OK u" using s(1) t(1) u(1) by (simp add: recover_from_log_def install_trans_def)
    let ?h = "head_data 0 (lh_block t) (d H)"
    show "dhist u = dhist r @ pending H d @ [(H, ?h)]" using U(5) T(5) s(6) H' old by (simp add: cache_inv_fields)
    show "disk u = (recovered_disk H d)(H := ?h)" using U(4) T(4) s(4) H' old by (simp add: recovered_disk_def cache_inv_fields)
    show "length ?h = BSIZE" "header_n ?h = 0"
      using header_round_trip(1,2)[of "d H" 0 "lh_block t"] assms(2) by (simp_all add: header_ok_def)
    show "lh_n u = 0" using same_logD(3)[OF U(2)] by simp
  qed (rule U(1))
qed

section \<open>The commit and its crashes\<close>

definition logged :: "'a logst_scheme \<Rightarrow> u32 list" where
  "logged s = take (nat (lh_n s)) (lh_block s)"

text \<open>
  What holds when the last system call of a transaction reaches \<^verbatim>\<open>commit\<close>: nothing is locked, the logged blocks
  are different, pinned in the cache and outside the log, and the log on the disk is empty.
\<close>

definition commit_ready :: "u32 \<Rightarrow> nat \<Rightarrow> 'a logst_scheme \<Rightarrow> bool" where
  "commit_ready dev cur s \<longleftrightarrow> cache_inv dev {} cur s \<and> spare 1 s \<and> log_dev s = dev \<and> 0 < lh_n s \<and> lh_n s < int LOGSIZE
     \<and> length (lh_block s) = LOGSIZE \<and> distinct (logged s) \<and> list_all (\<lambda>b. pinned dev s b \<and> \<not> in_log (log_head s) b) (logged s)
     \<and> \<not> pinned dev s (log_head s) \<and> length (disk s (log_head s)) = BSIZE \<and> header_n (disk s (log_head s)) = 0"

definition full_header :: "'a logst_scheme \<Rightarrow> u8 list" where
  "full_header s = head_data (lh_n s) (lh_block s) (disk s (log_head s))"

definition log_copies :: "u32 \<Rightarrow> 'a logst_scheme \<Rightarrow> (u32 \<times> u8 list) list" where
  "log_copies dev s = map (\<lambda>i. (log_slot s i, bview dev s (lh_block s ! i))) [0..<nat (lh_n s)]"

definition home_copies :: "u32 \<Rightarrow> 'a logst_scheme \<Rightarrow> (u32 \<times> u8 list) list" where
  "home_copies dev s = map (\<lambda>i. (lh_block s ! i, bview dev s (lh_block s ! i))) [0..<nat (lh_n s)]"

text \<open>The order of the writes: the copies in the log, the header, the blocks themselves, the empty header.\<close>

definition commit_writes :: "u32 \<Rightarrow> 'a logst_scheme \<Rightarrow> (u32 \<times> u8 list) list" where
  "commit_writes dev s = log_copies dev s @ [(log_head s, full_header s)] @ home_copies dev s
     @ [(log_head s, head_data 0 (lh_block s) (full_header s))]"

lemma commit_readyD:
  assumes "commit_ready dev cur s"
  shows "cache_inv dev {} cur s" "spare 1 s" "log_dev s = dev" "0 < lh_n s" "lh_n s < int LOGSIZE" "length (lh_block s) = LOGSIZE"
    "inj_on ((!) (lh_block s)) {..<nat (lh_n s)}" "i < nat (lh_n s) \<Longrightarrow> pinned dev s (lh_block s ! i)"
    "i < nat (lh_n s) \<Longrightarrow> \<not> in_log (log_head s) (lh_block s ! i)" "\<not> pinned dev s (log_head s)"
    "length (disk s (log_head s)) = BSIZE" "header_n (disk s (log_head s)) = 0"
    "i < nat (lh_n s) \<Longrightarrow> i + 1 < LOGSIZE" "logged s = map ((!) (lh_block s)) [0..<nat (lh_n s)]"
proof -
  show "cache_inv dev {} cur s" "spare 1 s" "log_dev s = dev" "0 < lh_n s" "lh_n s < int LOGSIZE" "length (lh_block s) = LOGSIZE"
    "\<not> pinned dev s (log_head s)" "length (disk s (log_head s)) = BSIZE" "header_n (disk s (log_head s)) = 0"
    using assms by (simp_all add: commit_ready_def)
  then have n: "nat (lh_n s) \<le> length (lh_block s)" by linarith
  show L: "logged s = map ((!) (lh_block s)) [0..<nat (lh_n s)]"
    using n by (intro nth_equalityI) (simp_all add: logged_def)
  have "distinct (logged s)" and P: "list_all (\<lambda>b. pinned dev s b \<and> \<not> in_log (log_head s) b) (logged s)"
    using assms by (simp_all add: commit_ready_def)
  then show "inj_on ((!) (lh_block s)) {..<nat (lh_n s)}" unfolding L distinct_map by (simp add: lessThan_atLeast0)
  show "i < nat (lh_n s) \<Longrightarrow> pinned dev s (lh_block s ! i)" "i < nat (lh_n s) \<Longrightarrow> \<not> in_log (log_head s) (lh_block s ! i)"
    using P unfolding L list_all_iff by auto
  show "i < nat (lh_n s) \<Longrightarrow> i + 1 < LOGSIZE" using \<open>lh_n s < int LOGSIZE\<close> by linarith
qed

lemma copies_blocks:
  assumes "commit_ready dev cur s"
  shows "b \<in> fst ` set (log_copies dev s) \<Longrightarrow> in_log (log_head s) b \<and> b \<noteq> log_head s"
    "b \<in> fst ` set (home_copies dev s) \<Longrightarrow> \<not> in_log (log_head s) b"
    "fst ` set (home_copies dev s) = set (logged s)"
  using commit_readyD[OF assms] slot_in_log slot_not_head
  by (auto simp: log_copies_def home_copies_def log_slot_head image_image)

lemma copies_values:
  assumes "commit_ready dev cur s"
  shows "i < nat (lh_n s) \<Longrightarrow> apply_writes (log_copies dev s) d (log_slot s i) = bview dev s (lh_block s ! i)"
    "b \<in> set (logged s) \<Longrightarrow> apply_writes (home_copies dev s) d b = bview dev s b"
proof -
  note R = commit_readyD[OF assms]
  have "inj_on (log_slot s) (set [0..<nat (lh_n s)])"
    using slot_inj R(13) by (auto intro!: inj_onI simp: log_slot_head)
  then show "i < nat (lh_n s) \<Longrightarrow> apply_writes (log_copies dev s) d (log_slot s i) = bview dev s (lh_block s ! i)"
    using apply_writes_map[of "log_slot s"] unfolding log_copies_def by simp
  assume "b \<in> set (logged s)"
  then obtain i where i: "i < nat (lh_n s)" "b = lh_block s ! i" using R(14) by auto
  have "inj_on ((!) (lh_block s)) (set [0..<nat (lh_n s)])" using R(7) by (simp add: lessThan_atLeast0)
  then show "apply_writes (home_copies dev s) d b = bview dev s b"
    using apply_writes_map[of "(!) (lh_block s)" "[0..<nat (lh_n s)]" i] i unfolding home_copies_def by simp
qed

lemma commit_makes_writes:
  fixes s :: "'a logst_scheme"
  assumes R: "commit_ready dev cur s"
  obtains t where "commit cur s = OK t" "dhist t = dhist s @ commit_writes dev s" "disk t = apply_writes (commit_writes dev s) (disk s)"
    "bview dev t = apply_writes (commit_writes dev s) (bview dev s)" "cache_inv dev {} cur t" "lh_n t = 0"
proof -
  note D = commit_readyD[OF R]
  let ?is = "[0..<nat (lh_n s)]" and ?H = "log_head s"
  have sep: "log_slot s i \<noteq> lh_block s ! j" if "i \<in> set ?is" "j \<in> set ?is" for i j
    using that D(9,13) slot_in_log[of i ?H] by (auto simp: log_slot_head)
  obtain a where a: "write_log_loop cur ?is s = OK a" "settled dev cur s a" "wrote dev cur (log_copies dev s) s a"
    using write_log_writes[OF D(1,2,3), of ?is] sep D(8) unfolding log_copies_def by auto
  note A = settled_facts[OF a(2)] and LA = same_logD[OF settled_facts(2)[OF a(2)]] and WA = wroteD[OF a(3)]
  have oldH: "bview dev s ?H = disk s ?H" by (rule unpinned_view[OF D(1,10)])
  have aH: "bview dev a ?H = disk s ?H"
    using WA(3) apply_writes_other[of ?H "log_copies dev s"] copies_blocks(1)[OF R] oldH by metis
  obtain b where b: "write_head cur a = OK b" "settled dev cur a b" "wrote dev cur [(?H, full_header s)] a b"
    using write_head_writes[OF A(1), of 1] A(3)[of 1] D(2,3) LA aH by (auto simp: full_header_def)
  note B = settled_facts[OF b(2)] and LB = same_logD[OF settled_facts(2)[OF b(2)]] and WB = wroteD[OF b(3)]
  have bslot: "bview dev b (log_slot s i) = bview dev s (lh_block s ! i)" if "i < nat (lh_n s)" for i
    using WB(3) WA(3) copies_values(1)[OF R that] slot_not_head[OF D(13)[OF that], of ?H] by (simp add: log_slot_head)
  have inj: "distinct (map ((!) (lh_block s)) ?is)" using D(7) by (simp add: distinct_map lessThan_atLeast0)
  have homes: "map (\<lambda>i. (lh_block b ! i, bview dev b (log_slot b i))) ?is = home_copies dev s"
    using bslot LA LB by (simp add: home_copies_def)
  have "spare 1 b" using A(3) B(3) D(2) by blast
  then obtain c where c: "install_loop cur False ?is b = OK c" "spare 1 c" "wrote dev cur (home_copies dev s) b c"
    using install_writes[OF B(1), of False ?is] B(4)[OF A(4)[OF D(8)]] sep inj LA LB D(3) homes by auto
  note WC = wroteD[OF c(3)] and LC = same_logD[OF wroteD(2)[OF c(3)]]
  have cH: "bview dev c ?H = full_header s"
  proof -
    have "?H \<notin> fst ` set (home_copies dev s)" using copies_blocks(2)[OF R] head_in_log by blast
    then have "bview dev c ?H = bview dev b ?H" unfolding WC(3) by (rule apply_writes_other)
    then show ?thesis using WB(3) by simp
  qed
  obtain t where t: "write_head cur (c\<lparr>lh_n := 0\<rparr>) = OK t" "settled dev cur (c\<lparr>lh_n := 0\<rparr>) t"
    "wrote dev cur [(?H, head_data 0 (lh_block s) (full_header s))] (c\<lparr>lh_n := 0\<rparr>) t"
    using write_head_writes[of dev cur "c\<lparr>lh_n := 0\<rparr>" 1] WC(1) c(2) LA LB LC D(3) cH by (auto simp: cache_inv_fields)
  note WT = wroteD[OF t(3)]
  show thesis
  proof (rule that)
    show "commit cur s = OK t"
      using D(4) a(1) b(1) c(1) t(1) LA LB by (simp add: commit_def write_log_def install_trans_def)
    show "dhist t = dhist s @ commit_writes dev s" using WT(5) WC(5) WB(5) WA(5) by (simp add: commit_writes_def)
    show "disk t = apply_writes (commit_writes dev s) (disk s)" using WT(4) WC(4) WB(4) WA(4) by (simp add: commit_writes_def)
    show "bview dev t = apply_writes (commit_writes dev s) (bview dev s)"
      using WT(3) WC(3) WB(3) WA(3) by (simp add: commit_writes_def cache_inv_fields)
    show "lh_n t = 0" using same_logD(3)[OF WT(2)] by simp
  qed (rule WT(1))
qed

text \<open>The disk after \<open>k\<close> of the writes of a commit, and what a recovery makes of it.\<close>

definition crash_disk :: "u32 \<Rightarrow> nat \<Rightarrow> 'a logst_scheme \<Rightarrow> u32 \<Rightarrow> u8 list" where
  "crash_disk dev k s = apply_writes (take k (commit_writes dev s)) (disk s)"

lemma pending_empty: "header_n (d H) = 0 \<Longrightarrow> pending H d = []"
  by (simp add: pending_def)

lemma full_header_facts:
  assumes "commit_ready dev cur s"
  shows "length (full_header s) = BSIZE" "header_n (full_header s) = lh_n s"
    "i < nat (lh_n s) \<Longrightarrow> header_block (full_header s) i = lh_block s ! i"
    "length (head_data 0 (lh_block s) (full_header s)) = BSIZE" "header_n (head_data 0 (lh_block s) (full_header s)) = 0"
proof -
  note D = commit_readyD[OF assms]
  have n: "0 \<le> lh_n s" using D(4) by simp
  note F = header_round_trip[OF D(11) n D(5), where bs = "lh_block s"]
  show l: "length (full_header s) = BSIZE" and "header_n (full_header s) = lh_n s"
    "i < nat (lh_n s) \<Longrightarrow> header_block (full_header s) i = lh_block s ! i" using F by (simp_all add: full_header_def)
  show "length (head_data 0 (lh_block s) (full_header s)) = BSIZE" "header_n (head_data 0 (lh_block s) (full_header s)) = 0"
    using header_round_trip(1,2)[OF l, of 0 "lh_block s"] by simp_all
qed

lemma crash_phases:
  fixes s :: "'a logst_scheme"
  defines "n \<equiv> nat (lh_n s)"
  shows "k \<le> n \<Longrightarrow> crash_disk dev k s = apply_writes (take k (log_copies dev s)) (disk s)"
    "n < k \<Longrightarrow> k \<le> 2 * n + 1 \<Longrightarrow> crash_disk dev k s
       = apply_writes (take (k - n - 1) (home_copies dev s)) ((apply_writes (log_copies dev s) (disk s))(log_head s := full_header s))"
    "2 * n + 1 < k \<Longrightarrow> crash_disk dev k s
       = (apply_writes (home_copies dev s) ((apply_writes (log_copies dev s) (disk s))(log_head s := full_header s)))
           (log_head s := head_data 0 (lh_block s) (full_header s))"
proof -
  have l: "length (log_copies dev s) = n" "length (home_copies dev s) = n" by (simp_all add: n_def log_copies_def home_copies_def)
  show "k \<le> n \<Longrightarrow> crash_disk dev k s = apply_writes (take k (log_copies dev s)) (disk s)"
    by (simp add: crash_disk_def commit_writes_def l)
  show "n < k \<Longrightarrow> k \<le> 2 * n + 1 \<Longrightarrow> crash_disk dev k s
       = apply_writes (take (k - n - 1) (home_copies dev s)) ((apply_writes (log_copies dev s) (disk s))(log_head s := full_header s))"
    by (cases "k - n") (simp_all add: crash_disk_def commit_writes_def l)
  show "2 * n + 1 < k \<Longrightarrow> crash_disk dev k s
       = (apply_writes (home_copies dev s) ((apply_writes (log_copies dev s) (disk s))(log_head s := full_header s)))
           (log_head s := head_data 0 (lh_block s) (full_header s))"
    by (simp add: crash_disk_def commit_writes_def l)
qed

lemma outside_installed:
  assumes R: "commit_ready dev cur s" and b: "\<not> in_log (log_head s) b"
  shows "apply_writes (home_copies dev s) ((apply_writes (log_copies dev s) (disk s))(log_head s := v)) b
     = (if b \<in> set (logged s) then bview dev s b else disk s b)"
proof (cases "b \<in> set (logged s)")
  case False
  have n: "b \<notin> fst ` set (home_copies dev s)" "b \<notin> fst ` set (log_copies dev s)" "b \<noteq> log_head s"
    using False b copies_blocks[OF R] head_in_log by blast+
  show ?thesis using False n(3) apply_writes_other[OF n(1)] apply_writes_other[OF n(2)] by simp
qed (simp add: copies_values(2)[OF R])

lemma crash_recovered:
  assumes R: "commit_ready dev cur s"
  shows "header_ok (log_head s) (crash_disk dev k s)
    \<and> (\<forall>b. \<not> in_log (log_head s) b \<longrightarrow> recovered_disk (log_head s) (crash_disk dev k s) b
          = (if nat (lh_n s) < k \<and> b \<in> set (logged s) then bview dev s b else disk s b))"
proof -
  note D = commit_readyD[OF R] and F = full_header_facts[OF R] and C = copies_blocks[OF R]
  let ?H = "log_head s" and ?d = "crash_disk dev k s" and ?n = "nat (lh_n s)"
  let ?e = "(apply_writes (log_copies dev s) (disk s))(?H := full_header s)"
  have part: "b \<notin> fst ` set W \<Longrightarrow> b \<notin> fst ` set (take j W)" for b :: u32 and W :: "(u32 \<times> u8 list) list" and j
    using set_take_subset[of j W] by blast
  consider "k \<le> ?n" | "?n < k" "k \<le> 2 * ?n + 1" | "2 * ?n + 1 < k" by linarith
  then show ?thesis
  proof cases
    case 1
    have o: "?d b = disk s b" if "b \<notin> fst ` set (log_copies dev s)" for b
      unfolding crash_phases(1)[OF 1] by (rule apply_writes_other[OF part[OF that]])
    have H: "?d ?H = disk s ?H" using o C(1) by blast
    then have "header_ok ?H ?d" using D(11,12) by (simp add: header_ok_def)
    moreover have "recovered_disk ?H ?d = ?d" using H D(12) by (simp add: recovered_disk_def pending_empty)
    ultimately show ?thesis using 1 o C(1) by auto
  next
    case 2
    note P = crash_phases(2)[OF 2]
    have o: "?d b = ?e b" if "in_log ?H b" for b
      unfolding P by (rule apply_writes_other[OF part]) (use C(2) that in blast)
    have H: "?d ?H = full_header s" using o[OF head_in_log] by simp
    have sl: "?d (log_slot s i) = bview dev s (lh_block s ! i)" if "i < ?n" for i
      using o[OF slot_in_log[OF D(13)[OF that]]] copies_values(1)[OF R that] slot_not_head[OF D(13)[OF that], of ?H]
      by (simp add: log_slot_head)
    have "header_ok ?H ?d" using H F(1-3) D(4,5,9) by (simp add: header_ok_def)
    moreover have pend: "pending ?H ?d = home_copies dev s" using H F(2,3) sl by (simp add: pending_def home_copies_def log_slot_head)
    have "recovered_disk ?H ?d = apply_writes (home_copies dev s) ?e"
      unfolding recovered_disk_def pend unfolding P by (rule apply_writes_again)
    ultimately show ?thesis using outside_installed[OF R] 2(1) by simp
  next
    case 3
    note P = crash_phases(3)[OF 3]
    have H: "?d ?H = head_data 0 (lh_block s) (full_header s)" unfolding P by simp
    then have "header_ok ?H ?d" using F(4,5) by (simp add: header_ok_def)
    moreover have "recovered_disk ?H ?d = ?d" using H F(5) by (simp add: recovered_disk_def pending_empty)
    moreover have "?d b = apply_writes (home_copies dev s) ?e b" if "\<not> in_log ?H b" for b
      unfolding P using that head_in_log[of ?H] by auto
    ultimately show ?thesis using outside_installed[OF R] 3 by auto
  qed
qed

text \<open>
  C19: Crash atomicity of the log.  A commit of at most 29 different blocks returns, and its disk writes are
  exactly the copies to the log, the header, the blocks and the empty header, in this order.  Whatever
  number \<open>k\<close> of these writes reached the disk, a kernel that starts on that disk recovers,
  leaves an empty log, and the blocks outside the log are all as before the
  transaction (if the header had not been written) or all as the transaction made them.
\<close>

theorem commit_crash_atomic:
  fixes s :: "'a logst_scheme" and r :: "'b logst_scheme"
  assumes "commit_ready dev cur s" "rebooted dev cur' (log_head s) (crash_disk dev k s) r"
  shows "\<exists>t u. commit cur s = OK t \<and> dhist t = dhist s @ commit_writes dev s \<and> disk t = apply_writes (commit_writes dev s) (disk s)
    \<and> recover_from_log cur' r = OK u \<and> header_n (disk u (log_head s)) = 0
    \<and> (\<forall>b. in_log (log_head s) b \<or> disk u b = (if nat (lh_n s) < k \<and> b \<in> set (logged s) then bview dev s b else disk s b))"
proof -
  note C = crash_recovered[OF assms(1), of k]
  obtain t where "commit cur s = OK t" "dhist t = dhist s @ commit_writes dev s" "disk t = apply_writes (commit_writes dev s) (disk s)"
    using commit_makes_writes[OF assms(1)] by blast
  moreover obtain u h where "recover_from_log cur' r = OK u" "disk u = (recovered_disk (log_head s) (crash_disk dev k s))(log_head s := h)"
    "header_n h = 0" using recover_writes[OF assms(2)] C by blast
  ultimately show ?thesis using C head_in_log[of "log_head s"] by (intro exI[of _ t] exI[of _ u]) auto
qed

text \<open>
  C20: Recovery may itself be interrupted.  On a disk whose log header names blocks outside the log, recovery
  copies the logged blocks to their homes and then empties the header; after any number \<open>k\<close> of these writes a
  second recovery succeeds and ends with the same contents of every block but the header.
\<close>

theorem recovery_restartable:
  fixes r :: "'a logst_scheme" and r' :: "'b logst_scheme"
  assumes "rebooted dev cur H d r" "header_ok H d"
  shows "\<exists>u W. recover_from_log cur r = OK u \<and> dhist u = dhist r @ W \<and> header_n (disk u H) = 0 \<and> disk u = apply_writes W d
    \<and> (rebooted dev cur' H (apply_writes (take k W) d) r' \<longrightarrow> (\<exists>v. recover_from_log cur' r' = OK v \<and> (disk v)(H := disk u H) = disk u))"
proof -
  obtain u h where u: "recover_from_log cur r = OK u" "dhist u = dhist r @ pending H d @ [(H, h)]"
    "disk u = (recovered_disk H d)(H := h)" "length h = BSIZE" "header_n h = 0"
    using recover_writes[OF assms] by blast
  let ?W = "pending H d @ [(H, h)]" and ?d = "apply_writes (take k (pending H d @ [(H, h)])) d"
  have "header_ok H ?d \<and> (recovered_disk H ?d)(H := h) = disk u"
  proof (cases "k \<le> length (pending H d)")
    case True
    have o: "?d b = d b" if "in_log H b" for b
      using pending_outside[OF assms(2) that] True by (auto intro!: apply_writes_other dest: in_set_takeD)
    have H: "?d H = d H" by (rule o[OF head_in_log])
    have "?d (H + (of_nat i + 1)) = d (H + (of_nat i + 1))" if "i < nat (header_n (d H))" for i
      by (rule o[OF slot_in_log]) (use that assms(2) in \<open>auto simp: header_ok_def\<close>)
    then have "pending H ?d = pending H d" using H by (simp add: pending_def)
    then have "recovered_disk H ?d = recovered_disk H d" using True by (simp add: recovered_disk_def apply_writes_again)
    moreover have "header_ok H ?d" using assms(2) H by (simp add: header_ok_def)
    ultimately show ?thesis using u(3) by simp
  next
    case False
    then have d: "?d = disk u" using u(3) by (simp add: recovered_disk_def)
    then have "?d H = h" using u(3) by simp
    then show ?thesis using d u(3-5) by (simp add: header_ok_def recovered_disk_def pending_empty)
  qed
  then have "\<exists>v. recover_from_log cur' r' = OK v \<and> (disk v)(H := disk u H) = disk u" if "rebooted dev cur' H ?d r'"
    using recover_writes[OF that] u(3) by (metis fun_upd_same fun_upd_upd)
  then show ?thesis using u by (intro exI[of _ u] exI[of _ ?W]) (auto simp: recovered_disk_def)
qed

section \<open>An example\<close>

text \<open>A transaction that has changed block 40 on a zeroed disk.\<close>

definition one_logged :: logst where
  "one_logged = (boot_log RR)\<lparr>bufs := (replicate 30 zero_buf)[0 := zero_buf\<lparr>valid := True, bdev := 1, blockno := 40, refcnt := 1,
     bdata := replicate 1024 1\<rparr>], lh_n := 1, lh_block := 40 # replicate 29 0\<rparr>"

lemma one_logged_simps [simp]:
  "i < 30 \<Longrightarrow> bufs one_logged ! i = (if i = 0 then zero_buf\<lparr>valid := True, bdev := 1, blockno := 40, refcnt := 1,
     bdata := replicate 1024 1\<rparr> else zero_buf)"
  "length (bufs one_logged) = 30" "lru one_logged = rev [0..<30]" "disk one_logged = (\<lambda>_. replicate 1024 0)" "log_start one_logged = 2"
  "log_dev one_logged = 1" "lh_n one_logged = 1" "lh_block one_logged = 40 # replicate 29 0"
  by (simp_all add: one_logged_def nth_list_update)

lemma get32_zero: "get32 0 (replicate 1024 0) = 0"
proof -
  have "replicate 4 (0 :: u8) = [0, 0, 0, 0]" by (simp add: numeral_eq_Suc)
  then show ?thesis by (simp add: get32_def slice_def)
qed

lemma one_logged_ready: "commit_ready 1 0 one_logged"
proof -
  have inv: "cache_inv 1 {} 0 one_logged"
    unfolding cache_inv_def by (auto simp: zero_buf_def initsleeplock_def)
  have "{i. i < NBUF \<and> refcnt (bufs one_logged ! i) = 0} = {1..<30}" by (auto simp: zero_buf_def split: if_splits)
  then have sp: "spare 1 one_logged" by (simp add: spare_def zero_buf_def)
  have pin: "pinned 1 one_logged 40" unfolding pinned_def by (intro exI[of _ 0]) (simp add: cached_def)
  have npin: "\<not> pinned 1 one_logged 2" by (auto simp: pinned_def cached_def zero_buf_def split: if_splits)
  show ?thesis
    unfolding commit_ready_def using inv sp pin npin by (simp add: logged_def in_log_def get32_zero)
qed

lemma boot_log_rebooted: "rebooted 1 0 2 d ((boot_log RR)\<lparr>disk := d\<rparr>)"
proof -
  have "cache_inv 1 {} 0 ((boot_log RR)\<lparr>disk := d\<rparr>)"
    unfolding cache_inv_def by (auto simp: zero_buf_def initsleeplock_def)
  then show ?thesis by (simp add: rebooted_def zero_buf_def)
qed

lemma one_logged_view: "bview 1 one_logged 40 = replicate 1024 1"
proof -
  have "cached 1 one_logged 40 0" "valid (bufs one_logged ! 0)" by (simp_all add: cached_def)
  then show ?thesis using bview_cached[of 1 "{}" 0 one_logged 40 0] one_logged_ready by (simp add: commit_ready_def)
qed

theorem commit_crash_atomic_witness:
  "commit_ready 1 0 one_logged \<and> rebooted 1 0 2 (crash_disk 1 2 one_logged) ((boot_log RR)\<lparr>disk := crash_disk 1 2 one_logged\<rparr>)
   \<and> (\<exists>t u. commit 0 one_logged = OK t \<and> recover_from_log 0 ((boot_log RR)\<lparr>disk := crash_disk 1 2 one_logged\<rparr>) = OK u
        \<and> disk u 40 = replicate 1024 1 \<and> disk u 50 = replicate 1024 0)"
proof -
  note R = boot_log_rebooted[of "crash_disk 1 2 one_logged"]
  obtain t u where "commit 0 one_logged = OK t" "recover_from_log 0 ((boot_log RR)\<lparr>disk := crash_disk 1 2 one_logged\<rparr>) = OK u"
    and V: "\<And>b. in_log 2 b \<or> disk u b = (if nat (lh_n one_logged) < 2 \<and> b \<in> set (logged one_logged) then bview 1 one_logged b else disk one_logged b)"
    using commit_crash_atomic[OF one_logged_ready, of 0 2 "(boot_log RR)\<lparr>disk := crash_disk 1 2 one_logged\<rparr>"] R by auto
  moreover have "disk u 40 = replicate 1024 1" using V[of 40] one_logged_view by (simp add: in_log_def logged_def)
  moreover have "disk u 50 = replicate 1024 0" using V[of 50] by (simp add: in_log_def logged_def)
  ultimately show ?thesis using one_logged_ready R by blast
qed

theorem recovery_restartable_witness:
  "rebooted 1 0 2 (crash_disk 1 2 one_logged) ((boot_log RR)\<lparr>disk := crash_disk 1 2 one_logged\<rparr>) \<and> header_ok 2 (crash_disk 1 2 one_logged)
   \<and> (\<exists>u. recover_from_log 0 ((boot_log RR)\<lparr>disk := crash_disk 1 2 one_logged\<rparr>) = OK u \<and> header_n (disk u 2) = 0)"
proof -
  have h: "header_ok 2 (crash_disk 1 2 one_logged)" using crash_recovered[OF one_logged_ready, of 2] by simp
  show ?thesis using recovery_restartable[OF boot_log_rebooted h] boot_log_rebooted h by blast
qed

end
