(* ===== verification/Asm.thy ===== *)
theory Asm
  imports Pagetree Process
begin

text \<open>
  The assembly code of the kernel: \<^verbatim>\<open>kernel/trampoline.S\<close> (entering and leaving the kernel from user
  space), \<^verbatim>\<open>kernel/swtch.S\<close>, \<^verbatim>\<open>kernel/kernelvec.S\<close> and \<^verbatim>\<open>kernel/entry.S\<close>.  Each routine is
  its list of instructions, run by \<open>exec_asm\<close> on the registers of a hart and on physical memory through the
  Sv39 translation that \<^verbatim>\<open>satp\<close> selects.  The translation is always the current one, so
  \<^verbatim>\<open>sfence.vma\<close> does nothing.
\<close>

section \<open>Registers and instructions\<close>

datatype reg = Ra | Sp | Gp | Tp | T0 | T1 | T2 | T3 | T4 | T5 | T6 | S0 | S1 | S2 | S3 | S4 | S5 | S6 | S7 | S8 | S9 | S10 | S11
  | A0 | A1 | A2 | A3 | A4 | A5 | A6 | A7

datatype csr = Sscratch | Satp | Mscratch | Sip | Mhartid

datatype instr = SD reg nat reg | LD reg nat reg | LI reg u64 | LA reg string | ADDI reg reg u64 | ADD reg reg reg | MUL reg reg reg
  | CSRW csr reg | CSRR reg csr | CSRRW reg csr reg | SFENCE_VMA | CALL string | JR reg | RET | SRET | MRET

text \<open>How a routine is left.\<close>

datatype leave = Jump u64 | By_sret | By_mret

record hart =
  xr :: "reg \<Rightarrow> u64"
  csrs :: "csr \<Rightarrow> u64"
  hmem :: memory
  mmode :: bool

section \<open>Address translation\<close>

text \<open>
  The physical address of an aligned access that needs permission \<open>perm\<close>.  Machine mode and a zero mode field of
  \<^verbatim>\<open>satp\<close> use physical addresses; the supervisor may not touch user pages.
\<close>

definition satp_table :: "u64 \<Rightarrow> u64" where
  "satp_table v = push_bit 12 (take_bit 44 v)"

definition translate :: "u64 \<Rightarrow> hart \<Rightarrow> u64 \<Rightarrow> u64 option" where
  "translate perm h va =
     (let v = csrs h Satp in
      if va AND 7 \<noteq> 0 then None
      else if mmode h \<or> drop_bit 60 v = 0 then Some va
      else let e = entry (hmem h) (satp_table v) va in
        if va \<ge> MAXVA \<or> e AND PTE_V = 0 \<or> e AND PTE_U \<noteq> 0 \<or> e AND perm = 0 then None
        else Some (PTE2PA e + (va AND 0xFFF)))"

section \<open>Execution\<close>

text \<open>\<open>adr\<close> gives the addresses of linker symbols and \<open>call\<close> the effect of C functions.\<close>

definition set_reg :: "reg \<Rightarrow> u64 \<Rightarrow> hart \<Rightarrow> hart" where
  "set_reg r v h = h\<lparr>xr := (xr h)(r := v)\<rparr>"

definition set_csr :: "csr \<Rightarrow> u64 \<Rightarrow> hart \<Rightarrow> hart" where
  "set_csr c v h = h\<lparr>csrs := (csrs h)(c := v)\<rparr>"

fun exec_asm :: "(string \<Rightarrow> u64) \<Rightarrow> (string \<Rightarrow> hart \<Rightarrow> hart) \<Rightarrow> instr list \<Rightarrow> hart \<Rightarrow> (leave \<times> hart) option" where
  "exec_asm adr call [] h = None"
| "exec_asm adr call (i # is) h = (case i of
     SD r k b \<Rightarrow> (case translate PTE_W h (xr h b + of_nat k) of None \<Rightarrow> None
       | Some a \<Rightarrow> exec_asm adr call is (h\<lparr>hmem := store64 (hmem h) a (xr h r)\<rparr>))
   | LD r k b \<Rightarrow> (case translate PTE_R h (xr h b + of_nat k) of None \<Rightarrow> None
       | Some a \<Rightarrow> exec_asm adr call is (set_reg r (load64 (hmem h) a) h))
   | LI r v \<Rightarrow> exec_asm adr call is (set_reg r v h)
   | LA r l \<Rightarrow> exec_asm adr call is (set_reg r (adr l) h)
   | ADDI r x v \<Rightarrow> exec_asm adr call is (set_reg r (xr h x + v) h)
   | ADD r x y \<Rightarrow> exec_asm adr call is (set_reg r (xr h x + xr h y) h)
   | MUL r x y \<Rightarrow> exec_asm adr call is (set_reg r (xr h x * xr h y) h)
   | CSRW c r \<Rightarrow> exec_asm adr call is (set_csr c (xr h r) h)
   | CSRR r c \<Rightarrow> exec_asm adr call is (set_reg r (csrs h c) h)
   | CSRRW r c x \<Rightarrow> exec_asm adr call is (set_csr c (xr h x) (set_reg r (csrs h c) h))
   | SFENCE_VMA \<Rightarrow> exec_asm adr call is h
   | CALL f \<Rightarrow> exec_asm adr call is (call f h)
   | JR r \<Rightarrow> Some (Jump (xr h r), h)
   | RET \<Rightarrow> Some (Jump (xr h Ra), h)
   | SRET \<Rightarrow> Some (By_sret, h)
   | MRET \<Rightarrow> Some (By_mret, h))"

section \<open>The routines\<close>

definition uservec :: "instr list" where
  "uservec =
    [CSRW Sscratch A0, LI A0 TRAPFRAME, SD Ra 40 A0, SD Sp 48 A0, SD Gp 56 A0, SD Tp 64 A0, SD T0 72 A0,
     SD T1 80 A0, SD T2 88 A0, SD S0 96 A0, SD S1 104 A0, SD A1 120 A0, SD A2 128 A0, SD A3 136 A0, SD A4 144 A0,
     SD A5 152 A0, SD A6 160 A0, SD A7 168 A0, SD S2 176 A0, SD S3 184 A0, SD S4 192 A0, SD S5 200 A0, SD S6 208 A0,
     SD S7 216 A0, SD S8 224 A0, SD S9 232 A0, SD S10 240 A0, SD S11 248 A0, SD T3 256 A0, SD T4 264 A0,
     SD T5 272 A0, SD T6 280 A0, CSRR T0 Sscratch, SD T0 112 A0, LD Sp 8 A0, LD Tp 32 A0, LD T0 16 A0, LD T1 0 A0,
     SFENCE_VMA, CSRW Satp T1, SFENCE_VMA, JR T0]"

definition userret :: "instr list" where
  "userret =
    [SFENCE_VMA, CSRW Satp A0, SFENCE_VMA, LI A0 TRAPFRAME, LD Ra 40 A0, LD Sp 48 A0, LD Gp 56 A0,
     LD Tp 64 A0, LD T0 72 A0, LD T1 80 A0, LD T2 88 A0, LD S0 96 A0, LD S1 104 A0, LD A1 120 A0, LD A2 128 A0,
     LD A3 136 A0, LD A4 144 A0, LD A5 152 A0, LD A6 160 A0, LD A7 168 A0, LD S2 176 A0, LD S3 184 A0, LD S4 192 A0,
     LD S5 200 A0, LD S6 208 A0, LD S7 216 A0, LD S8 224 A0, LD S9 232 A0, LD S10 240 A0, LD S11 248 A0,
     LD T3 256 A0, LD T4 264 A0, LD T5 272 A0, LD T6 280 A0, LD A0 112 A0, SRET]"

definition swtch :: "instr list" where
  "swtch =
    [SD Ra 0 A0, SD Sp 8 A0, SD S0 16 A0, SD S1 24 A0, SD S2 32 A0, SD S3 40 A0, SD S4 48 A0, SD S5 56 A0,
     SD S6 64 A0, SD S7 72 A0, SD S8 80 A0, SD S9 88 A0, SD S10 96 A0, SD S11 104 A0, LD Ra 0 A1, LD Sp 8 A1,
     LD S0 16 A1, LD S1 24 A1, LD S2 32 A1, LD S3 40 A1, LD S4 48 A1, LD S5 56 A1, LD S6 64 A1, LD S7 72 A1,
     LD S8 80 A1, LD S9 88 A1, LD S10 96 A1, LD S11 104 A1, RET]"

definition kernelvec :: "instr list" where
  "kernelvec =
    [ADDI Sp Sp (- 256), SD Ra 0 Sp, SD Sp 8 Sp, SD Gp 16 Sp, SD Tp 24 Sp, SD T0 32 Sp, SD T1 40 Sp, SD T2 48 Sp,
     SD S0 56 Sp, SD S1 64 Sp, SD A0 72 Sp, SD A1 80 Sp, SD A2 88 Sp, SD A3 96 Sp, SD A4 104 Sp, SD A5 112 Sp,
     SD A6 120 Sp, SD A7 128 Sp, SD S2 136 Sp, SD S3 144 Sp, SD S4 152 Sp, SD S5 160 Sp, SD S6 168 Sp, SD S7 176 Sp,
     SD S8 184 Sp, SD S9 192 Sp, SD S10 200 Sp, SD S11 208 Sp, SD T3 216 Sp, SD T4 224 Sp, SD T5 232 Sp,
     SD T6 240 Sp, CALL ''kerneltrap'', LD Ra 0 Sp, LD Sp 8 Sp, LD Gp 16 Sp, LD T0 32 Sp, LD T1 40 Sp, LD T2 48 Sp,
     LD S0 56 Sp, LD S1 64 Sp, LD A0 72 Sp, LD A1 80 Sp, LD A2 88 Sp, LD A3 96 Sp, LD A4 104 Sp, LD A5 112 Sp,
     LD A6 120 Sp, LD A7 128 Sp, LD S2 136 Sp, LD S3 144 Sp, LD S4 152 Sp, LD S5 160 Sp, LD S6 168 Sp, LD S7 176 Sp,
     LD S8 184 Sp, LD S9 192 Sp, LD S10 200 Sp, LD S11 208 Sp, LD T3 216 Sp, LD T4 224 Sp, LD T5 232 Sp,
     LD T6 240 Sp, ADDI Sp Sp 256, SRET]"

definition timervec :: "instr list" where
  "timervec =
    [CSRRW A0 Mscratch A0, SD A1 0 A0, SD A2 8 A0, SD A3 16 A0, LD A1 24 A0, LD A2 32 A0, LD A3 0 A1, ADD A3 A3 A2,
     SD A3 0 A1, LI A1 2, CSRW Sip A1, LD A3 16 A0, LD A2 8 A0, LD A1 0 A0, CSRRW A0 Mscratch A0, MRET]"

text \<open>\<^verbatim>\<open>start\<close> does not return; the loop after the call is not reached.\<close>

definition entry_code :: "instr list" where
  "entry_code =
    [LA Sp ''stack0'', LI A0 4096, CSRR A1 Mhartid, ADDI A1 A1 1, MUL A0 A0 A1, ADD Sp Sp A0, CALL ''start'']"

section \<open>Saving and restoring\<close>

text \<open>Offsets of different words do not overlap.\<close>

lemma off_unique:
  assumes "in_range (b + of_nat k) 8 x" "in_range (b + of_nat k') 8 x" "k mod 8 = 0" "k' mod 8 = 0" "k < 2 ^ 32" "k' < 2 ^ 32"
  shows "k = k'"
proof -
  define c where "c = unat (x - (b + of_nat k))"
  define c' where "c' = unat (x - (b + of_nat k'))"
  have c: "c < 8" "c' < 8" using assms(1,2) by (simp_all add: c_def c'_def in_range_def)
  have "x - b = of_nat (k + c)" "x - b = of_nat (k' + c')" by (simp_all add: c_def c'_def)
  then have "unat (of_nat (k + c) :: u64) = unat (of_nat (k' + c') :: u64)" by simp
  moreover have "k + c < 2 ^ 64" "k' + c' < 2 ^ 64" using assms(5,6) c by simp_all
  ultimately have "k + c = k' + c'" unfolding unsigned_of_nat of_nat_id by (simp add: take_bit_nat_eq_self)
  then show ?thesis using assms(3,4) c by presburger
qed

definition save_words :: "(reg \<times> nat) list \<Rightarrow> (reg \<Rightarrow> u64) \<Rightarrow> u64 \<Rightarrow> memory \<Rightarrow> memory" where
  "save_words tbl x a m = fold (\<lambda>(r, k) m. store64 m (a + of_nat k) (x r)) tbl m"

text \<open>A table of registers and offsets below \<open>n\<close>.\<close>

definition table_ok :: "nat \<Rightarrow> (reg \<times> nat) list \<Rightarrow> bool" where
  "table_ok n tbl \<longleftrightarrow> n < 2 ^ 32 \<and> list_all (\<lambda>(r, k). k mod 8 = 0 \<and> k + 8 \<le> n) tbl"

lemma in_range_off: "in_range (a + of_nat k) 8 x \<Longrightarrow> k + 8 \<le> n \<Longrightarrow> n < 2 ^ 32 \<Longrightarrow> in_range a n x"
proof -
  assume a: "in_range (a + of_nat k) 8 x" "k + 8 \<le> n" "n < 2 ^ 32"
  define c where "c = unat (x - (a + of_nat k))"
  have c: "c < 8" using a(1) by (simp add: c_def in_range_def)
  have "x - a = of_nat (k + c)" by (simp add: c_def)
  then have "unat (x - a) = unat (of_nat (k + c) :: u64)" by simp
  also have "\<dots> = k + c" unfolding unsigned_of_nat of_nat_id using a c by (intro take_bit_nat_eq_self) simp
  finally show ?thesis using a c by (simp add: in_range_def)
qed

lemma save_words_other:
  assumes "table_ok n tbl" "\<not> in_range a n y"
  shows "save_words tbl x a m y = m y"
  using assms
proof (induction tbl arbitrary: m)
  case (Cons e tbl)
  obtain r k where e: "e = (r, k)" by (cases e)
  then have "\<not> in_range (a + of_nat k) 8 y" using Cons.prems in_range_off[of a k y n] by (auto simp: table_ok_def)
  then show ?case using Cons e by (simp add: save_words_def table_ok_def store64_other)
qed (simp add: save_words_def)

lemma save_words_unsaved:
  assumes "table_ok n tbl" "k \<notin> snd ` set tbl" "k mod 8 = 0" "k < 2 ^ 32"
  shows "load64 (save_words tbl x a m) (a + of_nat k) = load64 m (a + of_nat k)"
  using assms(1,2)
proof (induction tbl arbitrary: m)
  case (Cons e tbl)
  obtain r j where e: "e = (r, j)" by (cases e)
  have "ranges_disjoint (a + of_nat j) 8 (a + of_nat k) 8"
    using off_unique[of a j _ k] Cons.prems e assms(3,4) by (auto simp: ranges_disjoint_def table_ok_def)
  then show ?case using Cons e by (simp add: save_words_def table_ok_def load64_store64_disjoint)
qed (simp add: save_words_def)

lemma save_words_saved:
  assumes "table_ok n tbl" "distinct (map snd tbl)" "(r, k) \<in> set tbl"
  shows "load64 (save_words tbl x a m) (a + of_nat k) = x r"
  using assms
proof (induction tbl arbitrary: m)
  case (Cons e tbl)
  obtain r' j where e: "e = (r', j)" by (cases e)
  show ?case
  proof (cases "(r, k) = e")
    case True
    have "k \<notin> snd ` set tbl" using Cons.prems(2) e True by simp
    moreover have "k mod 8 = 0" "k < 2 ^ 32" "table_ok n tbl" using Cons.prems(1) True by (auto simp: table_ok_def)
    ultimately show ?thesis using True save_words_unsaved[of n tbl k x a] e by (simp add: save_words_def load64_store64_same)
  next
    case False
    then have "(r, k) \<in> set tbl" "table_ok n tbl" "distinct (map snd tbl)" using Cons.prems by (auto simp: table_ok_def)
    then show ?thesis using Cons.IH[of "store64 m (a + of_nat j) (x r')"] e by (simp add: save_words_def)
  qed
qed simp

definition load_words :: "(reg \<times> nat) list \<Rightarrow> memory \<Rightarrow> u64 \<Rightarrow> (reg \<Rightarrow> u64) \<Rightarrow> reg \<Rightarrow> u64" where
  "load_words tbl m a x = fold (\<lambda>(r, k) x. x(r := load64 m (a + of_nat k))) tbl x"

lemma load_words_other: "r \<notin> fst ` set tbl \<Longrightarrow> load_words tbl m a x r = x r"
  by (induction tbl arbitrary: x) (auto simp: load_words_def)

lemma load_words_loaded:
  "distinct (map fst tbl) \<Longrightarrow> (r, k) \<in> set tbl \<Longrightarrow> load_words tbl m a x r = load64 m (a + of_nat k)"
proof (induction tbl arbitrary: x)
  case (Cons e tbl)
  obtain r' j where e: "e = (r', j)" by (cases e)
  show ?case
  proof (cases "(r, k) = e")
    case True
    then have "r \<notin> fst ` set tbl" using Cons.prems(1) e by simp
    then show ?thesis using load_words_other[of r tbl m a] True e by (simp add: load_words_def)
  next
    case False
    then have "(r, k) \<in> set tbl" "distinct (map fst tbl)" using Cons.prems by auto
    then show ?thesis using Cons.IH e by (simp add: load_words_def)
  qed
qed simp

text \<open>
  The words from virtual address \<open>va\<close> are the words from physical address \<open>pa\<close>, also after
  they have been written.
\<close>

definition maps_words :: "hart \<Rightarrow> u64 \<Rightarrow> u64 \<Rightarrow> nat \<Rightarrow> bool" where
  "maps_words h va pa n \<longleftrightarrow> (\<forall>m. (\<forall>x. \<not> in_range pa n x \<longrightarrow> m x = hmem h x) \<longrightarrow>
     (\<forall>k perm. k mod 8 = 0 \<longrightarrow> k + 8 \<le> n \<longrightarrow> perm = PTE_R \<or> perm = PTE_W \<longrightarrow>
        translate perm (h\<lparr>hmem := m\<rparr>) (va + of_nat k) = Some (pa + of_nat k)))"

lemma maps_wordsD:
  assumes "maps_words h va pa n" "k mod 8 = 0" "k + 8 \<le> n" "perm = PTE_R \<or> perm = PTE_W"
  shows "translate perm h (va + of_nat k) = Some (pa + of_nat k)"
proof -
  have "k mod 8 = 0 \<longrightarrow> k + 8 \<le> n \<longrightarrow> perm = PTE_R \<or> perm = PTE_W \<longrightarrow> translate perm (h\<lparr>hmem := hmem h\<rparr>) (va + of_nat k) = Some (pa + of_nat k)"
    using assms(1)[unfolded maps_words_def, THEN spec, of "hmem h"] by simp
  then show ?thesis using assms(2-4) by simp
qed

lemma translate_cong: "hmem h' = hmem h \<Longrightarrow> csrs h' Satp = csrs h Satp \<Longrightarrow> mmode h' = mmode h \<Longrightarrow> translate perm h' = translate perm h"
  by (rule ext) (simp add: translate_def Let_def)

lemma maps_words_cong:
  assumes "maps_words h va pa n" "csrs h' Satp = csrs h Satp" "mmode h' = mmode h" "\<And>x. \<not> in_range pa n x \<Longrightarrow> hmem h' x = hmem h x"
  shows "maps_words h' va pa n"
proof -
  have t: "translate perm (h'\<lparr>hmem := m\<rparr>) = translate perm (h\<lparr>hmem := m\<rparr>)" for perm m
    by (rule translate_cong) (simp_all add: assms(2,3))
  show ?thesis using assms(1) unfolding maps_words_def t by (simp add: assms(4))
qed

definition saves :: "reg \<Rightarrow> (reg \<times> nat) list \<Rightarrow> instr list" where
  "saves b tbl = map (\<lambda>(r, k). SD r k b) tbl"

definition loads :: "reg \<Rightarrow> (reg \<times> nat) list \<Rightarrow> instr list" where
  "loads b tbl = map (\<lambda>(r, k). LD r k b) tbl"

lemma exec_saves:
  assumes "table_ok n tbl" "maps_words h va pa n" "xr h b = va"
  shows "exec_asm adr call (saves b tbl @ is) h
    = exec_asm adr call is (h\<lparr>hmem := save_words tbl (xr h) pa (hmem h)\<rparr>)"
  unfolding saves_def using assms
proof (induction tbl arbitrary: h)
  case (Cons e tbl)
  obtain r k where e: "e = (r, k)" by (cases e)
  have k: "k mod 8 = 0" "k + 8 \<le> n" "n < 2 ^ 32" "table_ok n tbl" using Cons.prems(1) e by (simp_all add: table_ok_def)
  let ?h = "h\<lparr>hmem := store64 (hmem h) (pa + of_nat k) (xr h r)\<rparr>"
  have "store64 (hmem h) (pa + of_nat k) (xr h r) x = hmem h x" if "\<not> in_range pa n x" for x
    using in_range_off[of pa k x n] that k by (auto intro: store64_other)
  then have "maps_words ?h va pa n" by (intro maps_words_cong[OF Cons.prems(2)]) simp_all
  then show ?case
    using Cons.IH[OF k(4), of ?h] maps_wordsD[OF Cons.prems(2) k(1,2), of PTE_W] Cons.prems(3) e by (simp add: save_words_def)
qed (simp add: save_words_def)

lemma exec_loads:
  assumes "table_ok n tbl" "maps_words h va pa n" "xr h b = va" "\<And>k. (b, k) \<in> set tbl \<Longrightarrow> load64 (hmem h) (pa + of_nat k) = va"
  shows "exec_asm adr call (loads b tbl @ is) h
    = exec_asm adr call is (h\<lparr>xr := load_words tbl (hmem h) pa (xr h)\<rparr>)"
  unfolding loads_def using assms
proof (induction tbl arbitrary: h)
  case (Cons e tbl)
  obtain r k where e: "e = (r, k)" by (cases e)
  have k: "k mod 8 = 0" "k + 8 \<le> n" "table_ok n tbl" using Cons.prems(1) e by (simp_all add: table_ok_def)
  let ?h = "set_reg r (load64 (hmem h) (pa + of_nat k)) h"
  have m: "maps_words ?h va pa n" by (rule maps_words_cong[OF Cons.prems(2)]) (simp_all add: set_reg_def)
  have "xr ?h b = va" using Cons.prems(3,4) e by (auto simp: set_reg_def)
  then show ?case
    using Cons.IH[OF k(3) m] maps_wordsD[OF Cons.prems(2) k(1,2), of PTE_R] Cons.prems(3,4) e by (simp add: load_words_def set_reg_def del: fun_upd_apply)
qed (simp add: load_words_def)

section \<open>The trapframe page\<close>

definition maps_trapframe :: "memory \<Rightarrow> u64 \<Rightarrow> u64 \<Rightarrow> bool" where
  "maps_trapframe m pt tf \<longleftrightarrow>
     (let e2 = load64 m (pte_at pt 2 TRAPFRAME);
          e1 = load64 m (pte_at (PTE2PA e2) 1 TRAPFRAME);
          p0 = pte_at (PTE2PA e1) 0 TRAPFRAME;
          e0 = load64 m p0
      in page_aligned pt \<and> pt < 2 ^ 56 \<and> page_aligned tf \<and> tf \<noteq> pt \<and> tf \<noteq> PTE2PA e2 \<and> tf \<noteq> PTE2PA e1 \<and> p0 \<noteq> 0
       \<and> e2 AND PTE_V \<noteq> 0 \<and> e1 AND PTE_V \<noteq> 0 \<and> e0 AND PTE_V \<noteq> 0 \<and> e0 AND PTE_R \<noteq> 0 \<and> e0 AND PTE_W \<noteq> 0 \<and> e0 AND PTE_U = 0
       \<and> PTE2PA e0 = tf)"

lemma PX_PGROUNDDOWN: "PX l (PGROUNDDOWN va) = PX l va"
  unfolding PX_def PXSHIFT_def PGROUNDDOWN_mask by (rule bit_word_eqI) (auto simp: bit_simps dest: bit_imp_le_length)

lemma PTE2PA_aligned: "page_aligned (PTE2PA e)"
  unfolding PTE2PA_def aligned_def by (rule bit_word_eqI) (auto simp: bit_simps)

lemma satp_table_MAKE_SATP:
  assumes "page_aligned pt" "pt < 2 ^ 56"
  shows "satp_table (MAKE_SATP pt) = pt" "drop_bit 60 (MAKE_SATP pt) \<noteq> 0"
proof -
  have hi: "i < 56" if "bit pt i" for i using bit_below_unat[of pt 56 i] assms(2) that by (simp add: word_less_nat_alt)
  have lo: "12 \<le> i" if "bit pt i" for i using aligned_low_bit[OF assms(1), of i] that by (cases "i < 12") simp_all
  show "satp_table (MAKE_SATP pt) = pt"
  proof (rule bit_word_eqI)
    fix i
    have "\<not> bit (push_bit 60 8 :: u64) j" if "j < 44" for j using that by (simp only: bit_push_bit_iff) simp
    then have nb: "\<not> bit (0x8000000000000000 :: u64) j" if "j < 44" for j using that by simp
    show "bit (satp_table (MAKE_SATP pt)) i \<longleftrightarrow> bit pt i"
      using hi[of i] lo[of i] nb[of "i - 12"] unfolding satp_table_def MAKE_SATP_def
      by (auto simp: bit_simps simp del: bit_numeral_word_iff)
  qed
  show "drop_bit 60 (MAKE_SATP pt) \<noteq> 0"
  proof
    assume "drop_bit 60 (MAKE_SATP pt) = 0"
    then have "\<not> bit (drop_bit 60 (MAKE_SATP pt)) 3" by simp
    then show False unfolding MAKE_SATP_def by (simp add: bit_simps)
  qed
qed

lemma pte_at_page: "page_aligned t \<Longrightarrow> in_range (pte_at t l va) 8 x \<Longrightarrow> PGROUNDDOWN x = t"
  using entry_on_page[of t "unat (PX l va)" x] PX_less[of l va] by (simp add: pte_at_def)

lemma entry_levels:
  "entry m pt va =
     (let e2 = load64 m (pte_at pt 2 va) in if e2 AND PTE_V = 0 then 0 else
      let e1 = load64 m (pte_at (PTE2PA e2) 1 va) in if e1 AND PTE_V = 0 then 0 else
      let p0 = pte_at (PTE2PA e1) 0 va in if p0 = 0 then 0 else load64 m p0)"
  by (simp add: entry_def lookup_def numeral_2_eq_2 Let_def)

lemma maps_trapframe_words:
  assumes tf: "maps_trapframe (hmem h) pt tf" and satp: "csrs h Satp = MAKE_SATP pt" "\<not> mmode h"
  shows "maps_words h TRAPFRAME tf TF_SIZE"
  unfolding maps_words_def
proof (intro allI impI)
  fix m k perm assume m: "\<forall>x. \<not> in_range tf TF_SIZE x \<longrightarrow> m x = hmem h x" and k: "k mod 8 = 0" "k + 8 \<le> TF_SIZE" and perm: "perm = PTE_R \<or> perm = PTE_W"
  let ?va = "TRAPFRAME + of_nat k :: u64"
  define e2 where "e2 = load64 (hmem h) (pte_at pt 2 TRAPFRAME)"
  define e1 where "e1 = load64 (hmem h) (pte_at (PTE2PA e2) 1 TRAPFRAME)"
  define e0 where "e0 = load64 (hmem h) (pte_at (PTE2PA e1) 0 TRAPFRAME)"
  have T: "page_aligned pt" "pt < 2 ^ 56" "page_aligned tf" "tf \<noteq> pt" "tf \<noteq> PTE2PA e2" "tf \<noteq> PTE2PA e1" "pte_at (PTE2PA e1) 0 TRAPFRAME \<noteq> 0"
    "e2 AND PTE_V \<noteq> 0" "e1 AND PTE_V \<noteq> 0" "e0 AND PTE_V \<noteq> 0" "e0 AND PTE_R \<noteq> 0" "e0 AND PTE_W \<noteq> 0" "e0 AND PTE_U = 0" "PTE2PA e0 = tf"
    using tf by (simp_all add: maps_trapframe_def e2_def e1_def e0_def Let_def)
  have k4: "k < 4096" using k(2) by simp
  have al: "page_aligned TRAPFRAME" by (simp add: page_aligned_unat)
  have "in_range TRAPFRAME 4096 ?va" using k4 by (simp add: in_range_def unsigned_of_nat take_bit_nat_eq_self)
  then have down: "PGROUNDDOWN ?va = TRAPFRAME" using in_page[OF al] by blast
  then have px: "pte_at t l ?va = pte_at t l TRAPFRAME" for t l using PX_PGROUNDDOWN[of l ?va] by (simp add: pte_at_def)
  have same: "load64 m (pte_at t l TRAPFRAME) = load64 (hmem h) (pte_at t l TRAPFRAME)" if "page_aligned t" "tf \<noteq> t" for t l
  proof (rule load64_cong)
    fix x assume "in_range (pte_at t l TRAPFRAME) 8 x"
    then have "PGROUNDDOWN x \<noteq> tf" using pte_at_page[OF that(1)] that(2) by metis
    then have "\<not> in_range tf 4096 x" using in_page[OF T(3)] by blast
    then show "m x = hmem h x" using m by (auto simp: in_range_def)
  qed
  have e: "entry m pt ?va = e0"
    unfolding entry_levels px Let_def same[OF T(1,4)] e2_def[symmetric] same[OF PTE2PA_aligned T(5)] e1_def[symmetric]
      same[OF PTE2PA_aligned T(6)] e0_def[symmetric] using T(7-9) by simp
  have u: "unat ?va = unat TRAPFRAME + k" using k4 by (simp add: unat_word_ariths unsigned_of_nat take_bit_nat_eq_self)
  have "take_bit 12 ?va = of_nat k" "take_bit 3 ?va = 0"
    using k(1) k4 u unfolding word_unat_eq_iff unsigned_take_bit_eq by (simp_all add: take_bit_eq_mod mod_add_eq[symmetric] unsigned_of_nat take_bit_nat_eq_self)
  then have "?va AND mask 12 = of_nat k" "?va AND mask 3 = 0" by (simp_all only: take_bit_eq_mask)
  then have lo: "?va AND 0xFFF = of_nat k" "?va AND 7 = 0" by (simp_all add: mask_eq_exp_minus_1)
  have "?va < MAXVA" using u k4 by (simp add: word_less_nat_alt)
  then show "translate perm (h\<lparr>hmem := m\<rparr>) ?va = Some (tf + of_nat k)"
    using e lo T(10-14) perm satp satp_table_MAKE_SATP[OF T(1,2)] by (auto simp: translate_def)
qed

section \<open>From user space and back\<close>

definition user_table :: "(reg \<times> nat) list" where
  "user_table = [(Ra, 40), (Sp, 48), (Gp, 56), (Tp, 64), (T0, 72), (T1, 80), (T2, 88), (S0, 96), (S1, 104), (A1, 120), (A2, 128),
     (A3, 136), (A4, 144), (A5, 152), (A6, 160), (A7, 168), (S2, 176), (S3, 184), (S4, 192), (S5, 200), (S6, 208), (S7, 216),
     (S8, 224), (S9, 232), (S10, 240), (S11, 248), (T3, 256), (T4, 264), (T5, 272), (T6, 280)]"

text \<open>Where each user register is in \<^verbatim>\<open>struct trapframe\<close>.\<close>

definition frame_table :: "(reg \<times> nat) list" where
  "frame_table = user_table @ [(A0, 112)]"

lemma user_table_ok: "table_ok TF_SIZE user_table" "table_ok TF_SIZE frame_table"
  "distinct (map fst user_table)" "distinct (map snd user_table)" "distinct (map fst frame_table)" "distinct (map snd frame_table)"
  by (simp_all add: user_table_def frame_table_def table_ok_def)

lemma user_table_base: "(A0, k) \<notin> set user_table"
  by (simp add: user_table_def)

lemma frame_table_complete: "\<exists>k. (r, k) \<in> set frame_table \<and> 40 \<le> k \<and> k \<le> 280"
  by (cases r) (auto simp: frame_table_def user_table_def)

lemma uservec_code:
  "uservec = CSRW Sscratch A0 # LI A0 TRAPFRAME # saves A0 user_table @ CSRR T0 Sscratch # saves A0 [(T0, 112)]
     @ loads A0 [(Sp, 8), (Tp, 32), (T0, 16), (T1, 0)] @ [SFENCE_VMA, CSRW Satp T1, SFENCE_VMA, JR T0]"
  by (simp add: uservec_def user_table_def saves_def loads_def)

lemma userret_code:
  "userret = SFENCE_VMA # CSRW Satp A0 # SFENCE_VMA # LI A0 TRAPFRAME # loads A0 user_table @ LD A0 112 A0 # [SRET]"
  by (simp add: userret_def user_table_def loads_def)

lemma save_words_cong: "(\<And>r k. (r, k) \<in> set tbl \<Longrightarrow> x r = y r) \<Longrightarrow> save_words tbl x a m = save_words tbl y a m"
  unfolding save_words_def by (rule fold_cong) auto

lemma save_words_append: "save_words (tbl @ tbl') x a m = save_words tbl' x a (save_words tbl x a m)"
  by (simp add: save_words_def)

lemma uservec_saves:
  assumes map: "maps_words h TRAPFRAME tf TF_SIZE"
  obtains h1 where "exec_asm adr call uservec h = Some (Jump (load64 (hmem h) (tf + 16)), h1)"
    "hmem h1 = save_words frame_table (xr h) tf (hmem h)" "csrs h1 Satp = load64 (hmem h) tf"
    "xr h1 Sp = load64 (hmem h) (tf + 8)" "xr h1 Tp = load64 (hmem h) (tf + 32)" "mmode h1 = mmode h"
proof -
  let ?m = "hmem h"
  define a where "a = set_reg A0 TRAPFRAME (set_csr Sscratch (xr h A0) h)"
  define b where "b = a\<lparr>hmem := save_words user_table (xr a) tf (hmem a)\<rparr>"
  define c where "c = set_reg T0 (csrs b Sscratch) b"
  define d where "d = c\<lparr>hmem := save_words [(T0, 112)] (xr c) tf (hmem c)\<rparr>"
  let ?lds = "[(Sp, 8), (Tp, 32), (T0, 16), (T1, 0)]"
  define e where "e = d\<lparr>xr := load_words ?lds (hmem d) tf (xr d)\<rparr>"
  note defs = a_def b_def c_def d_def e_def set_reg_def set_csr_def
  have t: "table_ok TF_SIZE [(T0, 112)]" "table_ok TF_SIZE ?lds" by (simp_all add: table_ok_def)
  have ma: "maps_words a TRAPFRAME tf TF_SIZE" by (rule maps_words_cong[OF map]) (simp_all add: defs)
  have mc: "maps_words c TRAPFRAME tf TF_SIZE"
    by (rule maps_words_cong[OF ma]) (simp_all add: defs save_words_other[OF user_table_ok(1)])
  have md: "maps_words d TRAPFRAME tf TF_SIZE"
    by (rule maps_words_cong[OF mc]) (simp_all add: d_def save_words_other[OF t(1)])
  have x: "xr a A0 = TRAPFRAME" "xr c A0 = TRAPFRAME" "xr d A0 = TRAPFRAME" by (simp_all add: defs)
  have "save_words user_table (xr a) tf ?m = save_words user_table (xr h) tf ?m"
    using user_table_base by (intro save_words_cong) (auto simp: defs)
  moreover have "xr c T0 = xr h A0" by (simp add: defs)
  ultimately have mem: "hmem d = save_words frame_table (xr h) tf ?m"
    by (simp add: d_def c_def b_def set_reg_def frame_table_def save_words_append) (simp add: defs save_words_def)
  have keep: "load64 (hmem d) (tf + of_nat k) = load64 ?m (tf + of_nat k)" if "k mod 8 = 0" "k < 40" for k
  proof -
    have "k \<notin> snd ` set frame_table" using that by (auto simp: frame_table_def user_table_def)
    then show ?thesis unfolding mem using save_words_unsaved[OF user_table_ok(2)] that by simp
  qed
  have le: "load_words ?lds (hmem d) tf x' = x'(Sp := load64 ?m (tf + 8), Tp := load64 ?m (tf + 32), T0 := load64 ?m (tf + 16), T1 := load64 ?m tf)" for x'
    using keep[of 8] keep[of 32] keep[of 16] keep[of 0] by (simp add: load_words_def)
  have "exec_asm adr call uservec h = exec_asm adr call (saves A0 user_table @ CSRR T0 Sscratch # saves A0 [(T0, 112)]
     @ loads A0 ?lds @ [SFENCE_VMA, CSRW Satp T1, SFENCE_VMA, JR T0]) a"
    unfolding uservec_code by (simp add: a_def set_csr_def)
  also have "\<dots> = exec_asm adr call (saves A0 [(T0, 112)] @ loads A0 ?lds @ [SFENCE_VMA, CSRW Satp T1, SFENCE_VMA, JR T0]) c"
    unfolding exec_saves[OF user_table_ok(1) ma x(1)] by (simp add: c_def b_def)
  also have "\<dots> = exec_asm adr call [SFENCE_VMA, CSRW Satp T1, SFENCE_VMA, JR T0] e"
    unfolding exec_saves[OF t(1) mc x(2)] d_def[symmetric] by (subst exec_loads[OF t(2) md x(3)]) (simp_all add: e_def)
  finally have run: "exec_asm adr call uservec h = Some (Jump (xr e T0), set_csr Satp (xr e T1) e)" by (simp add: set_csr_def)
  have "xr e = load_words ?lds (hmem d) tf (xr d)" by (simp add: e_def)
  then have xe: "xr e T0 = load64 ?m (tf + 16)" "xr e T1 = load64 ?m tf" "xr e Sp = load64 ?m (tf + 8)" "xr e Tp = load64 ?m (tf + 32)"
    unfolding le by simp_all
  have he: "hmem e = hmem d" "mmode e = mmode h" by (simp_all add: defs)
  show thesis
    by (rule that[of "set_csr Satp (xr e T1) e"]) (use run xe he mem in \<open>simp_all add: set_csr_def\<close>)
qed

text \<open>\<^verbatim>\<open>userret\<close> loads every register from its place in the trapframe.\<close>

lemma userret_loads:
  assumes map: "maps_words (set_csr Satp (xr h A0) h) TRAPFRAME tf TF_SIZE"
  obtains k where "exec_asm adr call userret h = Some (By_sret, k)" "hmem k = hmem h" "csrs k = (csrs h)(Satp := xr h A0)" "mmode k = mmode h"
    "\<And>r off. (r, off) \<in> set frame_table \<Longrightarrow> xr k r = load64 (hmem h) (tf + of_nat off)"
proof -
  define a where "a = set_reg A0 TRAPFRAME (set_csr Satp (xr h A0) h)"
  define b where "b = a\<lparr>xr := load_words user_table (hmem a) tf (xr a)\<rparr>"
  have ma: "maps_words a TRAPFRAME tf TF_SIZE" by (rule maps_words_cong[OF map]) (simp_all add: a_def set_reg_def)
  have mb: "maps_words b TRAPFRAME tf TF_SIZE" by (rule maps_words_cong[OF ma]) (simp_all add: b_def)
  have x: "xr a A0 = TRAPFRAME" by (simp add: a_def set_reg_def)
  have "A0 \<notin> fst ` set user_table" using user_table_base by force
  then have xb: "xr b A0 = TRAPFRAME" using x by (simp add: b_def load_words_other)
  have m: "hmem a = hmem h" "hmem b = hmem h" by (simp_all add: a_def b_def set_reg_def set_csr_def)
  have tr: "translate PTE_R b (TRAPFRAME + of_nat 112) = Some (tf + of_nat 112)" by (rule maps_wordsD[OF mb]) simp_all
  have "exec_asm adr call userret h = exec_asm adr call (loads A0 user_table @ LD A0 112 A0 # [SRET]) a"
    unfolding userret_code by (simp add: a_def)
  also have "\<dots> = exec_asm adr call (LD A0 112 A0 # [SRET]) b"
    by (subst exec_loads[OF user_table_ok(1) ma x]) (simp_all add: b_def user_table_base)
  also have "\<dots> = Some (By_sret, set_reg A0 (load64 (hmem h) (tf + 112)) b)" using tr xb m by simp
  finally have run: "exec_asm adr call userret h = Some (By_sret, set_reg A0 (load64 (hmem h) (tf + 112)) b)" .
  show thesis
  proof (rule that[OF run])
    fix r off assume "(r, off) \<in> set frame_table"
    then consider "r = A0" "off = 112" | "r \<noteq> A0" "(r, off) \<in> set user_table" using user_table_base by (auto simp: frame_table_def)
    then show "xr (set_reg A0 (load64 (hmem h) (tf + 112)) b) r = load64 (hmem h) (tf + of_nat off)"
      using load_words_loaded[OF user_table_ok(3)] m by cases (simp_all add: set_reg_def b_def)
  qed (simp_all add: set_reg_def b_def a_def set_csr_def)
qed

text \<open>
  C30 (user registers survive a trap). The trapframe page is mapped in the process's page table.  A trap
  runs \<^verbatim>\<open>uservec\<close>, which saves all 31 registers in the trapframe, writes nowhere else, keeps the kernel's five words of it, and
  jumps to \<^verbatim>\<open>usertrap\<close> on the kernel stack and the kernel page table.  If afterwards \<^verbatim>\<open>userret\<close> runs with the
  same page table while the saved registers are still in the trapframe, the process continues with
  all registers as they were.
\<close>

theorem trap_round_trip:
  assumes "maps_trapframe (hmem h) pt tf" "csrs h Satp = MAKE_SATP pt" "\<not> mmode h"
    and "maps_trapframe (hmem k) pt tf" "xr k A0 = MAKE_SATP pt" "\<not> mmode k"
  shows "\<exists>h1. exec_asm adr call uservec h = Some (Jump (load64 (hmem h) (tf + TF_kernel_trap)), h1)
    \<and> xr h1 Sp = load64 (hmem h) (tf + TF_kernel_sp) \<and> xr h1 Tp = load64 (hmem h) (tf + TF_kernel_hartid) \<and> csrs h1 Satp = load64 (hmem h) (tf + TF_kernel_satp)
    \<and> (\<forall>y. \<not> in_range tf TF_SIZE y \<longrightarrow> hmem h1 y = hmem h y) \<and> (\<forall>i<5. load64 (hmem h1) (tf + 8 * of_nat i) = load64 (hmem h) (tf + 8 * of_nat i))
    \<and> ((\<forall>y. in_range (tf + 40) 248 y \<longrightarrow> hmem k y = hmem h1 y) \<longrightarrow>
        (\<exists>k1. exec_asm adr call userret k = Some (By_sret, k1) \<and> xr k1 = xr h \<and> csrs k1 Satp = csrs h Satp \<and> hmem k1 = hmem k))"
proof -
  obtain h1 where h1: "exec_asm adr call uservec h = Some (Jump (load64 (hmem h) (tf + 16)), h1)"
    "hmem h1 = save_words frame_table (xr h) tf (hmem h)" "csrs h1 Satp = load64 (hmem h) tf"
    "xr h1 Sp = load64 (hmem h) (tf + 8)" "xr h1 Tp = load64 (hmem h) (tf + 32)" "mmode h1 = mmode h"
    using uservec_saves[OF maps_trapframe_words[OF assms(1-3)]] by blast
  have mk: "maps_words (set_csr Satp (xr k A0) k) TRAPFRAME tf TF_SIZE"
    by (rule maps_trapframe_words) (simp_all add: assms set_csr_def)
  obtain k1 where k1: "exec_asm adr call userret k = Some (By_sret, k1)" "hmem k1 = hmem k" "csrs k1 = (csrs k)(Satp := xr k A0)"
    "\<And>r off. (r, off) \<in> set frame_table \<Longrightarrow> xr k1 r = load64 (hmem k) (tf + of_nat off)"
    using userret_loads[OF mk] by blast
  have keep: "load64 (hmem h1) (tf + 8 * of_nat i) = load64 (hmem h) (tf + 8 * of_nat i)" if "i < 5" for i
  proof -
    have "8 * i \<notin> snd ` set frame_table" using that by (auto simp: frame_table_def user_table_def)
    then show ?thesis using save_words_unsaved[OF user_table_ok(2), of "8 * i" "xr h" tf "hmem h"] that h1(2) by simp
  qed
  have restored: "xr k1 = xr h" if same: "\<forall>y. in_range (tf + 40) 248 y \<longrightarrow> hmem k y = hmem h1 y"
  proof
    fix r
    obtain off where off: "(r, off) \<in> set frame_table" "40 \<le> off" "off \<le> 280" using frame_table_complete by blast
    have "load64 (hmem k) (tf + of_nat off) = load64 (hmem h1) (tf + of_nat off)"
    proof (rule load64_cong)
      fix y assume "in_range (tf + of_nat off) 8 y"
      then have "in_range ((tf + 40) + of_nat (off - 40)) 8 y" using off(2) by (simp add: of_nat_diff)
      then have "in_range (tf + 40) 248 y" by (rule in_range_off) (use off(2,3) in simp_all)
      then show "hmem k y = hmem h1 y" using same by blast
    qed
    then show "xr k1 r = xr h r" using k1(4)[OF off(1)] save_words_saved[OF user_table_ok(2,6) off(1)] h1(2) by simp
  qed
  show ?thesis
    by (rule exI[of _ h1]) (use h1 k1 keep restored save_words_other[OF user_table_ok(2)] assms(2,5) in \<open>auto\<close>)
qed

text \<open>A page table at \<open>0x87FF0000\<close> whose only mapping is the trapframe page \<open>0x87FF3000\<close>.\<close>

definition tf_mem :: memory where
  "tf_mem = store64 (store64 (store64 (\<lambda>_. 0) 0x87FF07F8 0x21FFC401) 0x87FF1FF8 0x21FFC801) 0x87FF2FF0 0x21FFCC07"

definition tf_hart :: hart where
  "tf_hart = \<lparr>xr = \<lambda>_. 0x1234, csrs = \<lambda>_. MAKE_SATP 0x87FF0000, hmem = tf_mem, mmode = False\<rparr>"

lemma ranges_disjoint_apart:
  assumes "n \<le> unat (b - a)" "k \<le> unat (a - b)"
  shows "ranges_disjoint a n b k"
proof -
  have False if x: "in_range a n x" "in_range b k x" for x
  proof -
    have eq: "b - a = (x - a) - (x - b)" "a - b = (x - b) - (x - a)" by simp_all
    show False
    proof (cases "x - b \<le> x - a")
      case True
      then have "unat (b - a) = unat (x - a) - unat (x - b)" unfolding eq by (rule unat_sub)
      then show False using x assms(1) by (simp add: in_range_def)
    next
      case False
      then have "unat (a - b) = unat (x - b) - unat (x - a)" unfolding eq by (intro unat_sub) simp
      then show False using x assms(2) by (simp add: in_range_def)
    qed
  qed
  then show ?thesis by (auto simp: ranges_disjoint_def)
qed

lemma load64_store64_apart: "8 \<le> unat (b - a) \<Longrightarrow> 8 \<le> unat (a - b) \<Longrightarrow> load64 (store64 m a v) b = load64 m b"
  by (rule load64_store64_disjoint) (rule ranges_disjoint_apart)

lemma tf_mem_maps:
  assumes "\<And>y. \<not> in_range 0x87FF3000 TF_SIZE y \<Longrightarrow> m y = tf_mem y"
  shows "maps_trapframe m 0x87FF0000 0x87FF3000"
proof -
  have px: "PX 2 TRAPFRAME = 255" "PX 1 TRAPFRAME = 511" "PX 0 TRAPFRAME = 510" by (simp_all add: PX_def PXSHIFT_def)
  have ld: "load64 tf_mem 0x87FF07F8 = 0x21FFC401" "load64 tf_mem 0x87FF1FF8 = 0x21FFC801" "load64 tf_mem 0x87FF2FF0 = 0x21FFCC07"
    by (simp_all add: tf_mem_def load64_store64_same load64_store64_apart)
  have same: "load64 m (t + 8 * of_nat i) = load64 tf_mem (t + 8 * of_nat i)" if "page_aligned t" "t \<noteq> 0x87FF3000" "i < 512" for t i
  proof (rule load64_cong)
    fix x assume "in_range (t + 8 * of_nat i) 8 x"
    then have "PGROUNDDOWN x \<noteq> 0x87FF3000" using entry_on_page[OF that(1,3)] that(2) by metis
    then have "\<not> in_range 0x87FF3000 4096 x" using in_page[of "0x87FF3000" x] by (simp add: page_aligned_unat)
    then show "m x = tf_mem x" by (intro assms) (simp add: in_range_def)
  qed
  have "load64 m 0x87FF07F8 = 0x21FFC401" "load64 m 0x87FF1FF8 = 0x21FFC801" "load64 m 0x87FF2FF0 = 0x21FFCC07"
    using same[of "0x87FF0000" 255] same[of "0x87FF1000" 511] same[of "0x87FF2000" 510] ld by (simp_all add: page_aligned_unat)
  then show ?thesis
    by (simp add: maps_trapframe_def px[simplified] pte_at_def PTE2PA_def page_aligned_unat Let_def)
qed

theorem trap_round_trip_witness:
  "\<exists>h1 k1. exec_asm (\<lambda>_. 0) (\<lambda>_ h. h) uservec tf_hart = Some (Jump 0, h1)
     \<and> exec_asm (\<lambda>_. 0) (\<lambda>_ h. h) userret (set_reg A0 (MAKE_SATP 0x87FF0000) h1) = Some (By_sret, k1) \<and> xr k1 S11 = 0x1234 \<and> xr h1 Sp = 0"
proof -
  have H: "maps_trapframe (hmem tf_hart) 0x87FF0000 0x87FF3000" "csrs tf_hart Satp = MAKE_SATP 0x87FF0000" "\<not> mmode tf_hart"
    using tf_mem_maps[of tf_mem] by (simp_all add: tf_hart_def)
  obtain h1 where h1: "exec_asm (\<lambda>_. 0) (\<lambda>_ h. h) uservec tf_hart = Some (Jump (load64 (hmem tf_hart) (0x87FF3000 + 16)), h1)"
    "hmem h1 = save_words frame_table (xr tf_hart) 0x87FF3000 (hmem tf_hart)" "mmode h1 = mmode tf_hart"
    using uservec_saves[OF maps_trapframe_words[OF H]] by blast
  let ?k = "set_reg A0 (MAKE_SATP 0x87FF0000) h1"
  have K: "maps_trapframe (hmem ?k) 0x87FF0000 0x87FF3000" "xr ?k A0 = MAKE_SATP 0x87FF0000" "\<not> mmode ?k"
    using tf_mem_maps[of "hmem h1"] h1(2,3) save_words_other[OF user_table_ok(2)] by (simp_all add: set_reg_def tf_hart_def)
  have z: "load64 tf_mem (0x87FF3000 + 16) = 0" "load64 tf_mem (0x87FF3000 + 8) = 0"
    by (simp_all add: tf_mem_def load64_store64_apart load64_zero)
  have "hmem ?k y = hmem h1 y" for y by (simp add: set_reg_def)
  then show ?thesis using trap_round_trip[OF H K, of "\<lambda>_. 0" "\<lambda>_ h. h"] h1(1) z by (auto simp: tf_hart_def)
qed

section \<open>Kernel code\<close>

text \<open>The addresses in \<open>A\<close> are mapped to themselves, whatever is stored there.\<close>

definition direct_mapped :: "hart \<Rightarrow> u64 set \<Rightarrow> bool" where
  "direct_mapped h A \<longleftrightarrow> (\<forall>m. (\<forall>x. x \<notin> A \<longrightarrow> m x = hmem h x) \<longrightarrow>
     (\<forall>a perm. a AND 7 = 0 \<longrightarrow> {x. in_range a 8 x} \<subseteq> A \<longrightarrow> perm = PTE_R \<or> perm = PTE_W \<longrightarrow> translate perm (h\<lparr>hmem := m\<rparr>) a = Some a))"

lemma direct_mapped_cong:
  assumes "direct_mapped h A" "csrs h' Satp = csrs h Satp" "mmode h' = mmode h" "\<And>x. x \<notin> A \<Longrightarrow> hmem h' x = hmem h x"
  shows "direct_mapped h' A"
proof -
  have t: "translate perm (h'\<lparr>hmem := m\<rparr>) = translate perm (h\<lparr>hmem := m\<rparr>)" for perm m
    by (rule translate_cong) (simp_all add: assms(2,3))
  show ?thesis using assms(1) unfolding direct_mapped_def t by (simp add: assms(4))
qed

lemma and_7_iff: "a AND 7 = 0 \<longleftrightarrow> unat a mod 8 = 0" for a :: u64
proof -
  have "a AND 7 = take_bit 3 a" by (simp add: take_bit_eq_mask mask_eq_exp_minus_1)
  then have "unat (a AND 7) = unat a mod 8" by (simp only: unsigned_take_bit_eq) (simp add: take_bit_eq_mod)
  then show ?thesis by (simp add: word_unat_eq_iff)
qed

lemma aligned_off: "a AND 7 = 0 \<Longrightarrow> k mod 8 = 0 \<Longrightarrow> (a + of_nat k) AND 7 = 0" for a :: u64
proof -
  assume a: "a AND 7 = 0" "k mod 8 = 0"
  have "unat (a + of_nat k) = (unat a + k) mod 2 ^ 64" by (simp add: unat_word_ariths unat_of_nat mod_simps)
  then have "unat (a + of_nat k) mod 8 = (unat a + k) mod 8" by (simp add: mod_mod_cancel)
  also have "\<dots> = 0" using a by (simp add: and_7_iff mod_add_eq[symmetric, of "unat a"])
  finally show ?thesis by (simp add: and_7_iff)
qed

lemma direct_words:
  assumes "direct_mapped h A" "a AND 7 = 0" "{x. in_range a n x} \<subseteq> A" "n < 2 ^ 32"
  shows "maps_words h a a n"
  unfolding maps_words_def
proof (intro allI impI)
  fix m k perm assume m: "\<forall>x. \<not> in_range a n x \<longrightarrow> m x = hmem h x" and k: "k mod 8 = 0" "k + 8 \<le> n" "perm = PTE_R \<or> perm = PTE_W"
  have "\<forall>x. x \<notin> A \<longrightarrow> m x = hmem h x" using m assms(3) by auto
  moreover have "{x. in_range (a + of_nat k) 8 x} \<subseteq> A" using in_range_off[of a k _ n] k(2) assms(3,4) by auto
  moreover have "(a + of_nat k) AND 7 = 0" using aligned_off[OF assms(2) k(1)] .
  ultimately show "translate perm (h\<lparr>hmem := m\<rparr>) (a + of_nat k) = Some (a + of_nat k)"
    using assms(1) k(3) unfolding direct_mapped_def by blast
qed

lemma direct_mapped_bare: "mmode h \<or> drop_bit 60 (csrs h Satp) = 0 \<Longrightarrow> direct_mapped h A"
  by (auto simp: direct_mapped_def translate_def Let_def)

definition ctx_table :: "(reg \<times> nat) list" where
  "ctx_table = [(Ra, 0), (Sp, 8), (S0, 16), (S1, 24), (S2, 32), (S3, 40), (S4, 48), (S5, 56), (S6, 64), (S7, 72), (S8, 80), (S9, 88),
     (S10, 96), (S11, 104)]"

lemma ctx_table_ok: "table_ok 112 ctx_table" "distinct (map fst ctx_table)" "distinct (map snd ctx_table)"
  by (simp_all add: ctx_table_def table_ok_def)

lemma swtch_code: "swtch = saves A0 ctx_table @ loads A1 ctx_table @ [RET]"
  by (simp add: swtch_def ctx_table_def saves_def loads_def)

text \<open>\<^verbatim>\<open>swtch\<close> saves the fourteen registers in the old context and loads them from the new one.\<close>

lemma swtch_switches:
  assumes "direct_mapped h A" "xr h A0 AND 7 = 0" "xr h A1 AND 7 = 0" "{x. in_range (xr h A0) 112 x} \<subseteq> A" "{x. in_range (xr h A1) 112 x} \<subseteq> A"
  obtains k where "exec_asm adr call swtch h = Some (Jump (xr k Ra), k)" "hmem k = save_words ctx_table (xr h) (xr h A0) (hmem h)"
    "csrs k = csrs h" "mmode k = mmode h" "xr k = load_words ctx_table (hmem k) (xr h A1) (xr h)"
proof -
  define a where "a = h\<lparr>hmem := save_words ctx_table (xr h) (xr h A0) (hmem h)\<rparr>"
  define b where "b = a\<lparr>xr := load_words ctx_table (hmem a) (xr h A1) (xr a)\<rparr>"
  have m: "maps_words h (xr h A0) (xr h A0) 112" by (rule direct_words[OF assms(1,2,4)]) simp
  have "direct_mapped a A"
    by (rule direct_mapped_cong[OF assms(1)]) (use assms(4) in \<open>auto simp: a_def intro!: save_words_other[OF ctx_table_ok(1)]\<close>)
  then have n: "maps_words a (xr h A1) (xr h A1) 112" by (rule direct_words[OF _ assms(3,5)]) simp
  have "exec_asm adr call swtch h = exec_asm adr call (loads A1 ctx_table @ [RET]) a"
    unfolding swtch_code exec_saves[OF ctx_table_ok(1) m refl] a_def ..
  also have "\<dots> = exec_asm adr call [RET] b"
    unfolding b_def by (rule exec_loads[OF ctx_table_ok(1) n]) (auto simp: a_def ctx_table_def)
  finally have "exec_asm adr call swtch h = Some (Jump (xr b Ra), b)" by simp
  then show thesis by (rule that) (simp_all add: b_def a_def)
qed

text \<open>
  C31 (a context switch is resumed where it was left). \<^verbatim>\<open>swtch\<close> is called with two contexts that do not overlap.  It
  stores the caller's callee-saved registers in the old one and continues with those of the new one.  When later, on any hart,
  \<^verbatim>\<open>swtch\<close> is called to switch to the old context and its contents are as they were stored, that call
  continues at the return address of the first call, with the stack pointer and all saved registers of
  that time.
\<close>

theorem swtch_resumes:
  assumes "direct_mapped h A" "xr h A0 AND 7 = 0" "xr h A1 AND 7 = 0" "{x. in_range (xr h A0) 112 x} \<subseteq> A" "{x. in_range (xr h A1) 112 x} \<subseteq> A"
    and "ranges_disjoint (xr h A0) 112 (xr h A1) 112"
    and "direct_mapped k B" "xr k A0 AND 7 = 0" "xr k A1 = xr h A0" "{x. in_range (xr k A0) 112 x} \<subseteq> B" "{x. in_range (xr k A1) 112 x} \<subseteq> B"
    and "ranges_disjoint (xr k A0) 112 (xr k A1) 112"
  shows "\<exists>h1. exec_asm adr call swtch h = Some (Jump (load64 (hmem h) (xr h A1)), h1) \<and> xr h1 Sp = load64 (hmem h) (xr h A1 + 8)
    \<and> (\<forall>y. \<not> in_range (xr h A0) 112 y \<longrightarrow> hmem h1 y = hmem h y)
    \<and> ((\<forall>y. in_range (xr h A0) 112 y \<longrightarrow> hmem k y = hmem h1 y) \<longrightarrow>
        (\<exists>k1. exec_asm adr call swtch k = Some (Jump (xr h Ra), k1)
          \<and> (\<forall>r \<in> {Ra, Sp, S0, S1, S2, S3, S4, S5, S6, S7, S8, S9, S10, S11}. xr k1 r = xr h r)))"
proof -
  have fresh: "load64 (save_words ctx_table x a m) (b + of_nat off) = load64 m (b + of_nat off)"
    if "ranges_disjoint a 112 b 112" "off + 8 \<le> 112" for x a m b off
  proof (rule load64_cong)
    fix y assume "in_range (b + of_nat off) 8 y"
    then have "in_range b 112 y" by (rule in_range_off) (use that(2) in simp_all)
    then show "save_words ctx_table x a m y = m y" using that(1) by (intro save_words_other[OF ctx_table_ok(1)]) (auto simp: ranges_disjoint_def)
  qed
  have off: "off + 8 \<le> 112" if "(r, off) \<in> set ctx_table" for r off using that ctx_table_ok(1) by (auto simp: table_ok_def list_all_iff)
  obtain h1 where h1: "exec_asm adr call swtch h = Some (Jump (xr h1 Ra), h1)" "hmem h1 = save_words ctx_table (xr h) (xr h A0) (hmem h)"
    "xr h1 = load_words ctx_table (hmem h1) (xr h A1) (xr h)"
    using swtch_switches[OF assms(1-5)] by blast
  have k7: "xr k A1 AND 7 = 0" using assms(2,9) by simp
  obtain k1 where k1: "exec_asm adr call swtch k = Some (Jump (xr k1 Ra), k1)" "hmem k1 = save_words ctx_table (xr k) (xr k A0) (hmem k)"
    "xr k1 = load_words ctx_table (hmem k1) (xr k A1) (xr k)"
    using swtch_switches[OF assms(7,8) k7 assms(10,11)] by blast
  have h1x: "xr h1 r = load64 (hmem h) (xr h A1 + of_nat off)" if "(r, off) \<in> set ctx_table" for r off
    unfolding h1(3) load_words_loaded[OF ctx_table_ok(2) that] h1(2) by (rule fresh[OF assms(6) off[OF that]])
  have k1x: "xr k1 r = xr h r" if same: "\<forall>y. in_range (xr h A0) 112 y \<longrightarrow> hmem k y = hmem h1 y" and r: "(r, off) \<in> set ctx_table" for r off
  proof -
    have "xr k1 r = load64 (hmem k) (xr h A0 + of_nat off)"
      unfolding k1(3) load_words_loaded[OF ctx_table_ok(2) r] k1(2) fresh[OF assms(12) off[OF r]] unfolding assms(9) ..
    also have "\<dots> = load64 (hmem h1) (xr h A0 + of_nat off)"
      by (rule load64_cong) (use same in_range_off[of "xr h A0" off _ 112] off[OF r] in auto)
    also have "\<dots> = xr h r" unfolding h1(2) by (rule save_words_saved[OF ctx_table_ok(1,3) r])
    finally show ?thesis .
  qed
  have "(Ra, 0) \<in> set ctx_table" "(Sp, 8) \<in> set ctx_table" by (simp_all add: ctx_table_def)
  note R = h1x[OF this(1)] h1x[OF this(2)] and kRa = k1x[OF _ this(1)]
  have all: "xr k1 r = xr h r" if "\<forall>y. in_range (xr h A0) 112 y \<longrightarrow> hmem k y = hmem h1 y"
    "r \<in> {Ra, Sp, S0, S1, S2, S3, S4, S5, S6, S7, S8, S9, S10, S11}" for r
  proof -
    have "\<exists>off. (r, off) \<in> set ctx_table" using that(2) by (auto simp: ctx_table_def)
    then show ?thesis using k1x[OF that(1)] by blast
  qed
  show ?thesis
    by (rule exI[of _ h1]) (use h1(1,2) R k1(1) kRa all save_words_other[OF ctx_table_ok(1)] in \<open>simp\<close>)
qed

definition swtch_hart :: hart where
  "swtch_hart = \<lparr>xr = (\<lambda>_. 0x1234)(A0 := 0x1000, A1 := 0x2000), csrs = \<lambda>_. 0, hmem = \<lambda>_. 0, mmode = False\<rparr>"

theorem swtch_resumes_witness:
  "\<exists>h1 k1. exec_asm (\<lambda>_. 0) (\<lambda>_ h. h) swtch swtch_hart = Some (Jump 0, h1)
     \<and> exec_asm (\<lambda>_. 0) (\<lambda>_ h. h) swtch (set_reg A0 0x3000 (set_reg A1 0x1000 h1)) = Some (Jump 0x1234, k1) \<and> xr k1 S11 = 0x1234"
proof -
  have d: "direct_mapped swtch_hart UNIV" by (rule direct_mapped_bare) (simp add: swtch_hart_def)
  have x: "xr swtch_hart A0 = 0x1000" "xr swtch_hart A1 = 0x2000" "xr swtch_hart Ra = 0x1234" "xr swtch_hart S11 = 0x1234" by (simp_all add: swtch_hart_def)
  have al: "xr swtch_hart A0 AND 7 = 0" "xr swtch_hart A1 AND 7 = 0" by (simp_all add: x)
  obtain h1 where h1: "exec_asm (\<lambda>_. 0) (\<lambda>_ h. h) swtch swtch_hart = Some (Jump (xr h1 Ra), h1)" "csrs h1 = csrs swtch_hart"
    using swtch_switches[OF d al subset_UNIV subset_UNIV] by blast
  let ?k = "set_reg A0 0x3000 (set_reg A1 0x1000 h1)"
  have dk: "direct_mapped ?k UNIV" by (rule direct_mapped_bare) (simp add: set_reg_def h1 swtch_hart_def)
  have xk: "xr ?k A0 = 0x3000" "xr ?k A1 = 0x1000" "hmem ?k = hmem h1" by (simp_all add: set_reg_def)
  have z: "load64 (hmem swtch_hart) a = 0" for a by (simp add: swtch_hart_def load64_zero)
  show ?thesis
    using swtch_resumes[OF d al subset_UNIV subset_UNIV _ dk _ _ subset_UNIV subset_UNIV, of "\<lambda>_. 0" "\<lambda>_ h. h"] h1(1)
    by (auto simp: x xk z ranges_disjoint_apart)
qed

section \<open>Traps in the kernel\<close>

definition kv_table :: "(reg \<times> nat) list" where
  "kv_table = [(Ra, 0), (Sp, 8), (Gp, 16), (Tp, 24), (T0, 32), (T1, 40), (T2, 48), (S0, 56), (S1, 64), (A0, 72), (A1, 80), (A2, 88), (A3, 96),
     (A4, 104), (A5, 112), (A6, 120), (A7, 128), (S2, 136), (S3, 144), (S4, 152), (S5, 160), (S6, 168), (S7, 176), (S8, 184), (S9, 192),
     (S10, 200), (S11, 208), (T3, 216), (T4, 224), (T5, 232), (T6, 240)]"

definition kv_restored :: "(reg \<times> nat) list" where
  "kv_restored = filter (\<lambda>(r, k). r \<noteq> Tp) kv_table"

lemma kv_table_ok: "table_ok 256 kv_table" "table_ok 256 kv_restored" "distinct (map snd kv_table)" "distinct (map fst kv_restored)"
  by (simp_all add: kv_table_def kv_restored_def table_ok_def)

lemma kv_restored_complete: "r \<noteq> Tp \<Longrightarrow> \<exists>k. (r, k) \<in> set kv_restored \<and> (r, k) \<in> set kv_table \<and> k + 8 \<le> 256"
  by (cases r) (auto simp: kv_table_def kv_restored_def)

lemma kernelvec_code:
  "kernelvec = ADDI Sp Sp (- 256) # saves Sp kv_table @ CALL ''kerneltrap'' # loads Sp kv_restored @ [ADDI Sp Sp 256, SRET]"
  by (simp add: kernelvec_def kv_table_def kv_restored_def saves_def loads_def)

text \<open>What the C compiler's calling convention gives: the function keeps the stack pointer and the caller's stack frame.\<close>

definition keeps_frame :: "u64 set \<Rightarrow> u64 \<Rightarrow> (hart \<Rightarrow> hart) \<Rightarrow> bool" where
  "keeps_frame A sp f \<longleftrightarrow> (\<forall>g. xr g Sp = sp \<longrightarrow> direct_mapped g A \<longrightarrow>
     xr (f g) Sp = sp \<and> direct_mapped (f g) A \<and> (\<forall>y. in_range sp 256 y \<longrightarrow> hmem (f g) y = hmem g y))"



text \<open>
  C33 (the timer interrupt). \<^verbatim>\<open>timervec\<close> runs in machine mode with the scratch area of its hart in
  \<^verbatim>\<open>mscratch\<close>, as \<^verbatim>\<open>timerinit\<close> sets it up.  It moves the hart's \<^verbatim>\<open>mtimecmp\<close> on by the interval, raises a supervisor software
  interrupt, and returns with all registers and \<^verbatim>\<open>mscratch\<close> as they were; other memory than the compare register and the first
  three words of the scratch area is unchanged.
\<close>

theorem timervec_rearms:
  assumes "mmode h" "csrs h Mscratch AND 7 = 0" "load64 (hmem h) (csrs h Mscratch + 24) AND 7 = 0"
    and "ranges_disjoint (csrs h Mscratch) 40 (load64 (hmem h) (csrs h Mscratch + 24)) 8"
  shows "\<exists>k. exec_asm adr call timervec h = Some (By_mret, k) \<and> xr k = xr h \<and> csrs k = (csrs h)(Sip := 2)
    \<and> load64 (hmem k) (load64 (hmem h) (csrs h Mscratch + 24))
        = load64 (hmem h) (load64 (hmem h) (csrs h Mscratch + 24)) + load64 (hmem h) (csrs h Mscratch + 32)
    \<and> (\<forall>y. in_range (csrs h Mscratch) 24 y \<or> in_range (load64 (hmem h) (csrs h Mscratch + 24)) 8 y \<or> hmem k y = hmem h y)"
proof -
  define a where "a = csrs h Mscratch"
  define t where "t = load64 (hmem h) (a + 24)"
  let ?tbl = "[(A1, 0), (A2, 8), (A3, 16)]"
  define m where "m = save_words ?tbl (xr h) a (hmem h)"
  define v where "v = load64 (hmem h) t + load64 (hmem h) (a + 32)"
  define m' where "m' = store64 m t v"
  have ok: "table_ok 24 ?tbl" by (simp add: table_ok_def)
  have al: "a AND 7 = 0" "(a + 8) AND 7 = 0" "(a + 16) AND 7 = 0" "(a + 24) AND 7 = 0" "(a + 32) AND 7 = 0" "t AND 7 = 0"
    using assms(2,3) aligned_off[of a 8] aligned_off[of a 16] aligned_off[of a 24] aligned_off[of a 32] by (simp_all add: a_def t_def)
  have tr: "translate perm g b = Some b" if "mmode g" "b AND 7 = 0" for perm g b using that by (simp add: translate_def)
  have dj: "ranges_disjoint (a + of_nat k) 8 t 8" "ranges_disjoint t 8 (a + of_nat k) 8" if "k + 8 \<le> 40" for k
    using assms(4) in_range_off[of a k _ 40] that by (auto simp: ranges_disjoint_def a_def t_def)
  have mt: "load64 m t = load64 (hmem h) t"
    unfolding m_def using dj(1)[of 0] dj(1)[of 8] dj(1)[of 16] by (simp add: save_words_def load64_store64_disjoint)
  have mk: "load64 m (a + 24) = t" "load64 m (a + 32) = load64 (hmem h) (a + 32)"
    using save_words_unsaved[OF ok, of 24 "xr h" a "hmem h"] save_words_unsaved[OF ok, of 32 "xr h" a "hmem h"] by (simp_all add: m_def t_def)
  have ms: "load64 m a = xr h A1" "load64 m (a + 8) = xr h A2" "load64 m (a + 16) = xr h A3"
    using save_words_saved[OF ok, of A1 0 "xr h" a "hmem h"] save_words_saved[OF ok, of A2 8 "xr h" a "hmem h"]
      save_words_saved[OF ok, of A3 16 "xr h" a "hmem h"] by (simp_all add: m_def)
  have ms': "load64 m' a = xr h A1" "load64 m' (a + 8) = xr h A2" "load64 m' (a + 16) = xr h A3"
    unfolding m'_def using dj(2)[of 0] dj(2)[of 8] dj(2)[of 16] ms by (simp_all add: load64_store64_disjoint)
  have mem: "store64 (store64 (store64 (hmem h) a (xr h A1)) (a + 8) (xr h A2)) (a + 16) (xr h A3) = m"
    by (simp add: m_def save_words_def)
  let ?k = "h\<lparr>hmem := m', csrs := (csrs h)(Sip := 2)\<rparr>"
  have run: "exec_asm adr call timervec h = Some (By_mret, ?k)"
  proof -
    have eq: "csrs h Mscratch = a" by (simp add: a_def)
    have v: "load64 (hmem h) t + load64 (hmem h) (a + 32) = v" by (simp add: v_def)
    have cs: "(csrs h)(Sip := 2, Mscratch := a) = (csrs h)(Sip := 2)" by (auto simp: eq)
    show ?thesis
      unfolding timervec_def
      by (simp add: tr al assms(1) set_reg_def set_csr_def eq mem mk mt v m'_def[symmetric] ms' cs)
  qed
  have "hmem ?k y = hmem h y" if "\<not> in_range a 24 y" "\<not> in_range t 8 y" for y
    using save_words_other[OF ok that(1)] that(2) by (simp add: m'_def m_def store64_other)
  then show ?thesis
    unfolding a_def[symmetric] t_def[symmetric]
    by (intro exI[of _ ?k]) (use run in \<open>auto simp: m'_def load64_store64_same v_def\<close>)
qed

text \<open>The scratch area at \<open>0x8000\<close>, with the compare register at \<open>0x2004000\<close> and the interval of \<^verbatim>\<open>timerinit\<close>.\<close>

definition timer_hart :: hart where
  "timer_hart = \<lparr>xr = \<lambda>_. 0x1234, csrs = (\<lambda>_. 0)(Mscratch := 0x8000),
     hmem = store64 (store64 (\<lambda>_. 0) 0x8018 0x2004000) 0x8020 1000000, mmode = True\<rparr>"

theorem timervec_rearms_witness:
  "\<exists>k. exec_asm (\<lambda>_. 0) (\<lambda>_ h. h) timervec timer_hart = Some (By_mret, k) \<and> load64 (hmem k) 0x2004000 = 1000000 \<and> csrs k Sip = 2 \<and> xr k A1 = 0x1234"
proof -
  have ld: "load64 (hmem timer_hart) 0x8018 = 0x2004000" "load64 (hmem timer_hart) 0x8020 = 1000000" "load64 (hmem timer_hart) 0x2004000 = 0"
    by (simp_all add: timer_hart_def load64_store64_same load64_store64_apart load64_zero)
  have c: "csrs timer_hart Mscratch = 0x8000" "mmode timer_hart" "xr timer_hart A1 = 0x1234" by (simp_all add: timer_hart_def)
  have "ranges_disjoint 0x8000 40 0x2004000 8" by (rule ranges_disjoint_apart) simp_all
  then show ?thesis using timervec_rearms[OF c(2), of "\<lambda>_. 0" "\<lambda>_ h. h"] by (auto simp: c ld)
qed

text \<open>Each hart enters \<^verbatim>\<open>start\<close> with its own 4096 bytes of \<^verbatim>\<open>stack0\<close>.\<close>

lemma entry_stack:
  "\<exists>k. exec_asm adr (\<lambda>_ g. g) (entry_code @ [RET]) h = Some (Jump (xr h Ra), k) \<and> xr k Sp = adr ''stack0'' + 4096 * (csrs h Mhartid + 1)"
  by (simp add: entry_code_def set_reg_def algebra_simps)

end
