(* ===== verification/Uio.thy ===== *)
theory Uio
  imports Prelude
begin

text \<open>
  How user programs see \<^verbatim>\<open>read\<close>.  The rest of the input is a string; the kernel decides how much of it a call delivers, or that the
  call fails.  The sequence of these decisions is a parameter of the programs.
\<close>

text \<open>The result of reading into a buffer of \<open>k\<close> bytes, when the kernel is ready to deliver \<open>a\<close>.\<close>

definition read_result :: "int \<Rightarrow> nat \<Rightarrow> string \<Rightarrow> int" where
  "read_result a k inp = (if a < 0 then - 1 else min a (int (min k (length inp))))"

lemma read_result_pos: "0 < read_result a k inp \<Longrightarrow> inp \<noteq> []"
  by (cases inp) (auto simp: read_result_def split: if_splits)

lemma read_result_le: "nat (read_result a k inp) \<le> length inp" "nat (read_result a k inp) \<le> k"
  by (auto simp: read_result_def)

lemma read_result_less: "0 < read_result a k inp \<Longrightarrow> length inp - nat (read_result a k inp) < length inp"
  using read_result_pos[of a k inp] by (cases inp) auto

end
