(* ===== verification/Grep.thy ===== *)
theory Grep
  imports Uio
begin

text \<open>
  \<^verbatim>\<open>user/grep.c\<close>: the regular-expression matcher and the loop that reads a file in pieces and
  prints the matching lines.  A NUL-terminated string is the list of its characters before the NUL.
\<close>

section \<open>The matcher\<close>

function matchhere :: "string \<Rightarrow> string \<Rightarrow> bool"
  and matchstar :: "char \<Rightarrow> string \<Rightarrow> string \<Rightarrow> bool" where
  "matchhere re text = (case re of
     [] \<Rightarrow> True
   | c # re1 \<Rightarrow>
       if re1 \<noteq> [] \<and> hd re1 = CHR ''*'' then matchstar c (tl re1) text
       else if c = CHR ''$'' \<and> re1 = [] then text = []
       else if text \<noteq> [] \<and> (c = CHR ''.'' \<or> c = hd text) then matchhere re1 (tl text)
       else False)"
| "matchstar c re text =
     (if matchhere re text then True
      else if text \<noteq> [] \<and> (hd text = c \<or> c = CHR ''.'') then matchstar c re (tl text)
      else False)"
  by pat_completeness auto
termination
  by (relation "measures [\<lambda>x. case x of Inl (re, text) \<Rightarrow> 2 * length re | Inr (c, re, text) \<Rightarrow> 2 * length re + 1,
      \<lambda>x. case x of Inl (re, text) \<Rightarrow> 0 | Inr (c, re, text) \<Rightarrow> length text]") auto

declare matchhere.simps [simp del] matchstar.simps [simp del]

fun match_any :: "string \<Rightarrow> string \<Rightarrow> bool" where
  "match_any re text = (if matchhere re text then True else case text of [] \<Rightarrow> False | _ # text \<Rightarrow> match_any re text)"

declare match_any.simps [simp del]

definition match :: "string \<Rightarrow> string \<Rightarrow> bool" where
  "match re text = (if re \<noteq> [] \<and> hd re = CHR ''^'' then matchhere (tl re) text else match_any re text)"

section \<open>The language of a pattern\<close>

text \<open>The items of a pattern, and whether it ends with \<^verbatim>\<open>$\<close>.\<close>

datatype item = Lit char | Rep char

fun items :: "string \<Rightarrow> item list \<times> bool" where
  "items [] = ([], False)"
| "items [c] = (if c = CHR ''$'' then ([], True) else ([Lit c], False))"
| "items (c # d # re) =
     (if d = CHR ''*'' then let (ps, e) = items re in (Rep c # ps, e)
      else let (ps, e) = items (d # re) in (Lit c # ps, e))"

definition allows :: "char \<Rightarrow> char \<Rightarrow> bool" where
  "allows c t \<longleftrightarrow> c = CHR ''.'' \<or> c = t"

fun lang :: "item list \<Rightarrow> string set" where
  "lang [] = {[]}"
| "lang (Lit c # ps) = {t # w | t w. allows c t \<and> w \<in> lang ps}"
| "lang (Rep c # ps) = {u @ w | u w. list_all (allows c) u \<and> w \<in> lang ps}"

definition found_at_start :: "item list \<times> bool \<Rightarrow> string \<Rightarrow> bool" where
  "found_at_start p text \<longleftrightarrow> (\<exists>w rest. text = w @ rest \<and> w \<in> lang (fst p) \<and> (snd p \<longrightarrow> rest = []))"

lemma foundI: "text = w @ rest \<Longrightarrow> w \<in> lang ps \<Longrightarrow> e \<longrightarrow> rest = [] \<Longrightarrow> found_at_start (ps, e) text"
  by (auto simp: found_at_start_def)

lemma found_empty: "found_at_start ([], e) text \<longleftrightarrow> (e \<longrightarrow> text = [])"
  by (auto simp: found_at_start_def)

lemma found_Lit: "found_at_start (Lit c # ps, e) text \<longleftrightarrow> text \<noteq> [] \<and> allows c (hd text) \<and> found_at_start (ps, e) (tl text)"
proof (cases "text")
  case (Cons t ts)
  show ?thesis
  proof
    assume "found_at_start (Lit c # ps, e) text"
    then obtain w rest where w: "text = w @ rest" "w \<in> lang (Lit c # ps)" "e \<longrightarrow> rest = []" by (auto simp: found_at_start_def)
    then obtain w' where "w = t # w'" "allows c t" "w' \<in> lang ps" using Cons by auto
    then show "text \<noteq> [] \<and> allows c (hd text) \<and> found_at_start (ps, e) (tl text)" using w Cons by (auto simp: found_at_start_def)
  next
    assume r: "text \<noteq> [] \<and> allows c (hd text) \<and> found_at_start (ps, e) (tl text)"
    then obtain w rest where w: "ts = w @ rest" "w \<in> lang ps" "e \<longrightarrow> rest = []" using Cons by (auto simp: found_at_start_def)
    have "text = (t # w) @ rest" "t # w \<in> lang (Lit c # ps)" using r w Cons by auto
    then show "found_at_start (Lit c # ps, e) text" using w(3) by (rule foundI)
  qed
qed (auto simp: found_at_start_def)

lemma lang_RepI: "list_all (allows c) u \<Longrightarrow> w \<in> lang ps \<Longrightarrow> u @ w \<in> lang (Rep c # ps)"
  by auto

lemma found_RepD:
  assumes "found_at_start (Rep c # ps, e) text"
  obtains u w rest where "text = u @ w @ rest" "list_all (allows c) u" "w \<in> lang ps" "e \<longrightarrow> rest = []"
proof -
  obtain v rest where v: "text = v @ rest" "v \<in> lang (Rep c # ps)" "e \<longrightarrow> rest = []"
    using assms by (auto simp: found_at_start_def)
  then obtain u w where "v = u @ w" "list_all (allows c) u" "w \<in> lang ps" by auto
  then show thesis using v by (intro that[of u w rest]) simp_all
qed

lemma found_Rep:
  "found_at_start (Rep c # ps, e) text \<longleftrightarrow>
     found_at_start (ps, e) text \<or> text \<noteq> [] \<and> allows c (hd text) \<and> found_at_start (Rep c # ps, e) (tl text)"
proof
  assume "found_at_start (Rep c # ps, e) text"
  then obtain u w rest where u: "text = u @ w @ rest" "list_all (allows c) u" "w \<in> lang ps" "e \<longrightarrow> rest = []"
    by (rule found_RepD)
  show "found_at_start (ps, e) text \<or> text \<noteq> [] \<and> allows c (hd text) \<and> found_at_start (Rep c # ps, e) (tl text)"
  proof (cases u)
    case Nil
    then show ?thesis using u by (auto simp: found_at_start_def)
  next
    case (Cons a v)
    have "v @ w \<in> lang (Rep c # ps)" using u Cons by (intro lang_RepI) simp_all
    then have "found_at_start (Rep c # ps, e) (tl text)" using u Cons by (intro foundI[of _ "v @ w" rest]) simp_all
    then show ?thesis using u Cons by (simp add: allows_def)
  qed
next
  assume "found_at_start (ps, e) text \<or> text \<noteq> [] \<and> allows c (hd text) \<and> found_at_start (Rep c # ps, e) (tl text)"
  then show "found_at_start (Rep c # ps, e) text"
  proof
    assume "found_at_start (ps, e) text"
    then obtain w rest where w: "text = w @ rest" "w \<in> lang ps" "e \<longrightarrow> rest = []" by (auto simp: found_at_start_def)
    have "w \<in> lang (Rep c # ps)" using lang_RepI[of c "[]" w ps] w(2) by simp
    then show ?thesis using w(1,3) by (intro foundI)
  next
    assume r: "text \<noteq> [] \<and> allows c (hd text) \<and> found_at_start (Rep c # ps, e) (tl text)"
    obtain u w rest where u: "tl text = u @ w @ rest" "list_all (allows c) u" "w \<in> lang ps" "e \<longrightarrow> rest = []"
      using found_RepD[of c ps e "tl text"] r by blast
    then have "text = ((hd text # u) @ w) @ rest" using r by (metis append.assoc append_Cons list.collapse)
    moreover have "(hd text # u) @ w \<in> lang (Rep c # ps)" using r u(2,3) by (intro lang_RepI) simp_all
    ultimately show ?thesis using u(4) by (rule foundI)
  qed
qed

lemma matchhere_found:
  "matchhere re text \<longleftrightarrow> found_at_start (items re) text"
  "matchstar c re text \<longleftrightarrow> found_at_start (Rep c # fst (items re), snd (items re)) text"
proof (induction re "text" and c re "text" rule: matchhere_matchstar.induct)
  case (1 re s)
  show ?case
  proof (cases re rule: items.cases)
    case 1
    then show ?thesis by (simp add: matchhere.simps[of "[]"] found_empty)
  next
    case (2 c)
    then show ?thesis using "1.IH"(2)[of c "[]"] by (auto simp: matchhere.simps[of "[c]"] found_empty found_Lit allows_def)
  next
    case (3 c d re')
    then show ?thesis
      using "1.IH"(1)[of c "d # re'"] "1.IH"(2)[of c "d # re'"]
      by (auto simp: matchhere.simps[of "c # d # re'"] found_Lit allows_def split: prod.splits)
  qed
next
  case (2 c re s)
  then show ?case
    using found_Rep[of c "fst (items re)" "snd (items re)" s]
    by (auto simp: matchstar.simps[of c re s] allows_def)
qed

text \<open>A pattern: whether it starts with \<^verbatim>\<open>^\<close>, its items, and whether it ends with \<^verbatim>\<open>$\<close>.\<close>

definition pattern :: "string \<Rightarrow> bool \<times> item list \<times> bool" where
  "pattern re = (if re \<noteq> [] \<and> hd re = CHR ''^'' then (True, items (tl re)) else (False, items re))"

definition occurs :: "bool \<times> item list \<times> bool \<Rightarrow> string \<Rightarrow> bool" where
  "occurs p text = (case p of (a, ps, e) \<Rightarrow>
     \<exists>u w v. text = u @ w @ v \<and> w \<in> lang ps \<and> (a \<longrightarrow> u = []) \<and> (e \<longrightarrow> v = []))"

lemma match_any_suffix: "match_any re text \<longleftrightarrow> (\<exists>u v. text = u @ v \<and> matchhere re v)"
proof (induction "text")
  case Nil
  then show ?case by (simp add: match_any.simps[of re "[]"])
next
  case (Cons c s)
  have "match_any re (c # s) \<longleftrightarrow> matchhere re (c # s) \<or> match_any re s" by (simp add: match_any.simps[of re "c # s"])
  also have "\<dots> \<longleftrightarrow> (\<exists>u v. c # s = u @ v \<and> matchhere re v)" by (auto simp: Cons Cons_eq_append_conv)
  finally show ?case .
qed

text \<open>
  C36 (the matcher finds exactly the occurrences of its pattern). \<^verbatim>\<open>match\<close> returns true exactly when the text contains a word of the
  pattern's language, at its start if the pattern begins with \<^verbatim>\<open>^\<close> and at its end if it ends with \<^verbatim>\<open>$\<close>; a \<^verbatim>\<open>.\<close> stands for any
  character and \<^verbatim>\<open>*\<close> for any number of the character before it.
\<close>

theorem match_correct: "match re text \<longleftrightarrow> occurs (pattern re) text"
proof (cases "re \<noteq> [] \<and> hd re = CHR ''^''")
  case True
  obtain ps e where i: "items (tl re) = (ps, e)" by (cases "items (tl re)")
  show ?thesis using True by (auto simp: match_def pattern_def occurs_def matchhere_found found_at_start_def i)
next
  case False
  obtain ps e where i: "items re = (ps, e)" by (cases "items re")
  have "match re text \<longleftrightarrow> (\<exists>u v. text = u @ v \<and> found_at_start (ps, e) v)"
    using False by (auto simp: match_def match_any_suffix matchhere_found i)
  also have "\<dots> \<longleftrightarrow> occurs (pattern re) text"
    using False by (auto simp: pattern_def occurs_def found_at_start_def i)
  finally show ?thesis .
qed

section \<open>The reading loop\<close>

text \<open>
  The inner loop of \<^verbatim>\<open>grep\<close> on the \<open>m\<close> bytes of the buffer: the lines written, and the bytes moved to the
  front.  \<^verbatim>\<open>strchr\<close> does not look beyond a NUL.
\<close>

abbreviation newline :: char where "newline \<equiv> CHR 0x0A"

function scan_lines :: "string \<Rightarrow> string \<Rightarrow> string list \<times> string" where
  "scan_lines pat b =
     (if newline \<in> set (takeWhile (\<lambda>c. c \<noteq> CHR 0x00) b) then
        let l = takeWhile (\<lambda>c. c \<noteq> newline) b;
            (out, rest) = scan_lines pat (drop (Suc (length l)) b)
        in (if match pat l then (l @ [newline]) # out else out, rest)
      else ([], b))"
  by pat_completeness auto
termination
proof (relation "measure (\<lambda>(pat, b). length b)")
  fix pat b l assume "newline \<in> set (takeWhile (\<lambda>c. c \<noteq> CHR 0x00) b)"
  then have "b \<noteq> []" by auto
  then show "((pat, drop (Suc (length l)) b), pat, b) \<in> measure (\<lambda>(pat, b). length b)" by simp
qed simp

declare scan_lines.simps [simp del]

text \<open>\<^verbatim>\<open>grep\<close>: the buffer has 1024 bytes and keeps one for the NUL.\<close>

function grep_loop :: "string \<Rightarrow> (nat \<Rightarrow> int) \<Rightarrow> nat \<Rightarrow> string \<Rightarrow> string \<Rightarrow> string list" where
  "grep_loop pat amount i inp buf =
     (let n = read_result (amount i) (1023 - length buf) inp in
      if n > 0 then
        let (out, rest) = scan_lines pat (buf @ take (nat n) inp)
        in out @ grep_loop pat amount (Suc i) (drop (nat n) inp) rest
      else [])"
  by pat_completeness auto
termination
  by (relation "measure (\<lambda>(pat, amount, i, inp, buf). length inp)") (auto intro: read_result_less)

declare grep_loop.simps [simp del]

definition grep :: "string \<Rightarrow> (nat \<Rightarrow> int) \<Rightarrow> string \<Rightarrow> string list" where
  "grep pat amount inp = grep_loop pat amount 0 inp []"

text \<open>\<^verbatim>\<open>main\<close>: what is written to which descriptor, and the exit status.\<close>

fun grep_files :: "(nat \<Rightarrow> int) \<Rightarrow> (string \<Rightarrow> string option) \<Rightarrow> string \<Rightarrow> string list \<Rightarrow> (int \<times> string) list \<times> int" where
  "grep_files amount files pat [] = ([], 0)"
| "grep_files amount files pat (name # names) = (case files name of
     None \<Rightarrow> ([(1, ''grep: cannot open '' @ name @ [CHR 0x0A])], 1)
   | Some inp \<Rightarrow> (case grep_files amount files pat names of (out, r) \<Rightarrow> (map (Pair 1) (grep pat amount inp) @ out, r)))"

definition grep_main :: "(nat \<Rightarrow> int) \<Rightarrow> (string \<Rightarrow> string option) \<Rightarrow> string \<Rightarrow> string list \<Rightarrow> (int \<times> string) list \<times> int" where
  "grep_main amount files stdin argv = (case argv of
     prog # pat # names \<Rightarrow> if names = [] then (map (Pair 1) (grep pat amount stdin), 0) else grep_files amount files pat names
   | _ \<Rightarrow> ([(2, ''usage: grep pattern [file ...]'' @ [CHR 0x0A])], 1))"

section \<open>Lines\<close>

fun split_lines :: "string \<Rightarrow> string list" where
  "split_lines [] = [[]]"
| "split_lines (c # s) = (if c = newline then [] # split_lines s else (c # hd (split_lines s)) # tl (split_lines s))"

lemma split_lines_nonempty [simp]: "split_lines s \<noteq> []"
  by (cases s) auto

lemma split_lines_append: "split_lines (a @ b) = butlast (split_lines a) @ split_lines (last (split_lines a) @ b)"
proof (induction a)
  case (Cons c a)
  obtain l ls where ls: "split_lines a = l # ls" by (cases "split_lines a") simp_all
  show ?case
  proof (cases "c = newline")
    case False
    then show ?thesis using Cons ls by (cases ls) simp_all
  qed (use Cons in simp)
qed simp

lemma split_lines_first: "newline \<notin> set s \<Longrightarrow> split_lines s = [s]"
  by (induction s) auto

lemma split_lines_cons: "newline \<notin> set l \<Longrightarrow> split_lines (l @ newline # s) = l # split_lines s"
  by (induction l) auto

lemma last_split_lines: "newline \<notin> set (last (split_lines s))"
proof (induction s)
  case (Cons c s)
  obtain l ls where "split_lines s = l # ls" by (cases "split_lines s") simp_all
  then show ?case using Cons by (cases ls) auto
qed simp

lemma set_last_split_lines: "set (last (split_lines s)) \<subseteq> set s"
proof (induction s)
  case (Cons c s)
  obtain l ls where "split_lines s = l # ls" by (cases "split_lines s") simp_all
  then show ?case using Cons by (cases ls) auto
qed simp

lemma split_lines_prefix: "newline \<notin> set s \<Longrightarrow> split_lines t = l # ls \<Longrightarrow> split_lines (s @ t) = (s @ l) # ls"
  by (induction s) auto

lemma scan_lines_split:
  assumes "CHR 0x00 \<notin> set b"
  shows "scan_lines pat b = (map (\<lambda>l. l @ [newline]) (filter (match pat) (butlast (split_lines b))), last (split_lines b))"
  using assms
proof (induction pat b rule: scan_lines.induct)
  case (1 pat b)
  have tw: "takeWhile (\<lambda>c. c \<noteq> CHR 0x00) b = b" unfolding takeWhile_eq_all_conv using 1(2) by auto
  show ?case
  proof (cases "newline \<in> set b")
    case True
    then obtain l d where b: "b = l @ newline # d" and nl: "newline \<notin> set l" by (blast dest: split_list_first)
    have l: "takeWhile (\<lambda>c. c \<noteq> newline) b = l" using nl unfolding b by (subst takeWhile_append2) auto
    have s: "drop (Suc (length l)) b = d" unfolding b by simp
    have sp: "split_lines b = l # split_lines d" unfolding b by (rule split_lines_cons[OF nl])
    have "CHR 0x00 \<notin> set d" using 1(2) b by simp
    then have "scan_lines pat d = (map (\<lambda>l. l @ [newline]) (filter (match pat) (butlast (split_lines d))), last (split_lines d))"
      using 1(1)[unfolded tw, of l] True s l by simp
    then show ?thesis unfolding scan_lines.simps[of pat b] tw using True s sp l by (simp add: Let_def)
  next
    case False
    then show ?thesis unfolding scan_lines.simps[of pat b] tw by (simp add: split_lines_first)
  qed
qed

text \<open>
  C37 (what \<^verbatim>\<open>grep\<close> prints). On input without NUL whose lines all fit in the buffer (at most 1022 characters), and however the
  input is cut into pieces by \<^verbatim>\<open>read\<close>, \<^verbatim>\<open>grep\<close> terminates and writes exactly the newline-terminated
  lines that match the pattern, in order.
\<close>

theorem grep_prints_matching_lines:
  assumes "\<And>i. 0 < amount i" "CHR 0x00 \<notin> set inp" "\<And>l. l \<in> set (split_lines inp) \<Longrightarrow> length l < 1023"
  shows "grep pat amount inp = map (\<lambda>l. l @ [newline]) (filter (match pat) (butlast (split_lines inp)))"
proof -
  have "grep_loop pat amount i inp buf = map (\<lambda>l. l @ [newline]) (filter (match pat) (butlast (split_lines (buf @ inp))))"
    if "newline \<notin> set buf" "CHR 0x00 \<notin> set (buf @ inp)" "\<And>l. l \<in> set (split_lines (buf @ inp)) \<Longrightarrow> length l < 1023" for i buf inp
    using that
  proof (induction "length inp" arbitrary: i buf inp rule: less_induct)
    case less
    obtain l ls where ls: "split_lines inp = l # ls" by (cases "split_lines inp") simp_all
    have "split_lines (buf @ inp) = (buf @ l) # ls" by (rule split_lines_prefix[OF less.prems(1) ls])
    then have short: "length (buf @ l) < 1023" using less.prems(3)[of "buf @ l"] by simp
    define n where "n = nat (read_result (amount i) (1023 - length buf) inp)"
    show ?case
    proof (cases "inp = []")
      case True
      then show ?thesis using less.prems(1) by (simp add: grep_loop.simps[of pat amount i] split_lines_first read_result_def)
    next
      case False
      then have n: "0 < n" using assms(1)[of i] short by (simp add: n_def read_result_def)
      then have pos: "0 < read_result (amount i) (1023 - length buf) inp" by (simp add: n_def)
      let ?b = "buf @ take n inp"
      let ?r = "last (split_lines ?b)"
      have nul: "CHR 0x00 \<notin> set ?b" using less.prems(2) by (auto dest: in_set_takeD)
      have cut: "split_lines (buf @ inp) = butlast (split_lines ?b) @ split_lines (?r @ drop n inp)"
        using split_lines_append[of ?b "drop n inp"] by simp
      have "set ?r \<subseteq> set ?b" by (rule set_last_split_lines)
      then have r: "CHR 0x00 \<notin> set (?r @ drop n inp)" using nul less.prems(2) by (auto dest: in_set_dropD)
      have "length (drop n inp) < length inp" using n False by auto
      then have "grep_loop pat amount (Suc i) (drop n inp) ?r
          = map (\<lambda>l. l @ [newline]) (filter (match pat) (butlast (split_lines (?r @ drop n inp))))"
        by (rule less.hyps) (use last_split_lines r less.prems(3) cut in auto)
      then show ?thesis
        using n by (simp add: grep_loop.simps[of pat amount i inp] pos n_def[symmetric] Let_def scan_lines_split[OF nul] cut butlast_append)
    qed
  qed
  from this[of "[]" inp 0] show ?thesis using assms(2,3) by (simp add: grep_def)
qed

theorem grep_prints_matching_lines_witness:
  "grep ''^a*b$'' (\<lambda>_. 3) (''aab'' @ [newline] @ ''abc'' @ [newline] @ ''b'' @ [newline] @ ''b'') = [''aab'' @ [newline], ''b'' @ [newline]]"
proof -
  let ?inp = "''aab'' @ [newline] @ ''abc'' @ [newline] @ ''b'' @ [newline] @ ''b''"
  have sp: "split_lines ?inp = [''aab'', ''abc'', ''b'', ''b'']" by simp
  have "match ''^a*b$'' ''aab''" "\<not> match ''^a*b$'' ''abc''" "match ''^a*b$'' ''b''"
    by (simp_all add: match_def matchhere.simps matchstar.simps)
  moreover have "l \<in> set (split_lines ?inp) \<Longrightarrow> length l < 1023" for l unfolding sp by auto
  then have "grep ''^a*b$'' (\<lambda>_. 3) ?inp = map (\<lambda>l. l @ [newline]) (filter (match ''^a*b$'') (butlast (split_lines ?inp)))"
    by (intro grep_prints_matching_lines) simp_all
  ultimately show ?thesis unfolding sp by simp
qed

end
