(* ===== verification/Uprintf.thy ===== *)
theory Uprintf
  imports Kprintf Uio
begin

text \<open>
  Formatted output of user programs, \<^verbatim>\<open>user/printf.c\<close>: the characters that \<^verbatim>\<open>putc\<close> writes, one system call each.
\<close>

section \<open>Numbers\<close>

definition udigits :: string where
  "udigits = ''0123456789ABCDEF''"

text \<open>The do-while loop of \<^verbatim>\<open>printint\<close>, least significant digit first.\<close>

function udigit_loop :: "nat \<Rightarrow> nat \<Rightarrow> string" where
  "udigit_loop base x =
     udigits ! (x mod base) # (if x div base = 0 \<or> base < 2 then [] else udigit_loop base (x div base))"
  by pat_completeness auto
termination
  by (relation "measure snd") (auto intro: div_less_dividend simp: div_eq_0_iff)

declare udigit_loop.simps [simp del]

text \<open>The argument is converted to a C int by the call; the magnitude is a 32-bit unsigned number.\<close>

definition uprintint :: "int \<Rightarrow> nat \<Rightarrow> bool \<Rightarrow> string" where
  "uprintint xx base sign =
     (let neg = (sign \<and> xx < 0);
          x = (if neg then of_int (- xx) else of_int xx) :: u32;
          buf = udigit_loop base (unat x) @ (if neg then ''-'' else [])
      in rev buf)"

primrec uprintptr_loop :: "nat \<Rightarrow> u64 \<Rightarrow> string" where
  "uprintptr_loop 0 x = []"
| "uprintptr_loop (Suc k) x = udigits ! unat (drop_bit 60 x) # uprintptr_loop k (push_bit 4 x)"

definition uprintptr :: "u64 \<Rightarrow> string" where
  "uprintptr x = ''0x'' @ uprintptr_loop 16 x"

section \<open>Formats\<close>

text \<open>
  \<^verbatim>\<open>vprintf\<close> keeps a state: \<open>True\<close> after a \<^verbatim>\<open>%\<close>.  \<open>%l\<close> fetches a 64-bit argument, of which \<^verbatim>\<open>printint\<close> sees
  the low 32 bits.
\<close>

datatype uarg = AInt int | ALong u64 | APtr u64 | AStr "string option" | AChar char

fun vprintf :: "bool \<Rightarrow> string \<Rightarrow> uarg list \<Rightarrow> string option" where
  "vprintf state [] ap = Some []"
| "vprintf False (c # fmt) ap =
     (if c = CHR ''%'' then vprintf True fmt ap else map_option (Cons c) (vprintf False fmt ap))"
| "vprintf True (c # fmt) ap =
     (if c = CHR ''d'' then
        (case ap of AInt n # as \<Rightarrow> map_option (append (uprintint n 10 True)) (vprintf False fmt as) | _ \<Rightarrow> None)
      else if c = CHR ''l'' then
        (case ap of ALong n # as \<Rightarrow> map_option (append (uprintint (sint (ucast n :: u32)) 10 False)) (vprintf False fmt as) | _ \<Rightarrow> None)
      else if c = CHR ''x'' then
        (case ap of AInt n # as \<Rightarrow> map_option (append (uprintint n 16 False)) (vprintf False fmt as) | _ \<Rightarrow> None)
      else if c = CHR ''p'' then
        (case ap of APtr x # as \<Rightarrow> map_option (append (uprintptr x)) (vprintf False fmt as) | _ \<Rightarrow> None)
      else if c = CHR ''s'' then
        (case ap of
           AStr t # as \<Rightarrow> map_option (append (case t of None \<Rightarrow> ''(null)'' | Some t \<Rightarrow> t)) (vprintf False fmt as)
         | _ \<Rightarrow> None)
      else if c = CHR ''c'' then
        (case ap of AChar d # as \<Rightarrow> map_option (Cons d) (vprintf False fmt as) | _ \<Rightarrow> None)
      else if c = CHR ''%'' then map_option (Cons c) (vprintf False fmt ap)
      else map_option (append [CHR ''%'', c]) (vprintf False fmt ap))"

definition fprintf :: "int \<Rightarrow> string \<Rightarrow> uarg list \<Rightarrow> (int \<times> string) option" where
  "fprintf fd fmt ap = map_option (Pair fd) (vprintf False fmt ap)"

definition uprintf :: "string \<Rightarrow> uarg list \<Rightarrow> (int \<times> string) option" where
  "uprintf fmt ap = fprintf 1 fmt ap"

section \<open>Formats as a sequence of pieces\<close>

text \<open>
  A format made of plain text and conversions, written as the format string, its arguments and its output.
\<close>

datatype piece = Text string | Arg uarg

fun conv :: "uarg \<Rightarrow> char" where
  "conv (AInt n) = CHR ''d''" | "conv (ALong n) = CHR ''l''" | "conv (APtr x) = CHR ''p''" | "conv (AStr t) = CHR ''s''" | "conv (AChar c) = CHR ''c''"

fun shown :: "uarg \<Rightarrow> string" where
  "shown (AInt n) = uprintint n 10 True"
| "shown (ALong n) = uprintint (sint (ucast n :: u32)) 10 False"
| "shown (APtr x) = uprintptr x"
| "shown (AStr t) = (case t of None \<Rightarrow> ''(null)'' | Some t \<Rightarrow> t)"
| "shown (AChar c) = [c]"

fun escape :: "string \<Rightarrow> string" where
  "escape [] = []"
| "escape (c # s) = (if c = CHR ''%'' then [CHR ''%'', CHR ''%''] else [c]) @ escape s"

fun format_of :: "piece list \<Rightarrow> string" where
  "format_of [] = []"
| "format_of (Text s # ps) = escape s @ format_of ps"
| "format_of (Arg a # ps) = CHR ''%'' # conv a # format_of ps"

fun args_of :: "piece list \<Rightarrow> uarg list" where
  "args_of [] = []" | "args_of (Text s # ps) = args_of ps" | "args_of (Arg a # ps) = a # args_of ps"

fun shown_pieces :: "piece list \<Rightarrow> string" where
  "shown_pieces [] = []" | "shown_pieces (Text s # ps) = s @ shown_pieces ps" | "shown_pieces (Arg a # ps) = shown a @ shown_pieces ps"

lemma vprintf_escape: "vprintf False (escape s @ fmt) ap = map_option (append s) (vprintf False fmt ap)"
proof (induction s)
  case Nil
  show ?case by (cases "vprintf False fmt ap") simp_all
next
  case (Cons c s)
  then show ?case by (cases "vprintf False fmt ap") simp_all
qed

text \<open>
  A format built from text and conversions prints the text and the arguments in their order, whatever the text contains.
\<close>

lemma vprintf_pieces: "vprintf False (format_of ps) (args_of ps) = Some (shown_pieces ps)"
proof (induction ps)
  case (Cons p ps)
  then show ?case
  proof (cases p)
    case (Arg a)
    then show ?thesis using Cons by (cases a) simp_all
  qed (simp add: vprintf_escape)
qed simp

end
