(* ===== verification/Uprogs.thy ===== *)
theory Uprogs
  imports Uprintf
begin

text \<open>
  The small programs under \<^verbatim>\<open>user/\<close>, as trees of system calls: a node is a call with what the program does for each
  result, the leaves are \<^verbatim>\<open>exit\<close>.  The loops that end only when a system call says so take the number of rounds as an argument and are
  still running after that many.
\<close>

section \<open>System calls and programs\<close>

datatype syscall = SRead int nat | SWrite int string | SOpen string int | SClose int | SFork | SWait | SExec string "string list"
  | SKill int | SUnlink string | SMkdir string | SLink string string | STrace int | SSetPriority int int | SDup int | SMknod string int int
  | SPipe | SChdir string | SSleep int | SFstat int

text \<open>The result of a call: its value, and the bytes it delivers to the program.\<close>

type_synonym sysret = "int \<times> string"

datatype uprog = UExit int | Running | Undefined | Sys syscall "sysret \<Rightarrow> uprog"

text \<open>Running a program in a world \<open>'w\<close> that answers the calls.\<close>

primrec run :: "('w \<Rightarrow> syscall \<Rightarrow> sysret \<times> 'w) \<Rightarrow> uprog \<Rightarrow> 'w \<Rightarrow> int option \<times> 'w" where
  "run step (UExit n) = (\<lambda>w. (Some n, w))"
| "run step Running = (\<lambda>w. (None, w))"
| "run step Undefined = (\<lambda>w. (None, w))"
| "run step (Sys c k) = (\<lambda>w. case step w c of (r, w) \<Rightarrow> run step (k r) w)"

text \<open>\<^verbatim>\<open>putc\<close> of \<^verbatim>\<open>user/printf.c\<close> makes one system call per character.\<close>

primrec putcs :: "int \<Rightarrow> string \<Rightarrow> uprog \<Rightarrow> uprog" where
  "putcs fd [] k = k"
| "putcs fd (c # s) k = Sys (SWrite fd [c]) (\<lambda>_. putcs fd s k)"

definition print_then :: "int \<Rightarrow> string \<Rightarrow> uarg list \<Rightarrow> uprog \<Rightarrow> uprog" where
  "print_then fd fmt ap k = (case fprintf fd fmt ap of None \<Rightarrow> Undefined | Some (fd, s) \<Rightarrow> putcs fd s k)"

abbreviation nl :: string where "nl \<equiv> [CHR 0x0A]"

section \<open>Programs without input\<close>

fun echo_loop :: "string list \<Rightarrow> uprog" where
  "echo_loop [] = UExit 0"
| "echo_loop (a # as) = Sys (SWrite 1 a) (\<lambda>_. Sys (SWrite 1 (if as \<noteq> [] then '' '' else nl)) (\<lambda>_. echo_loop as))"

definition echo_main :: "string list \<Rightarrow> uprog" where
  "echo_main argv = echo_loop (drop 1 argv)"

text \<open>\<^verbatim>\<open>atoi\<close> of \<^verbatim>\<open>user/ulib.c\<close>: the digits at the start, as a C int.\<close>

fun atoi_loop :: "int \<Rightarrow> string \<Rightarrow> int" where
  "atoi_loop n [] = n"
| "atoi_loop n (c # s) =
     (let d = of_char c :: int in if 48 \<le> d \<and> d \<le> 57 then atoi_loop (i32 (n * 10 + d - 48)) s else n)"

definition atoi :: "string \<Rightarrow> int" where
  "atoi s = atoi_loop 0 s"

fun kill_loop :: "string list \<Rightarrow> uprog" where
  "kill_loop [] = UExit 0"
| "kill_loop (a # as) = Sys (SKill (atoi a)) (\<lambda>_. kill_loop as)"

definition kill_main :: "string list \<Rightarrow> uprog" where
  "kill_main argv = (if length argv < 2 then print_then 2 (''usage: kill pid...'' @ nl) [] (UExit 1) else kill_loop (drop 1 argv))"

fun rm_loop :: "string list \<Rightarrow> uprog" where
  "rm_loop [] = UExit 0"
| "rm_loop (a # as) = Sys (SUnlink a) (\<lambda>(r, _).
     if r < 0 then print_then 2 (''rm: %s failed to delete'' @ nl) [AStr (Some a)] (UExit 0) else rm_loop as)"

definition rm_main :: "string list \<Rightarrow> uprog" where
  "rm_main argv = (if length argv < 2 then print_then 2 (''Usage: rm files...'' @ nl) [] (UExit 1) else rm_loop (drop 1 argv))"

fun mkdir_loop :: "string list \<Rightarrow> uprog" where
  "mkdir_loop [] = UExit 0"
| "mkdir_loop (a # as) = Sys (SMkdir a) (\<lambda>(r, _).
     if r < 0 then print_then 2 (''mkdir: %s failed to create'' @ nl) [AStr (Some a)] (UExit 0) else mkdir_loop as)"

definition mkdir_main :: "string list \<Rightarrow> uprog" where
  "mkdir_main argv = (if length argv < 2 then print_then 2 (''Usage: mkdir files...'' @ nl) [] (UExit 1) else mkdir_loop (drop 1 argv))"

definition ln_main :: "string list \<Rightarrow> uprog" where
  "ln_main argv =
     (if length argv \<noteq> 3 then print_then 2 (''Usage: ln old new'' @ nl) [] (UExit 1)
      else Sys (SLink (argv ! 1) (argv ! 2)) (\<lambda>(r, _).
        if r < 0 then print_then 2 (''link %s %s: failed'' @ nl) [AStr (Some (argv ! 1)), AStr (Some (argv ! 2))] (UExit 0)
        else UExit 0))"

definition strace_main :: "string list \<Rightarrow> uprog" where
  "strace_main argv =
     (if length argv < 3 then print_then 2 (''Usage: strace <integer-mask> command...'' @ nl) [] (UExit 1)
      else let mask = atoi (argv ! 1) in
        Sys SFork (\<lambda>(id, _).
          if id < 0 then print_then 2 (''fork failed'' @ nl) [] (UExit 1)
          else let waits = Sys SWait (\<lambda>_. UExit 0) in
            if id = 0 then Sys (STrace mask) (\<lambda>_. Sys (SExec (argv ! 2) (drop 2 argv)) (\<lambda>(r, _).
              if r < 0 then print_then 2 (''exec failed'' @ nl) [] (UExit 1) else waits))
            else waits))"

definition setpriority_main :: "bool \<Rightarrow> string list \<Rightarrow> uprog" where
  "setpriority_main pbs argv =
     (if length argv \<noteq> 3 then print_then 2 (''Usage: setpriority <new_priority> <pid>'' @ nl) [] (UExit 1)
      else if pbs then
        Sys (SSetPriority (atoi (argv ! 1)) (atoi (argv ! 2))) (\<lambda>(r, _).
          if r < 0 then print_then 2 (''could not set priority'' @ nl) [] (UExit 1) else UExit 0)
      else print_then 2 (''kernel not compiled with Priority Based Scheduling'' @ nl) [] (UExit 1))"

definition zombie_main :: uprog where
  "zombie_main = Sys SFork (\<lambda>(r, _). if r > 0 then Sys (SSleep 5) (\<lambda>_. UExit 0) else UExit 0)"

section \<open>init\<close>

text \<open>The inner loop waits for the shell, the outer one starts it again.\<close>

fun init_wait :: "nat \<Rightarrow> int \<Rightarrow> uprog \<Rightarrow> uprog" where
  "init_wait 0 pid again = Running"
| "init_wait (Suc f) pid again = Sys SWait (\<lambda>(wpid, _).
     if wpid = pid then again
     else if wpid < 0 then print_then 1 (''init: wait returned an error'' @ nl) [] (UExit 1)
     else init_wait f pid again)"

fun init_loop :: "nat \<Rightarrow> uprog" where
  "init_loop 0 = Running"
| "init_loop (Suc f) = print_then 1 (''init: starting sh'' @ nl) [] (Sys SFork (\<lambda>(pid, _).
     if pid < 0 then print_then 1 (''init: fork failed'' @ nl) [] (UExit 1)
     else if pid = 0 then Sys (SExec ''sh'' [''sh'']) (\<lambda>_. print_then 1 (''init: exec sh failed'' @ nl) [] (UExit 1))
     else init_wait f pid (init_loop f)))"

definition init_main :: "nat \<Rightarrow> uprog" where
  "init_main f = Sys (SOpen ''console'' 2) (\<lambda>(fd, _).
     let dups = Sys (SDup 0) (\<lambda>_. Sys (SDup 0) (\<lambda>_. init_loop f)) in
     if fd < 0 then Sys (SMknod ''console'' 1 0) (\<lambda>_. Sys (SOpen ''console'' 2) (\<lambda>_. dups)) else dups)"

section \<open>cat and wc\<close>

fun cat_loop :: "nat \<Rightarrow> int \<Rightarrow> uprog \<Rightarrow> uprog" where
  "cat_loop 0 fd k = Running"
| "cat_loop (Suc f) fd k = Sys (SRead fd 512) (\<lambda>(n, buf).
     if n > 0 then Sys (SWrite 1 (take (nat n) buf)) (\<lambda>(w, _).
       if w \<noteq> n then print_then 2 (''cat: write error'' @ nl) [] (UExit 1) else cat_loop f fd k)
     else if n < 0 then print_then 2 (''cat: read error'' @ nl) [] (UExit 1)
     else k)"

fun cat_files :: "nat \<Rightarrow> string list \<Rightarrow> uprog" where
  "cat_files f [] = UExit 0"
| "cat_files f (a # as) = Sys (SOpen a 0) (\<lambda>(fd, _).
     if fd < 0 then print_then 2 (''cat: cannot open %s'' @ nl) [AStr (Some a)] (UExit 1)
     else cat_loop f fd (Sys (SClose fd) (\<lambda>_. cat_files f as)))"

definition cat_main :: "nat \<Rightarrow> string list \<Rightarrow> uprog" where
  "cat_main f argv = (if length argv \<le> 1 then cat_loop f 0 (UExit 0) else cat_files f (drop 1 argv))"

definition is_space :: "char \<Rightarrow> bool" where
  "is_space c \<longleftrightarrow> c \<in> set [CHR '' '', CHR 0x0D, CHR 0x09, CHR 0x0A, CHR 0x0B]"

text \<open>The counters of \<^verbatim>\<open>wc\<close>: lines, words, characters, and whether the last character was in a word.\<close>

record wcount =
  wc_l :: int
  wc_w :: int
  wc_c :: int
  inword :: bool

definition wc_char :: "char \<Rightarrow> wcount \<Rightarrow> wcount" where
  "wc_char b s =
     (let s = s\<lparr>wc_c := i32 (wc_c s + 1)\<rparr>;
          s = (if b = CHR 0x0A then s\<lparr>wc_l := i32 (wc_l s + 1)\<rparr> else s)
      in if is_space b then s\<lparr>inword := False\<rparr>
         else if \<not> inword s then s\<lparr>wc_w := i32 (wc_w s + 1), inword := True\<rparr>
         else s)"

fun wc_loop :: "nat \<Rightarrow> int \<Rightarrow> wcount \<Rightarrow> (wcount \<Rightarrow> uprog) \<Rightarrow> uprog" where
  "wc_loop 0 fd s k = Running"
| "wc_loop (Suc f) fd s k = Sys (SRead fd 512) (\<lambda>(n, buf).
     if n > 0 then wc_loop f fd (fold wc_char (take (nat n) buf) s) k
     else if n < 0 then print_then 1 (''wc: read error'' @ nl) [] (UExit 1)
     else k s)"

definition wc :: "nat \<Rightarrow> int \<Rightarrow> string \<Rightarrow> uprog \<Rightarrow> uprog" where
  "wc f fd name k = wc_loop f fd \<lparr>wc_l = 0, wc_w = 0, wc_c = 0, inword = False\<rparr> (\<lambda>s.
     print_then 1 (''%d %d %d %s'' @ nl) [AInt (wc_l s), AInt (wc_w s), AInt (wc_c s), AStr (Some name)] k)"

fun wc_files :: "nat \<Rightarrow> string list \<Rightarrow> uprog" where
  "wc_files f [] = UExit 0"
| "wc_files f (a # as) = Sys (SOpen a 0) (\<lambda>(fd, _).
     if fd < 0 then print_then 1 (''wc: cannot open %s'' @ nl) [AStr (Some a)] (UExit 1)
     else wc f fd a (Sys (SClose fd) (\<lambda>_. wc_files f as)))"

definition wc_main :: "nat \<Rightarrow> string list \<Rightarrow> uprog" where
  "wc_main f argv = (if length argv \<le> 1 then wc f 0 [] (UExit 0) else wc_files f (drop 1 argv))"

section \<open>Reading a stream to its end\<close>

text \<open>
  What \<^verbatim>\<open>read\<close> and \<^verbatim>\<open>write\<close> promise for descriptor \<open>fd\<close> of a file or pipe in good order: a read delivers some of the remaining bytes
  and none only at the end, a write takes all bytes.
\<close>

definition reads_stream :: "('w \<Rightarrow> syscall \<Rightarrow> sysret \<times> 'w) \<Rightarrow> int \<Rightarrow> ('w \<Rightarrow> string) \<Rightarrow> ('w \<Rightarrow> string) \<Rightarrow> bool" where
  "reads_stream step fd rest out \<longleftrightarrow> (\<forall>w k n buf w'. 0 < k \<longrightarrow> step w (SRead fd k) = ((n, buf), w') \<longrightarrow>
     0 \<le> n \<and> length buf = nat n \<and> rest w = buf @ rest w' \<and> (n = 0 \<longrightarrow> rest w = []) \<and> out w' = out w)"

definition writes_all :: "('w \<Rightarrow> syscall \<Rightarrow> sysret \<times> 'w) \<Rightarrow> int \<Rightarrow> ('w \<Rightarrow> string) \<Rightarrow> ('w \<Rightarrow> string) \<Rightarrow> bool" where
  "writes_all step fd rest out \<longleftrightarrow> (\<forall>w s n x w'. step w (SWrite fd s) = ((n, x), w') \<longrightarrow>
     n = int (length s) \<and> out w' = out w @ s \<and> rest w' = rest w)"

text \<open>The number of words: positions where a word starts.\<close>

definition word_starts :: "string \<Rightarrow> nat" where
  "word_starts s = length (filter (\<lambda>i. \<not> is_space (s ! i) \<and> (i = 0 \<or> is_space (s ! (i - 1)))) [0..<length s])"

lemma reads_streamD:
  assumes "reads_stream step fd rest out" "step w (SRead fd k) = ((n, buf), w')" "0 < k"
  shows "0 \<le> n" "take (nat n) buf = buf" "rest w = buf @ rest w'" "n = 0 \<Longrightarrow> rest w = []" "0 < n \<Longrightarrow> length (rest w') < length (rest w)" "out w' = out w" "length buf = nat n"
proof -
  have D: "0 \<le> n \<and> length buf = nat n \<and> rest w = buf @ rest w' \<and> (n = 0 \<longrightarrow> rest w = []) \<and> out w' = out w"
    using assms unfolding reads_stream_def by blast
  then show "0 \<le> n" "take (nat n) buf = buf" "rest w = buf @ rest w'" "n = 0 \<Longrightarrow> rest w = []" "out w' = out w" "length buf = nat n" by auto
  show "0 < n \<Longrightarrow> length (rest w') < length (rest w)" using D by (cases buf) auto
qed

text \<open>
  C38 (\<^verbatim>\<open>cat\<close> copies its input). On an input and an output in good order \<^verbatim>\<open>cat\<close> terminates, in at most one round per byte and one more,
  with the rest of the input appended to the output, however the reads cut it.
\<close>

theorem cat_copies:
  assumes "reads_stream step fd rest out" "writes_all step 1 rest out" "length (rest w) < f"
  shows "\<exists>w'. run step (cat_loop f fd k) w = run step k w' \<and> out w' = out w @ rest w \<and> rest w' = []"
  using assms(3)
proof (induction f arbitrary: w)
  case (Suc f)
  obtain n buf w1 where r: "step w (SRead fd 512) = ((n, buf), w1)" by (metis prod.exhaust)
  note R = reads_streamD[OF assms(1) r zero_less_numeral]
  show ?case
  proof (cases "0 < n")
    case True
    obtain m x w2 where w: "step w1 (SWrite 1 buf) = ((m, x), w2)" by (metis prod.exhaust)
    have W: "m = int (length buf)" "out w2 = out w1 @ buf" "rest w2 = rest w1" using assms(2) w unfolding writes_all_def by blast+
    have n: "n = int (length buf)" using R(7) True by simp
    have "length (rest w2) < f" using R(5) True W(3) Suc.prems by simp
    then obtain w' where "run step (cat_loop f fd k) w2 = run step k w'" "out w' = out w2 @ rest w2" "rest w' = []" using Suc.IH by blast
    then show ?thesis using r w True R(2,3,6) W n by (intro exI[of _ w']) simp
  next
    case False
    then have "n = 0" using R(1) by simp
    then show ?thesis using r R(3,4,6) by (intro exI[of _ w1]) simp
  qed
qed simp

lemma wc_reads:
  assumes "reads_stream step fd rest out" "length (rest w) < f"
  shows "\<exists>w'. run step (wc_loop f fd s k) w = run step (k (fold wc_char (rest w) s)) w' \<and> out w' = out w \<and> rest w' = []"
  using assms(2)
proof (induction f arbitrary: w s)
  case (Suc f)
  obtain n buf w1 where r: "step w (SRead fd 512) = ((n, buf), w1)" by (metis prod.exhaust)
  note R = reads_streamD[OF assms(1) r zero_less_numeral]
  show ?case
  proof (cases "0 < n")
    case True
    have "length (rest w1) < f" using R(5) True Suc.prems by simp
    then obtain w' where "run step (wc_loop f fd (fold wc_char buf s) k) w1 = run step (k (fold wc_char (rest w1) (fold wc_char buf s))) w'"
      "out w' = out w1" "rest w' = []" using Suc.IH by blast
    then show ?thesis using r True R(2,3,6) by (intro exI[of _ w']) simp
  next
    case False
    then have "n = 0" using R(1) by simp
    then show ?thesis using r R(3,4,6) by (intro exI[of _ w1]) simp
  qed
qed simp

lemma word_starts_snoc:
  "word_starts (s @ [c]) = word_starts s + (if \<not> is_space c \<and> (s = [] \<or> is_space (last s)) then 1 else 0)"
proof -
  let ?P = "\<lambda>s i. \<not> is_space (s ! i) \<and> (i = 0 \<or> is_space (s ! (i - 1)))"
  have "filter (?P (s @ [c])) [0..<length s] = filter (?P s) [0..<length s]"
    by (rule filter_cong) (auto simp: nth_append)
  moreover have "?P (s @ [c]) (length s) \<longleftrightarrow> \<not> is_space c \<and> (s = [] \<or> is_space (last s))"
    by (cases s rule: rev_cases) (simp_all add: nth_append)
  ultimately show ?thesis by (simp add: word_starts_def)
qed

lemma word_starts_le: "word_starts s \<le> length s"
  unfolding word_starts_def by (metis length_filter_le length_upt diff_zero)

lemma wc_counted:
  assumes "length s < 2 ^ 31"
  shows "fold wc_char s \<lparr>wc_l = 0, wc_w = 0, wc_c = 0, inword = False\<rparr>
    = \<lparr>wc_l = int (count_list s CHR 0x0A), wc_w = int (word_starts s), wc_c = int (length s), inword = (s \<noteq> [] \<and> \<not> is_space (last s))\<rparr>"
  using assms
proof (induction s rule: rev_induct)
  case Nil
  show ?case by (simp add: word_starts_def)
next
  case (snoc c s)
  have b: "int (length s) + 1 < 2 ^ 31" "int (count_list s CHR 0x0A) + 1 < 2 ^ 31" "int (word_starts s) + 1 < 2 ^ 31"
    using snoc.prems count_le_length[of s "CHR 0x0A"] word_starts_le[of s] by simp_all
  have "is_space CHR 0x0A" by (simp add: is_space_def)
  then show ?case
    using snoc b by (auto simp: wc_char_def Let_def word_starts_snoc i32_id)
qed

text \<open>
  C39 (\<^verbatim>\<open>wc\<close> counts). On an input in good order of fewer than \<open>2 ^ 31\<close> bytes \<^verbatim>\<open>wc\<close> terminates and prints the number of newlines, of words and of
  bytes, where a word is a maximal run of characters other than white space, also across reads.
\<close>

theorem wc_counts:
  assumes "reads_stream step fd rest out" "length (rest w) < f" "length (rest w) < 2 ^ 31"
  shows "\<exists>w'. run step (wc f fd name k) w
      = run step (print_then 1 (''%d %d %d %s'' @ nl) [AInt (int (count_list (rest w) CHR 0x0A)), AInt (int (word_starts (rest w))),
          AInt (int (length (rest w))), AStr (Some name)] k) w' \<and> out w' = out w \<and> rest w' = []"
proof -
  let ?s = "\<lparr>wc_l = 0, wc_w = 0, wc_c = 0, inword = False\<rparr>"
  let ?k = "\<lambda>s. print_then 1 (''%d %d %d %s'' @ nl) [AInt (wc_l s), AInt (wc_w s), AInt (wc_c s), AStr (Some name)] k"
  show ?thesis using wc_reads[OF assms(1,2), of ?s ?k] unfolding wc_def wc_counted[OF assms(3)] by simp
qed

section \<open>An example\<close>

text \<open>A world with input on descriptor 0, delivered three bytes at a time, and output on descriptor 1.\<close>

definition tiny_step :: "string \<times> string \<Rightarrow> syscall \<Rightarrow> sysret \<times> (string \<times> string)" where
  "tiny_step w c = (case c of
     SRead fd k \<Rightarrow> let b = take (min 3 k) (fst w) in ((int (length b), b), (drop (length b) (fst w), snd w))
   | SWrite fd s \<Rightarrow> ((int (length s), []), (fst w, snd w @ s))
   | _ \<Rightarrow> ((0, []), w))"

lemma tiny_world: "reads_stream tiny_step 0 fst snd" "writes_all tiny_step 1 fst snd"
proof -
  show "reads_stream tiny_step 0 fst snd"
    unfolding reads_stream_def
  proof (intro allI impI)
    fix w :: "string \<times> string" and k n buf w' assume k: "0 < (k :: nat)" and s: "tiny_step w (SRead 0 k) = ((n, buf), w')"
    let ?b = "take (min 3 k) (fst w)"
    have "buf = ?b" "n = int (length ?b)" "w' = (drop (length ?b) (fst w), snd w)" using s by (auto simp: tiny_step_def Let_def)
    moreover have "fst w = ?b @ drop (length ?b) (fst w)" by (simp add: min_def)
    moreover have "length ?b = 0 \<Longrightarrow> fst w = []" using k by (cases "fst w") (auto simp: min_def split: if_splits)
    ultimately show "0 \<le> n \<and> length buf = nat n \<and> fst w = buf @ fst w' \<and> (n = 0 \<longrightarrow> fst w = []) \<and> snd w' = snd w" by simp
  qed
  show "writes_all tiny_step 1 fst snd" by (simp add: writes_all_def tiny_step_def)
qed

theorem cat_copies_witness: "\<exists>w'. run tiny_step (cat_loop 9 0 (UExit 0)) (''abcdefgh'', []) = (Some 0, w') \<and> snd w' = ''abcdefgh''"
  using cat_copies[OF tiny_world, of "(''abcdefgh'', [])" 9 "UExit 0"] by auto

theorem wc_counts_witness:
  "\<exists>w'. run tiny_step (wc 9 0 ''f'' (UExit 0)) (''ab cd'' @ nl, []) = run tiny_step (print_then 1 (''%d %d %d %s'' @ nl) [AInt 1, AInt 2, AInt 6, AStr (Some ''f'')] (UExit 0)) w'"
proof -
  have "word_starts (''ab cd'' @ nl) = 2" by (simp add: word_starts_def is_space_def)
  then show ?thesis using wc_counts[OF tiny_world(1), of "(''ab cd'' @ nl, [])" 9 "''f''" "UExit 0"] by auto
qed

end
