(* ===== verification/Sh.thy ===== *)
theory Sh
  imports Uprogs "HOL-Library.Sublist"
begin

text \<open>
  The shell, \<^verbatim>\<open>user/sh.c\<close>: its parser, the termination of the strings in the line buffer, and what it does with a parsed
  command.  A pointer into the line is the rest of the line from there, without the final NUL.
\<close>

section \<open>Commands\<close>

type_synonym ptr = string

text \<open>A word of the line: where it starts and where it ends (\<^verbatim>\<open>argv\<close> and \<^verbatim>\<open>eargv\<close>, \<^verbatim>\<open>file\<close> and \<^verbatim>\<open>efile\<close>).\<close>

type_synonym wordp = "ptr \<times> ptr"

datatype 'w cmd = EXEC "'w list" | REDIR "'w cmd" 'w int int | PIPE "'w cmd" "'w cmd" | LIST "'w cmd" "'w cmd" | BACK "'w cmd"

definition whitespace :: string where
  "whitespace = [CHR '' '', CHR 0x09, CHR 0x0D, CHR 0x0A, CHR 0x0B]"

definition symbols :: string where
  "symbols = ''<|>&;()''"

definition plain :: "char \<Rightarrow> bool" where
  "plain c \<longleftrightarrow> c \<notin> set whitespace \<and> c \<notin> set symbols"

section \<open>Tokens\<close>

definition skip :: "ptr \<Rightarrow> ptr" where
  "skip s = dropWhile (\<lambda>c. c \<in> set whitespace) s"

text \<open>The \<^verbatim>\<open>switch\<close> of \<^verbatim>\<open>gettoken\<close>: the token at \<open>s\<close> and where it ends.\<close>

definition tok_end :: "ptr \<Rightarrow> char \<times> ptr" where
  "tok_end s = (case s of
     [] \<Rightarrow> (CHR 0x00, s)
   | c # r \<Rightarrow>
       if c \<in> set ''|();&<'' then (c, r)
       else if c = CHR ''>'' then (if r \<noteq> [] \<and> hd r = CHR ''>'' then (CHR ''+'', tl r) else (c, r))
       else (CHR ''a'', dropWhile plain s))"

text \<open>\<^verbatim>\<open>gettoken\<close>: the token, where it starts and ends, and the rest of the line.\<close>

definition gettoken :: "ptr \<Rightarrow> char \<times> ptr \<times> ptr \<times> ptr" where
  "gettoken s = (let q = skip s; (ret, e) = tok_end q in (ret, q, e, skip e))"

definition peek :: "ptr \<Rightarrow> string \<Rightarrow> bool \<times> ptr" where
  "peek s toks = (let s = skip s in (s \<noteq> [] \<and> hd s \<in> set toks, s))"

section \<open>The parser\<close>

text \<open>
  \<open>PPanic\<close> is a call of \<^verbatim>\<open>panic\<close>, \<open>Leftovers\<close> the one of \<^verbatim>\<open>parsecmd\<close>, which prints the rest of the line first.  The fuel bounds the
  calls and the rounds of the loops; \<open>parse_fuel\<close> is shown to be enough below.
\<close>

datatype 'a pres = POK 'a ptr | PPanic string | Leftovers ptr | OutOfFuel

definition pbind :: "'a pres \<Rightarrow> ('a \<Rightarrow> ptr \<Rightarrow> 'b pres) \<Rightarrow> 'b pres" where
  "pbind m k = (case m of POK a s \<Rightarrow> k a s | PPanic e \<Rightarrow> PPanic e | Leftovers s \<Rightarrow> Leftovers s | OutOfFuel \<Rightarrow> OutOfFuel)"

text \<open>
  \<^verbatim>\<open>parseredirs\<close> wraps the command in the redirections it finds; here they are collected in order and \<open>wrap\<close> applies them.
  \<^verbatim>\<open>parseexec\<close> adds the arguments to the innermost command, which is the same as building it at the end.
\<close>

definition redirect :: "char \<Rightarrow> wordp \<Rightarrow> wordp \<times> int \<times> int" where
  "redirect tok w =
     (if tok = CHR ''<'' then (w, 0, 0) else if tok = CHR ''>'' then (w, 0x601, 1) else (w, 0x201, 1))"

fun parseredirs :: "nat \<Rightarrow> (wordp \<times> int \<times> int) list \<Rightarrow> ptr \<Rightarrow> (wordp \<times> int \<times> int) list pres" where
  "parseredirs 0 rs s = OutOfFuel"
| "parseredirs (Suc f) rs s =
     (let (p, s) = peek s ''<>'' in
      if p then
        let (tok, _, _, s) = gettoken s; (tok2, q, eq, s) = gettoken s in
        if tok2 \<noteq> CHR ''a'' then PPanic ''missing file for redirection''
        else parseredirs f (rs @ [redirect tok (q, eq)]) s
      else POK rs s)"

definition wrap :: "'w cmd \<Rightarrow> ('w \<times> int \<times> int) list \<Rightarrow> 'w cmd" where
  "wrap c rs = foldl (\<lambda>c (w, mode, fd). REDIR c w mode fd) c rs"

fun exec_loop :: "nat \<Rightarrow> wordp list \<Rightarrow> (wordp \<times> int \<times> int) list \<Rightarrow> ptr \<Rightarrow> wordp cmd pres" where
  "exec_loop 0 args rs s = OutOfFuel"
| "exec_loop (Suc f) args rs s =
     (let (p, s) = peek s ''|)&;'' in
      if p then POK (wrap (EXEC args) rs) s
      else let (tok, q, eq, s) = gettoken s in
        if tok = CHR 0x00 then POK (wrap (EXEC args) rs) s
        else if tok \<noteq> CHR ''a'' then PPanic ''syntax''
        else let args = args @ [(q, eq)] in
          if length args \<ge> 10 then PPanic ''too many args''
          else pbind (parseredirs f rs s) (\<lambda>rs s. exec_loop f args rs s))"

fun back_loop :: "nat \<Rightarrow> wordp cmd \<Rightarrow> ptr \<Rightarrow> wordp cmd pres" where
  "back_loop 0 c s = OutOfFuel"
| "back_loop (Suc f) c s =
     (let (p, s) = peek s ''&'' in
      if p then let (_, _, _, s) = gettoken s in back_loop f (BACK c) s else POK c s)"

fun parseline :: "nat \<Rightarrow> ptr \<Rightarrow> wordp cmd pres"
and parsepipe :: "nat \<Rightarrow> ptr \<Rightarrow> wordp cmd pres"
and parseexec :: "nat \<Rightarrow> ptr \<Rightarrow> wordp cmd pres"
and parseblock :: "nat \<Rightarrow> ptr \<Rightarrow> wordp cmd pres" where
  "parseline 0 s = OutOfFuel"
| "parseline (Suc f) s =
     pbind (parsepipe f s) (\<lambda>c s. pbind (back_loop f c s) (\<lambda>c s.
       let (p, s) = peek s '';'' in
       if p then let (_, _, _, s) = gettoken s in pbind (parseline f s) (\<lambda>d s. POK (LIST c d) s)
       else POK c s))"
| "parsepipe 0 s = OutOfFuel"
| "parsepipe (Suc f) s =
     pbind (parseexec f s) (\<lambda>c s.
       let (p, s) = peek s ''|'' in
       if p then let (_, _, _, s) = gettoken s in pbind (parsepipe f s) (\<lambda>d s. POK (PIPE c d) s)
       else POK c s)"
| "parseexec 0 s = OutOfFuel"
| "parseexec (Suc f) s =
     (let (p, s) = peek s ''('' in
      if p then parseblock f s else pbind (parseredirs f [] s) (\<lambda>rs s. exec_loop f [] rs s))"
| "parseblock 0 s = OutOfFuel"
| "parseblock (Suc f) s =
     (let (p, s) = peek s ''('' in
      if \<not> p then PPanic ''parseblock''
      else let (_, _, _, s) = gettoken s in
        pbind (parseline f s) (\<lambda>c s.
          let (p, s) = peek s '')'' in
          if \<not> p then PPanic ''syntax - missing )''
          else let (_, _, _, s) = gettoken s in
            pbind (parseredirs f [] s) (\<lambda>rs s. POK (wrap c rs) s)))"

definition parse_fuel :: "string \<Rightarrow> nat" where
  "parse_fuel s = 8 * length s + 8"

text \<open>\<^verbatim>\<open>parsecmd\<close> up to the termination of the strings.\<close>

definition parsecmd :: "string \<Rightarrow> wordp cmd pres" where
  "parsecmd s =
     pbind (parseline (parse_fuel s) s) (\<lambda>c s.
       let (_, s) = peek s [] in if s \<noteq> [] then Leftovers s else POK c s)"

text \<open>\<^verbatim>\<open>nulterminate\<close> writes a NUL where each word ends; \<open>b\<close> is the line buffer, with the final NUL.\<close>

definition put_nul :: "ptr \<Rightarrow> string \<Rightarrow> string" where
  "put_nul e b = b[length b - 1 - length e := CHR 0x00]"

fun nulterminate :: "wordp cmd \<Rightarrow> string \<Rightarrow> string" where
  "nulterminate (EXEC args) b = fold (\<lambda>(q, eq). put_nul eq) args b"
| "nulterminate (REDIR c (q, eq) mode fd) b = put_nul eq (nulterminate c b)"
| "nulterminate (PIPE l r) b = nulterminate r (nulterminate l b)"
| "nulterminate (LIST l r) b = nulterminate r (nulterminate l b)"
| "nulterminate (BACK c) b = nulterminate c b"

text \<open>The C string that starts at a pointer, in the buffer \<open>b\<close>.\<close>

definition cstring :: "string \<Rightarrow> ptr \<Rightarrow> string" where
  "cstring b q = takeWhile (\<lambda>c. c \<noteq> CHR 0x00) (drop (length b - 1 - length q) b)"

section \<open>Running a command\<close>

definition panic_sh :: "string \<Rightarrow> uprog" where
  "panic_sh s = print_then 2 (''%s'' @ nl) [AStr (Some s)] (UExit 1)"

definition fork1 :: "(int \<Rightarrow> uprog) \<Rightarrow> uprog" where
  "fork1 k = Sys SFork (\<lambda>(pid, _). if pid = - 1 then panic_sh ''fork'' else k pid)"

definition sys_seq :: "syscall list \<Rightarrow> uprog \<Rightarrow> uprog" where
  "sys_seq cs k = foldr (\<lambda>c k. Sys c (\<lambda>_. k)) cs k"

text \<open>
  \<^verbatim>\<open>runcmd\<close> on a command whose words are strings.  The two descriptors \<^verbatim>\<open>pipe\<close> returns are in the low bytes of the two words it
  stores.
\<close>

fun runcmd :: "string cmd \<Rightarrow> uprog" where
  "runcmd (EXEC argv) =
     (case argv of [] \<Rightarrow> UExit 1
      | a # as \<Rightarrow> Sys (SExec a argv) (\<lambda>_. print_then 2 (''exec %s failed'' @ nl) [AStr (Some a)] (UExit 0)))"
| "runcmd (REDIR c file mode fd) =
     Sys (SClose fd) (\<lambda>_. Sys (SOpen file mode) (\<lambda>(r, _).
       if r < 0 then print_then 2 (''open %s failed'' @ nl) [AStr (Some file)] (UExit 1) else runcmd c))"
| "runcmd (LIST l r) = fork1 (\<lambda>pid. if pid = 0 then runcmd l else Sys SWait (\<lambda>_. runcmd r))"
| "runcmd (PIPE l r) = Sys SPipe (\<lambda>(x, d).
     if x < 0 then panic_sh ''pipe''
     else let p0 = of_char (d ! 0); p1 = of_char (d ! 4) in
       fork1 (\<lambda>pid. if pid = 0 then sys_seq [SClose 1, SDup p1, SClose p0, SClose p1] (runcmd l)
       else fork1 (\<lambda>pid. if pid = 0 then sys_seq [SClose 0, SDup p0, SClose p0, SClose p1] (runcmd r)
       else sys_seq [SClose p0, SClose p1, SWait, SWait] (UExit 0))))"
| "runcmd (BACK c) = fork1 (\<lambda>pid. if pid = 0 then runcmd c else UExit 0)"

section \<open>The main loop\<close>

text \<open>\<^verbatim>\<open>gets\<close> of \<^verbatim>\<open>user/ulib.c\<close>, with room for \<open>room\<close> more characters.\<close>

fun gets_loop :: "nat \<Rightarrow> string \<Rightarrow> (string \<Rightarrow> uprog) \<Rightarrow> uprog" where
  "gets_loop 0 buf k = k buf"
| "gets_loop (Suc room) buf k = Sys (SRead 0 1) (\<lambda>(cc, d).
     if cc < 1 then k buf
     else let buf = buf @ [d ! 0] in
       if d ! 0 = CHR 0x0A \<or> d ! 0 = CHR 0x0D then k buf else gets_loop room buf k)"

definition gets :: "nat \<Rightarrow> (string \<Rightarrow> uprog) \<Rightarrow> uprog" where
  "gets n k = gets_loop (n - 1) [] k"

text \<open>The line as a C string ends at the first NUL.\<close>

definition getcmd :: "nat \<Rightarrow> (string \<Rightarrow> uprog) \<Rightarrow> uprog \<Rightarrow> uprog" where
  "getcmd nbuf k eof = Sys (SWrite 2 ''$ '') (\<lambda>_. gets nbuf (\<lambda>buf.
     let buf = takeWhile (\<lambda>c. c \<noteq> CHR 0x00) buf in if buf = [] then eof else k buf))"

text \<open>\<^verbatim>\<open>runcmd(parsecmd(buf))\<close>.\<close>

definition run_line :: "string \<Rightarrow> uprog" where
  "run_line s = (case parsecmd s of
     POK c _ \<Rightarrow> (let b = nulterminate c (s @ [CHR 0x00]) in runcmd (map_cmd (\<lambda>(q, eq). cstring b q) c))
   | PPanic e \<Rightarrow> panic_sh e
   | Leftovers r \<Rightarrow> print_then 2 (''leftovers: %s'' @ nl) [AStr (Some r)] (panic_sh ''syntax'')
   | OutOfFuel \<Rightarrow> Running)"

fun sh_loop :: "nat \<Rightarrow> uprog" where
  "sh_loop 0 = Running"
| "sh_loop (Suc f) = getcmd 100 (\<lambda>buf.
     if take 3 buf = ''cd '' then
       let dir = drop 3 (butlast buf) in
       Sys (SChdir dir) (\<lambda>(r, _).
         if r < 0 then print_then 2 (''cannot cd %s'' @ nl) [AStr (Some dir)] (sh_loop f) else sh_loop f)
     else fork1 (\<lambda>pid. if pid = 0 then run_line buf else Sys SWait (\<lambda>_. sh_loop f)))
     (UExit 0)"

text \<open>The loop that makes sure that three descriptors are open, then the command loop.\<close>

fun sh_open :: "nat \<Rightarrow> uprog \<Rightarrow> uprog" where
  "sh_open 0 k = Running"
| "sh_open (Suc f) k = Sys (SOpen ''console'' 2) (\<lambda>(fd, _).
     if fd \<ge> 0 then if fd \<ge> 3 then Sys (SClose fd) (\<lambda>_. k) else sh_open f k else k)"

definition sh_main :: "nat \<Rightarrow> uprog" where
  "sh_main f = sh_open f (sh_loop f)"

section \<open>The parser returns, with the words of the line\<close>

text \<open>A word of the line \<open>b\<close>: plain characters, up to one that is not plain or the end of the line.\<close>

definition good_word :: "string \<Rightarrow> wordp \<Rightarrow> bool" where
  "good_word b w \<longleftrightarrow> (case w of (q, e) \<Rightarrow>
     suffix q b \<and> (\<exists>u. q = u @ e \<and> u \<noteq> [] \<and> (\<forall>c \<in> set u. plain c)) \<and> (e = [] \<or> \<not> plain (hd e)))"

lemma good_word_suffix:
  assumes "good_word s w" "suffix s b"
  shows "good_word b w"
  using assms by (auto simp: good_word_def intro: suffix_order.trans split: prod.splits)

lemma skip_suffix [simp]: "suffix (skip s) s"
  by (simp add: skip_def suffix_dropWhile)

lemma skip_skip [simp]: "skip (skip s) = skip s"
  by (simp add: skip_def dropWhile_idem)

lemma peek_skip [simp]: "peek (skip s) t = peek s t"
  by (simp add: peek_def)

lemma gettoken_skip [simp]: "gettoken (skip s) = gettoken s"
  by (simp add: gettoken_def)

lemma skip_hd: "skip s = c # r \<Longrightarrow> c \<notin> set whitespace"
  unfolding skip_def by (metis dropWhile_eq_Cons_conv)

lemma tok_end_suffix:
  assumes "tok_end q = (ret, e)"
  shows "suffix e q"
proof (cases q)
  case (Cons c r)
  have "suffix r q" "suffix (tl r) q" "suffix (dropWhile plain q) q"
    using Cons by (auto intro: suffix_ConsI suffix_tl suffix_dropWhile)
  then show ?thesis
    using assms Cons by (auto simp: tok_end_def simp del: dropWhile.simps split: if_splits)
qed (use assms in \<open>simp add: tok_end_def\<close>)

lemma tok_end_nonempty: "tok_end (skip s) = (ret, e) \<Longrightarrow> ret \<noteq> CHR 0x00 \<longleftrightarrow> skip s \<noteq> []"
  by (auto simp: tok_end_def split: if_splits list.splits)

lemma tok_end_shorter:
  assumes "tok_end (skip s) = (ret, e)" "skip s \<noteq> []"
  shows "length e < length (skip s)"
proof (cases "skip s")
  case (Cons c r)
  have "length (dropWhile plain r) \<le> length r" "length (tl r) \<le> length r"
    by (auto simp: length_dropWhile_le)
  then show ?thesis
    using assms Cons skip_hd[OF Cons]
    by (auto simp: tok_end_def plain_def symbols_def split: if_splits)
qed (use assms in simp)

lemma tok_end_word:
  assumes "tok_end (skip s) = (CHR ''a'', e)"
  shows "good_word s (skip s, e)"
proof -
  have e: "e = dropWhile plain (skip s)" and ne: "skip s \<noteq> []"
    using assms by (auto simp: tok_end_def split: if_splits list.splits)
  have "length e < length (skip s)"
    using tok_end_shorter[OF assms ne] .
  then have "takeWhile plain (skip s) \<noteq> []"
    using takeWhile_dropWhile_id[of plain "skip s"] e by (metis append_Nil less_irrefl)
  moreover have "e = [] \<or> \<not> plain (hd e)"
    using e hd_dropWhile by blast
  ultimately show ?thesis
    unfolding good_word_def using e
    by (auto intro!: exI[of _ "takeWhile plain (skip s)"] dest: set_takeWhileD)
qed

lemma gettoken_spec:
  assumes "gettoken s = (ret, q, e, s')"
  shows "suffix s' s" "ret \<noteq> CHR 0x00 \<Longrightarrow> length s' < length s" "ret = CHR ''a'' \<Longrightarrow> good_word s (q, e)"
    "ret \<noteq> CHR 0x00 \<longleftrightarrow> skip s \<noteq> []"
proof -
  have t: "tok_end (skip s) = (ret, e)" "q = skip s" "s' = skip e"
    using assms by (auto simp: gettoken_def Let_def split: prod.splits)
  have "suffix s' e" "suffix e (skip s)"
    using t tok_end_suffix by auto
  then show s: "suffix s' s"
    using skip_suffix suffix_order.trans by blast
  show n: "ret \<noteq> CHR 0x00 \<longleftrightarrow> skip s \<noteq> []"
    using tok_end_nonempty[OF t(1)] .
  have "length s' \<le> length e" "length (skip s) \<le> length s"
    using \<open>suffix s' e\<close> by (auto simp: suffix_length_le)
  then show "length s' < length s" if "ret \<noteq> CHR 0x00"
    using tok_end_shorter[OF t(1)] n that by simp
  show "good_word s (q, e)" if "ret = CHR ''a''"
    using tok_end_word t that by simp
qed

lemma peek_spec:
  assumes "peek s t = (p, s')"
  shows "s' = skip s" "p \<longleftrightarrow> skip s \<noteq> [] \<and> hd (skip s) \<in> set t"
  using assms by (auto simp: peek_def Let_def)

text \<open>After a successful \<^verbatim>\<open>peek\<close> the next token takes at least one character.\<close>

lemma gettoken_peek:
  assumes "peek s t = (True, s1)" "gettoken s1 = (ret, q, e, s2)"
  shows "suffix s2 s" "length s2 < length s"
proof -
  have s1: "s1 = skip s" "skip s \<noteq> []"
    using peek_spec[OF assms(1)] by auto
  then have g: "gettoken s = (ret, q, e, s2)"
    using assms(2) by simp
  show "suffix s2 s" "length s2 < length s"
    using gettoken_spec[OF g] s1 by auto
qed

text \<open>A parser is fine on \<open>s\<close> if it does not run out of fuel and leaves a suffix of \<open>s\<close> and a good result.\<close>

definition fine :: "ptr \<Rightarrow> ('a \<Rightarrow> bool) \<Rightarrow> 'a pres \<Rightarrow> bool" where
  "fine s P m \<longleftrightarrow> (case m of POK a s' \<Rightarrow> suffix s' s \<and> P a | OutOfFuel \<Rightarrow> False | _ \<Rightarrow> True)"

lemma fine_simps [simp]:
  "fine s P (POK a s') \<longleftrightarrow> suffix s' s \<and> P a" "fine s P (PPanic e)" "fine s P (Leftovers r)" "\<not> fine s P OutOfFuel"
  by (simp_all add: fine_def)

lemma fine_suffix: "fine s1 P m \<Longrightarrow> suffix s1 s \<Longrightarrow> fine s P m"
  by (cases m) (auto intro: suffix_order.trans)

lemma fine_pbind:
  assumes "fine s P m" "\<And>a s'. P a \<Longrightarrow> suffix s' s \<Longrightarrow> m = POK a s' \<Longrightarrow> fine s' Q (k a s')"
  shows "fine s Q (pbind m k)"
  using assms by (cases m) (auto simp: pbind_def intro: fine_suffix)

definition words_ok :: "string \<Rightarrow> wordp cmd \<Rightarrow> bool" where
  "words_ok b c \<longleftrightarrow> (\<forall>w \<in> set_cmd c. good_word b w)"

definition redirs_ok :: "string \<Rightarrow> (wordp \<times> int \<times> int) list \<Rightarrow> bool" where
  "redirs_ok b rs \<longleftrightarrow> (\<forall>r \<in> set rs. good_word b (fst r))"

lemma words_ok_simps [simp]:
  "words_ok b (EXEC as) \<longleftrightarrow> (\<forall>w \<in> set as. good_word b w)"
  "words_ok b (REDIR c w m fd) \<longleftrightarrow> words_ok b c \<and> good_word b w"
  "words_ok b (PIPE c d) \<longleftrightarrow> words_ok b c \<and> words_ok b d"
  "words_ok b (LIST c d) \<longleftrightarrow> words_ok b c \<and> words_ok b d"
  "words_ok b (BACK c) \<longleftrightarrow> words_ok b c"
  by (auto simp: words_ok_def)

lemma redirs_ok_simps [simp]:
  "redirs_ok b []" "redirs_ok b (rs @ rs') \<longleftrightarrow> redirs_ok b rs \<and> redirs_ok b rs'"
  "redirs_ok b [redirect t w] \<longleftrightarrow> good_word b w"
  by (auto simp: redirs_ok_def redirect_def)

lemma words_ok_wrap: "words_ok b c \<Longrightarrow> redirs_ok b rs \<Longrightarrow> words_ok b (wrap c rs)"
  by (induction rs arbitrary: c) (auto simp: wrap_def redirs_ok_def)

lemma parseredirs_fine:
  "length s < f \<Longrightarrow> suffix s b \<Longrightarrow> redirs_ok b rs \<Longrightarrow> fine s (redirs_ok b) (parseredirs f rs s)"
proof (induction f arbitrary: rs s)
  case (Suc f)
  obtain p s1 where pk: "peek s ''<>'' = (p, s1)"
    by fastforce
  obtain t1 q1 e1 s2 where g1: "gettoken s1 = (t1, q1, e1, s2)"
    by (metis surj_pair)
  obtain t2 q2 e2 s3 where g2: "gettoken s2 = (t2, q2, e2, s3)"
    by (metis surj_pair)
  show ?case
  proof (cases "p \<and> t2 = CHR ''a''")
    case True
    have s2: "suffix s2 s" "length s2 < length s"
      using gettoken_peek[OF _ g1] pk True by auto
    have s3: "suffix s3 s2" "good_word s2 (q2, e2)"
      using gettoken_spec[OF g2] True by auto
    have "good_word b (q2, e2)" "suffix s3 b" "length s3 < f"
      using s2 s3 Suc.prems by (auto intro: good_word_suffix suffix_order.trans dest: suffix_length_le)
    then have "fine s3 (redirs_ok b) (parseredirs f (rs @ [redirect t1 (q2, e2)]) s3)"
      using Suc.prems by (intro Suc.IH) auto
    then show ?thesis
      using True pk g1 g2 s2 s3 by (auto intro: fine_suffix suffix_order.trans)
  qed (use pk g1 g2 Suc.prems peek_spec(1)[OF pk] in auto)
qed simp

lemma exec_loop_fine:
  assumes "length s < f" "suffix s b" "redirs_ok b rs" "\<forall>w \<in> set as. good_word b w"
  shows "fine s (words_ok b) (exec_loop f as rs s)"
  using assms
proof (induction f arbitrary: as rs s)
  case (Suc f)
  obtain p s1 where pk: "peek s ''|)&;'' = (p, s1)"
    by fastforce
  obtain t q e s2 where g: "gettoken s1 = (t, q, e, s2)"
    by (metis surj_pair)
  have s1: "suffix s1 s" "length s1 \<le> length s"
    using peek_spec(1)[OF pk] suffix_length_le[OF skip_suffix] by auto
  have s2: "suffix s2 s"
    using gettoken_spec(1)[OF g] s1 suffix_order.trans by blast
  have fin: "words_ok b (wrap (EXEC as) rs)"
    using Suc.prems by (intro words_ok_wrap) auto
  show ?case
  proof (cases "\<not> p \<and> t = CHR ''a'' \<and> \<not> length (as @ [(q, e)]) \<ge> 10")
    case True
    have w: "good_word b (q, e)" and l: "length s2 < f" and sb: "suffix s2 b"
      using gettoken_spec[OF g] True s1 s2 Suc.prems by (auto intro: good_word_suffix suffix_order.trans)
    have "fine s2 (redirs_ok b) (parseredirs f rs s2)"
      using l sb Suc.prems by (intro parseredirs_fine)
    then have "fine s2 (words_ok b) (pbind (parseredirs f rs s2) (\<lambda>rs s. exec_loop f (as @ [(q, e)]) rs s))"
      by (rule fine_pbind) (use w l sb Suc.prems in
        \<open>auto intro!: Suc.IH intro: suffix_order.trans dest: suffix_length_le\<close>)
    then show ?thesis
      using True pk g s2 by (auto intro: fine_suffix)
  qed (use pk g s1 s2 fin in auto)
qed simp

lemma back_loop_fine:
  "length s < f \<Longrightarrow> words_ok b c \<Longrightarrow> fine s (words_ok b) (back_loop f c s)"
proof (induction f arbitrary: c s)
  case (Suc f)
  obtain p s1 where pk: "peek s ''&'' = (p, s1)"
    by fastforce
  obtain t q e s2 where g: "gettoken s1 = (t, q, e, s2)"
    by (metis surj_pair)
  show ?case
  proof (cases p)
    case True
    then have s2: "suffix s2 s" "length s2 < length s"
      using gettoken_peek[OF _ g] pk by auto
    then have "fine s2 (words_ok b) (back_loop f (BACK c) s2)"
      using Suc.prems by (intro Suc.IH) auto
    then show ?thesis
      using True pk g s2 by (auto intro: fine_suffix)
  qed (use pk Suc.prems peek_spec(1)[OF pk] in auto)
qed simp

text \<open>What each parser needs: enough fuel for its rank and eight units for each character.\<close>

definition fuel_for :: "nat \<Rightarrow> ptr \<Rightarrow> nat" where
  "fuel_for r s = 8 * length s + r"

lemma fuel_for_le: "suffix s' s \<Longrightarrow> fuel_for (Suc r) s \<le> Suc f \<Longrightarrow> fuel_for r s' \<le> f"
  using suffix_length_le[of s' s] by (simp add: fuel_for_def)

lemma fuel_for_less: "length s' < length s \<Longrightarrow> r' \<le> r + 7 \<Longrightarrow> fuel_for r s \<le> Suc f \<Longrightarrow> fuel_for r' s' \<le> f"
  by (simp add: fuel_for_def)

lemma fuel_for_length: "fuel_for (Suc r) s \<le> f \<Longrightarrow> length s < f"
  by (simp add: fuel_for_def)

definition parser_fine :: "string \<Rightarrow> nat \<Rightarrow> nat \<Rightarrow> (nat \<Rightarrow> ptr \<Rightarrow> wordp cmd pres) \<Rightarrow> bool" where
  "parser_fine b n r p \<longleftrightarrow> (\<forall>s. suffix s b \<longrightarrow> fuel_for r s \<le> n \<longrightarrow> fine s (words_ok b) (p n s))"

lemma parser_fineD: "parser_fine b n r p \<Longrightarrow> suffix s b \<Longrightarrow> fuel_for r s \<le> n \<Longrightarrow> fine s (words_ok b) (p n s)"
  by (simp add: parser_fine_def)

lemma parseexec_fine:
  assumes "parser_fine b f 2 parseblock"
  shows "parser_fine b (Suc f) 3 parseexec"
  unfolding parser_fine_def
proof (intro allI impI)
  fix s assume s: "suffix s b" "fuel_for 3 s \<le> Suc f"
  obtain p s1 where pk: "peek s ''('' = (p, s1)"
    by fastforce
  have s1: "suffix s1 s"
    using peek_spec(1)[OF pk] by simp
  then have b: "suffix s1 b" and l: "fuel_for 2 s1 \<le> f"
    using s fuel_for_le[of s1 s 2 f] by (auto intro: suffix_order.trans simp: numeral_3_eq_3)
  then have n: "length s1 < f"
    by (simp add: fuel_for_def)
  have "fine s1 (redirs_ok b) (parseredirs f [] s1)"
    using n b by (intro parseredirs_fine) auto
  then have "fine s1 (words_ok b) (pbind (parseredirs f [] s1) (\<lambda>rs s. exec_loop f [] rs s))"
    by (rule fine_pbind) (use n b in \<open>auto intro!: exec_loop_fine intro: suffix_order.trans dest: suffix_length_le\<close>)
  then show "fine s (words_ok b) (parseexec (Suc f) s)"
    using pk s1 parser_fineD[OF assms b l] by (auto intro: fine_suffix)
qed

lemma parseblock_fine:
  assumes "parser_fine b f 5 parseline"
  shows "parser_fine b (Suc f) 2 parseblock"
  unfolding parser_fine_def
proof (intro allI impI)
  fix s assume s: "suffix s b" "fuel_for 2 s \<le> Suc f"
  obtain p s1 where pk: "peek s ''('' = (p, s1)"
    by fastforce
  obtain t q e s2 where g: "gettoken s1 = (t, q, e, s2)"
    by (metis surj_pair)
  show "fine s (words_ok b) (parseblock (Suc f) s)"
  proof (cases p)
    case True
    have s2: "suffix s2 s" "length s2 < length s"
      using gettoken_peek[OF _ g] pk True by auto
    have b: "suffix s2 b" and l: "fuel_for 5 s2 \<le> f"
      using s s2 by (auto intro: suffix_order.trans fuel_for_less)
    let ?k = "\<lambda>c s. let (p, s) = peek s '')'' in
          if \<not> p then PPanic ''syntax - missing )''
          else let (_, _, _, s) = gettoken s in
            pbind (parseredirs f [] s) (\<lambda>rs s. POK (wrap c rs) s)"
    have k: "fine s3 (words_ok b) (?k c s3)" if c: "words_ok b c" "suffix s3 s2" for c s3
    proof -
      obtain p s4 where pk2: "peek s3 '')'' = (p, s4)"
        by fastforce
      obtain t q e s5 where g2: "gettoken s4 = (t, q, e, s5)"
        by (metis surj_pair)
      have s5: "suffix s5 s3"
        using gettoken_spec(1)[OF g2] peek_spec(1)[OF pk2] skip_suffix[of s3] by (auto intro: suffix_order.trans)
      then have "length s5 \<le> length s2" "suffix s5 b"
        using b that suffix_length_le suffix_order.trans by blast+
      then have "length s5 < f" "suffix s5 b"
        using l by (auto simp: fuel_for_def)
      then have "fine s5 (redirs_ok b) (parseredirs f [] s5)"
        by (intro parseredirs_fine) auto
      then have "fine s5 (words_ok b) (pbind (parseredirs f [] s5) (\<lambda>rs s. POK (wrap c rs) s))"
        by (rule fine_pbind) (use c in \<open>auto intro: words_ok_wrap\<close>)
      then show ?thesis
        using pk2 g2 s5 by (auto intro: fine_suffix)
    qed
    have "fine s2 (words_ok b) (pbind (parseline f s2) ?k)"
      by (rule fine_pbind[OF parser_fineD[OF assms b l]]) (rule k)
    then show ?thesis
      using True pk g s2 by (auto intro: fine_suffix)
  qed (use pk in auto)
qed

text \<open>The tail of \<^verbatim>\<open>parsepipe\<close> and \<^verbatim>\<open>parseline\<close>: a symbol, and the same parser again.\<close>

lemma parse_tail_fine:
  assumes p: "parser_fine b f r pr" and s: "suffix s b" "fuel_for r s \<le> Suc f" and s': "suffix s' s"
    and c: "words_ok b c" and K: "\<And>d. words_ok b d \<Longrightarrow> words_ok b (K c d)"
  shows "fine s' (words_ok b) (let (p, s) = peek s' [sy] in
       if p then let (_, _, _, s) = gettoken s in pbind (pr f s) (\<lambda>d s. POK (K c d) s) else POK c s)"
proof -
  obtain p s1 where pk: "peek s' [sy] = (p, s1)"
    by fastforce
  obtain t q e s2 where g: "gettoken s1 = (t, q, e, s2)"
    by (metis surj_pair)
  show ?thesis
  proof (cases p)
    case True
    have s2: "suffix s2 s'" "length s2 < length s'"
      using gettoken_peek[OF _ g] pk True by auto
    then have "fine s2 (words_ok b) (pr f s2)"
      using s s' by (intro parser_fineD[OF p] fuel_for_less[OF _ _ s(2)])
        (auto intro: suffix_order.trans dest: suffix_length_le)
    then have "fine s2 (words_ok b) (pbind (pr f s2) (\<lambda>d s. POK (K c d) s))"
      by (rule fine_pbind) (use K in auto)
    then show ?thesis
      using True pk g s2 by (auto intro: fine_suffix)
  qed (use pk c peek_spec(1)[OF pk] in auto)
qed

lemma parsepipe_fine:
  assumes "parser_fine b f 3 parseexec" "parser_fine b f 4 parsepipe"
  shows "parser_fine b (Suc f) 4 parsepipe"
  unfolding parser_fine_def
proof (intro allI impI)
  fix s assume s: "suffix s b" "fuel_for 4 s \<le> Suc f"
  have "fine s (words_ok b) (parseexec f s)"
    using s by (intro parser_fineD[OF assms(1)]) (auto simp: fuel_for_def)
  then show "fine s (words_ok b) (parsepipe (Suc f) s)"
    unfolding parsepipe.simps
    by (rule fine_pbind) (rule parse_tail_fine[OF assms(2) s]; simp)
qed

lemma parseline_fine:
  assumes "parser_fine b f 4 parsepipe" "parser_fine b f 5 parseline"
  shows "parser_fine b (Suc f) 5 parseline"
  unfolding parser_fine_def
proof (intro allI impI)
  fix s assume s: "suffix s b" "fuel_for 5 s \<le> Suc f"
  have pipe: "fine s (words_ok b) (parsepipe f s)"
    using s by (intro parser_fineD[OF assms(1)]) (auto simp: fuel_for_def)
  have bg: "fine s1 (words_ok b) (back_loop f c s1)" if "words_ok b c" "suffix s1 s" for c s1
    using s that by (intro back_loop_fine) (auto simp: fuel_for_def dest: suffix_length_le)
  show "fine s (words_ok b) (parseline (Suc f) s)"
    unfolding parseline.simps
    by (rule fine_pbind[OF pipe], rule fine_pbind[OF bg], assumption+, rule parse_tail_fine[OF assms(2) s])
      (auto intro: suffix_order.trans)
qed

lemma parsers_fine:
  "parser_fine b n 5 parseline \<and> parser_fine b n 4 parsepipe \<and> parser_fine b n 3 parseexec \<and> parser_fine b n 2 parseblock"
proof (induction n)
  case 0
  show ?case
    by (simp add: parser_fine_def fuel_for_def)
qed (blast intro: parseline_fine parsepipe_fine parseexec_fine parseblock_fine)

lemma parsecmd_fine: "fine s (words_ok s) (parsecmd s)"
proof -
  have "parser_fine s (parse_fuel s) 5 parseline"
    using parsers_fine by blast
  then have "fine s (words_ok s) (parseline (parse_fuel s) s)"
    by (rule parser_fineD) (auto simp: fuel_for_def parse_fuel_def)
  then show ?thesis
    unfolding parsecmd_def by (rule fine_pbind) (auto simp: peek_def Let_def)
qed

section \<open>The strings after nulterminate\<close>

definition wtext :: "wordp \<Rightarrow> string" where
  "wtext w = (case w of (q, e) \<Rightarrow> take (length q - length e) q)"

definition ends :: "nat \<Rightarrow> wordp cmd \<Rightarrow> nat set" where
  "ends n c = (\<lambda>(q, e). n - length e) ` set_cmd c"

lemma length_put_nul [simp]: "length (put_nul e b) = length b"
  by (simp add: put_nul_def)

lemma length_put_nuls [simp]: "length (fold (\<lambda>(q, e). put_nul e) as b) = length b"
  by (induction as arbitrary: b) auto

lemma length_nulterminate [simp]: "length (nulterminate c b) = length b"
  by (induction c b rule: nulterminate.induct) auto

lemma put_nuls_nth:
  "i < length b \<Longrightarrow> fold (\<lambda>(q, e). put_nul e) as b ! i =
     (if i \<in> (\<lambda>(q, e). length b - 1 - length e) ` set as then CHR 0x00 else b ! i)"
proof (induction as arbitrary: b)
  case (Cons a as)
  then show ?case
    by (cases a) (auto simp: put_nul_def nth_list_update)
qed simp

lemma nulterminate_nth:
  "length b = Suc n \<Longrightarrow> i < Suc n \<Longrightarrow> nulterminate c b ! i = (if i \<in> ends n c then CHR 0x00 else b ! i)"
proof (induction c b rule: nulterminate.induct)
  case (1 args b)
  then show ?case
    by (simp add: put_nuls_nth ends_def)
next
  case (2 c q e mode fd b)
  then show ?case
    by (auto simp: put_nul_def ends_def nth_list_update)
qed (auto simp: ends_def image_Un)

text \<open>No end of a word lies inside a word.\<close>

lemma good_word_no_end:
  assumes w: "s = pre @ u @ e" "\<forall>c \<in> set u. plain c" and w': "good_word s (q', e')"
    and i: "length pre \<le> i" "i < length pre + length u"
  shows "i \<noteq> length s - length e'"
proof
  assume eq: "i = length s - length e'"
  obtain pre' where s': "s = pre' @ e'" and e': "e' = [] \<or> \<not> plain (hd e')"
    using w' by (auto simp: good_word_def suffix_def)
  have "i < length s"
    using w(1) i by simp
  then have "e' \<noteq> []"
    using eq by auto
  moreover have "s ! i = hd e'"
    using s' eq \<open>e' \<noteq> []\<close> by (simp add: nth_append hd_conv_nth)
  moreover have "s ! i \<in> set u"
    using w(1) i by (auto simp: nth_append)
  ultimately show False
    using e' w(2) by auto
qed

lemma cstring_nulterminate:
  assumes c: "words_ok s c" "(q, e) \<in> set_cmd c" and nz: "CHR 0x00 \<notin> set s"
  shows "cstring (nulterminate c (s @ [CHR 0x00])) q = wtext (q, e)"
proof -
  let ?b = "nulterminate c (s @ [CHR 0x00])"
  have g: "good_word s (q, e)"
    using c by (auto simp: words_ok_def)
  obtain pre u where q: "s = pre @ u @ e" "q = u @ e" and u: "\<forall>c \<in> set u. plain c"
    using g by (auto simp: good_word_def suffix_def)
  have at: "?b ! i = (if i \<in> ends (length s) c then CHR 0x00 else (s @ [CHR 0x00]) ! i)" if "i < Suc (length s)" for i
    using that by (intro nulterminate_nth) auto
  have inside: "?b ! (length pre + j) = u ! j" if "j < length u" for j
  proof -
    have "length pre + j \<notin> ends (length s) c"
      using good_word_no_end[OF q(1) u] c(1) that by (auto simp: ends_def words_ok_def)
    then show ?thesis
      using at[of "length pre + j"] that q(1) by (auto simp: nth_append)
  qed
  have "length pre + length u \<in> ends (length s) c"
    using c(2) q(1) unfolding ends_def by (intro image_eqI[of _ _ "(q, e)"]) auto
  then have last: "?b ! (length pre + length u) = CHR 0x00"
    using at q(1) by simp
  have "drop (length pre) ?b = u @ CHR 0x00 # drop (Suc (length pre + length u)) ?b"
    (is "_ = ?r")
  proof (rule nth_equalityI)
    show "drop (length pre) ?b ! j = ?r ! j" if "j < length (drop (length pre) ?b)" for j
      using that inside last q(1) by (auto simp: nth_append nth_Cons' not_less add.commute)
  qed (use q(1) in simp)
  moreover have "\<forall>c \<in> set u. c \<noteq> CHR 0x00"
    using nz q(1) by auto
  moreover have "length ?b - 1 - length q = length pre"
    using q by simp
  ultimately show ?thesis
    by (simp add: cstring_def wtext_def q(2))
qed

section \<open>Typing a command\<close>

text \<open>The text that a command is typed as: a compound command inside another one is in parentheses.\<close>

definition redir_sym :: "int \<Rightarrow> string" where
  "redir_sym mode = (if mode = 0 then ''<'' else if mode = 0x601 then ''>'' else ''>>'')"

definition show_args :: "string list \<Rightarrow> string" where
  "show_args as = concat (map (\<lambda>a. CHR '' '' # a) as)"

fun show_unit :: "string cmd \<Rightarrow> string" where
  "show_unit (EXEC as) = show_args as"
| "show_unit (REDIR c w mode fd) = show_unit c @ redir_sym mode @ w"
| "show_unit (PIPE c d) = ''('' @ show_unit c @ ''|'' @ show_unit d @ '')''"
| "show_unit (LIST c d) = ''('' @ show_unit c @ '';'' @ show_unit d @ '')''"
| "show_unit (BACK c) = ''('' @ show_unit c @ ''&)''"

fun show_line :: "string cmd \<Rightarrow> string" where
  "show_line (PIPE c d) = show_unit c @ ''|'' @ show_unit d"
| "show_line (LIST c d) = show_unit c @ '';'' @ show_unit d"
| "show_line (BACK c) = show_unit c @ ''&''"
| "show_line c = show_unit c"

definition good_string :: "string \<Rightarrow> bool" where
  "good_string w \<longleftrightarrow> w \<noteq> [] \<and> (\<forall>c \<in> set w. plain c \<and> c \<noteq> CHR 0x00)"

fun good_cmd :: "string cmd \<Rightarrow> bool" where
  "good_cmd (EXEC as) \<longleftrightarrow> length as < 10 \<and> (\<forall>a \<in> set as. good_string a)"
| "good_cmd (REDIR c w mode fd) \<longleftrightarrow> good_cmd c \<and> good_string w \<and> (mode, fd) \<in> {(0, 0), (0x601, 1), (0x201, 1)}"
| "good_cmd (PIPE c d) \<longleftrightarrow> good_cmd c \<and> good_cmd d"
| "good_cmd (LIST c d) \<longleftrightarrow> good_cmd c \<and> good_cmd d"
| "good_cmd (BACK c) \<longleftrightarrow> good_cmd c"

lemma skip_Cons [simp]: "skip (c # s) = (if c \<in> set whitespace then skip s else c # s)"
  by (simp add: skip_def)

lemma skip_Nil [simp]: "skip [] = []"
  by (simp add: skip_def)

lemma plainD: "plain c \<Longrightarrow> c \<notin> set whitespace" "plain c \<Longrightarrow> c \<notin> set symbols"
  by (auto simp: plain_def)

lemma skip_good [simp]: "good_string w \<Longrightarrow> skip (w @ r) = w @ r"
  by (cases w) (auto simp: good_string_def plain_def)

definition breaks :: "string \<Rightarrow> bool" where
  "breaks r \<longleftrightarrow> r = [] \<or> \<not> plain (hd r)"

lemma dropWhile_good: "good_string w \<Longrightarrow> breaks r \<Longrightarrow> dropWhile plain (w @ r) = r"
  by (cases r) (auto simp: good_string_def breaks_def dropWhile_append)

lemma gettoken_good [simp]:
  assumes "good_string w" "breaks r"
  shows "gettoken (w @ r) = (CHR ''a'', w @ r, r, skip r)"
proof -
  obtain c w' where w: "w = c # w'" "plain c"
    using assms(1) by (cases w) (auto simp: good_string_def)
  then have "c \<notin> set ''|();&<''" "c \<noteq> CHR ''>''"
    by (auto simp: plain_def symbols_def)
  then have "tok_end (w @ r) = (CHR ''a'', r)"
    using dropWhile_good[OF assms] w by (simp add: tok_end_def del: dropWhile.simps)
  then show ?thesis
    using assms by (simp add: gettoken_def Let_def)
qed

lemma gettoken_blank [simp]: "gettoken (CHR '' '' # s) = gettoken s"
  by (simp add: gettoken_def whitespace_def)

lemma peek_blank [simp]: "peek (CHR '' '' # s) = peek s"
  by (rule ext) (simp add: peek_def whitespace_def)

lemma peek_Nil [simp]: "peek [] t = (False, [])"
  by (simp add: peek_def)

lemma gettoken_Nil [simp]: "gettoken [] = (CHR 0x00, [], [], [])"
  by (simp add: gettoken_def tok_end_def)

lemma peek_Cons [simp]: "c \<notin> set whitespace \<Longrightarrow> peek (c # s) t = (c \<in> set t, c # s)"
  by (simp add: peek_def)

lemma peek_good [simp]: 
  assumes "good_string w" "set t \<subseteq> set symbols"
  shows "peek (w @ r) t = (False, w @ r)"
  using assms by (cases w) (auto simp: good_string_def plain_def peek_def)

lemma symbol_simps [simp]: "c \<in> set symbols \<Longrightarrow> \<not> plain c" "c \<in> set symbols \<Longrightarrow> c \<notin> set whitespace"
  by (auto simp: plain_def symbols_def whitespace_def)

lemma parsers_skip [simp]:
  "parseredirs f rs (skip s) = parseredirs f rs s" "exec_loop f as rs (skip s) = exec_loop f as rs s"
  "back_loop f c (skip s) = back_loop f c s" "parseexec f (skip s) = parseexec f s"
  by (cases f; simp)+

lemma parsepipe_skip [simp]: "parsepipe f (skip s) = parsepipe f s"
  by (cases f) simp_all

lemma parseline_skip [simp]: "parseline f (skip s) = parseline f s"
  by (cases f) simp_all

text \<open>The parser reads the command \<open>c\<close> and leaves \<open>r\<close>.\<close>

definition reads :: "wordp cmd pres \<Rightarrow> string cmd \<Rightarrow> ptr \<Rightarrow> bool" where
  "reads m c r \<longleftrightarrow> (\<exists>c'. m = POK c' r \<and> map_cmd wtext c' = c)"

lemma reads_POK [simp]: "reads (POK c' s) c r \<longleftrightarrow> s = r \<and> map_cmd wtext c' = c"
  by (auto simp: reads_def)

lemma reads_pbind:
  assumes "reads m c r" "\<And>c'. map_cmd wtext c' = c \<Longrightarrow> reads (k c' r) d r'"
  shows "reads (pbind m k) d r'"
  using assms by (auto simp: reads_def pbind_def)

definition show_redirs :: "(string \<times> int \<times> int) list \<Rightarrow> string" where
  "show_redirs rs = concat (map (\<lambda>(w, mode, fd). redir_sym mode @ w) rs)"

definition good_redirs :: "(string \<times> int \<times> int) list \<Rightarrow> bool" where
  "good_redirs rs \<longleftrightarrow> (\<forall>(w, m) \<in> set rs. good_string w \<and> m \<in> {(0, 0), (0x601, 1), (0x201, 1)})"

abbreviation rtexts :: "(wordp \<times> int \<times> int) list \<Rightarrow> (string \<times> int \<times> int) list" where
  "rtexts rs \<equiv> map (\<lambda>(w, m). (wtext w, m)) rs"

lemma wtext_app [simp]: "wtext (w @ r, r) = w"
  by (simp add: wtext_def)

lemma map_cmd_wrap [simp]: "map_cmd wtext (wrap c rs) = wrap (map_cmd wtext c) (rtexts rs)"
  by (induction rs arbitrary: c) (auto simp: wrap_def)

lemma redir_sym_cases:
  "redir_sym 0 = ''<''" "redir_sym 0x601 = ''>''" "redir_sym 0x201 = ''>>''"
  by (simp_all add: redir_sym_def)

lemma breaks_symbol [simp]: "c \<in> set symbols \<Longrightarrow> breaks (c # s)"
  by (simp add: breaks_def)

lemma symbols_mem [simp]:
  "CHR ''<'' \<in> set symbols" "CHR ''>'' \<in> set symbols" "CHR ''|'' \<in> set symbols" "CHR ''&'' \<in> set symbols"
  "CHR '';'' \<in> set symbols" "CHR ''('' \<in> set symbols" "CHR '')'' \<in> set symbols"
  by (simp_all add: symbols_def)

lemma breaks_redirs: "good_redirs rs \<Longrightarrow> breaks r \<Longrightarrow> breaks (show_redirs rs @ r)"
  by (cases rs) (auto simp: show_redirs_def good_redirs_def redir_sym_cases)

text \<open>The three tokens that start a redirection.\<close>

lemma gettoken_redir:
  assumes "good_string w" "m \<in> {(0, 0), (0x601, 1), (0x201, 1)}"
  obtains tok q e where "gettoken (redir_sym (fst m) @ w @ r) = (tok, q, e, w @ r)" "\<And>x. redirect tok x = (x, m)"
proof -
  obtain c w' where w: "w = c # w'" "plain c" "c \<noteq> CHR ''>''"
    using assms(1) by (cases w) (auto simp: good_string_def plain_def symbols_def)
  then have c: "c \<notin> set whitespace"
    by (simp add: plain_def)
  have g: "gettoken (CHR ''<'' # w @ r) = (CHR ''<'', CHR ''<'' # w @ r, w @ r, w @ r)"
      "gettoken (CHR ''>'' # w @ r) = (CHR ''>'', CHR ''>'' # w @ r, w @ r, w @ r)"
      "gettoken (CHR ''>'' # CHR ''>'' # w @ r) = (CHR ''+'', CHR ''>'' # CHR ''>'' # w @ r, w @ r, w @ r)"
    using w c by (simp_all add: gettoken_def tok_end_def)
  consider "m = (0, 0)" | "m = (0x601, 1)" | "m = (0x201, 1)"
    using assms(2) by auto
  then show thesis
    by cases (rule that, simp add: redir_sym_cases g, simp add: redirect_def)+
qed

lemma peek_redir:
  "m \<in> {(0, 0), (0x601, 1), (0x201, 1)} \<Longrightarrow> peek (redir_sym (fst m) @ s) ''<>'' = (True, redir_sym (fst m) @ s)"
  by (auto simp: redir_sym_cases)

lemma parseredirs_show:
  assumes "length rs < f" "good_redirs rs" "breaks r" "peek r ''<>'' = (False, skip r)"
  shows "\<exists>rs'. parseredirs f acc (show_redirs rs @ r) = POK (acc @ rs') (skip r) \<and> rtexts rs' = rs"
  using assms(1,2)
proof (induction rs arbitrary: f acc)
  case Nil
  then show ?case
    using assms(4) by (cases f) (auto simp: show_redirs_def)
next
  case (Cons x rs)
  obtain w m where x: "x = (w, m)"
    by (rule prod.exhaust)
  have g: "good_string w" "m \<in> {(0, 0), (0x601, 1), (0x201, 1)}" "good_redirs rs"
    using Cons.prems x by (auto simp: good_redirs_def)
  obtain f' where f: "f = Suc f'" "length rs < f'"
    using Cons.prems by (cases f) auto
  let ?R = "show_redirs rs @ r"
  have s: "show_redirs (x # rs) @ r = redir_sym (fst m) @ w @ ?R"
    by (cases m) (simp add: show_redirs_def x)
  obtain tok q e where t: "gettoken (redir_sym (fst m) @ w @ ?R) = (tok, q, e, w @ ?R)" "\<And>x. redirect tok x = (x, m)"
    using gettoken_redir[OF g(1,2)] by blast
  obtain rs' where rs': "parseredirs f' (acc @ [((w @ ?R, ?R), m)]) ?R = POK ((acc @ [((w @ ?R, ?R), m)]) @ rs') (skip r)"
      "rtexts rs' = rs"
    using Cons.IH[OF f(2) g(3)] by blast
  have "parseredirs f acc (show_redirs (x # rs) @ r) = parseredirs f' (acc @ [((w @ ?R, ?R), m)]) ?R"
    using g t breaks_redirs[OF g(3) assms(3)] by (simp add: f(1) s peek_redir)
  then show ?case
    using rs' by (intro exI[of _ "((w @ ?R, ?R), m) # rs'"]) (simp add: x)
qed

text \<open>What may follow a simple command.\<close>

definition stops :: "string \<Rightarrow> bool" where
  "stops r \<longleftrightarrow> r = [] \<or> hd r \<in> set ''|)&;''"

lemma stops_skip [simp]: "stops r \<Longrightarrow> skip r = r"
  by (cases r) (auto simp: stops_def)

lemma stops_breaks [simp]: "stops r \<Longrightarrow> breaks r"
  by (cases r) (auto simp: stops_def breaks_def)

lemma stops_peek [simp]:
  "stops r \<Longrightarrow> peek r ''<>'' = (False, r)" "stops r \<Longrightarrow> peek r ''('' = (False, r)"
  "stops r \<Longrightarrow> peek r ''|)&;'' = (r \<noteq> [], r)"
  by (cases r; auto simp: stops_def)+

lemma exec_loop_stop: "stops r \<Longrightarrow> 0 < f \<Longrightarrow> exec_loop f as rs r = POK (wrap (EXEC as) rs) r"
  by (cases f; cases r) auto

lemma exec_loop_show:
  assumes "length as + length ws < 10" "\<forall>w \<in> set ws. good_string w" "good_redirs rs" "stops r"
    "length ws + length rs + 1 < f" "ws = [] \<Longrightarrow> rs = []"
  shows "\<exists>ws' rs'. exec_loop f as acc (show_args ws @ show_redirs rs @ r) = POK (wrap (EXEC (as @ ws')) (acc @ rs')) r \<and>
    map wtext ws' = ws \<and> rtexts rs' = rs"
  using assms(1,2,5,6)
proof (induction ws arbitrary: as acc f)
  case Nil
  then show ?case
    using assms(4) by (simp add: exec_loop_stop show_args_def show_redirs_def)
next
  case (Cons w ws)
  let ?R = "show_args ws @ show_redirs rs @ r"
  obtain f' where f: "f = Suc f'" "length ws + length rs + 1 < f'"
    using Cons.prems(3) by (cases f) auto
  have w: "good_string w"
    using Cons.prems by simp
  have b: "breaks ?R"
    using breaks_redirs[OF assms(3) stops_breaks[OF assms(4)]]
    by (cases ws) (auto simp: show_args_def breaks_def plain_def whitespace_def)
  have step: "exec_loop f as acc (show_args (w # ws) @ show_redirs rs @ r) =
      pbind (parseredirs f' acc ?R) (\<lambda>rs s. exec_loop f' (as @ [(w @ ?R, ?R)]) rs s)"
    using w b Cons.prems(1) by (simp add: f(1) show_args_def symbols_def)
  show ?case
  proof (cases "ws = []")
    case True
    obtain rs' where rs': "parseredirs f' acc (show_redirs rs @ r) = POK (acc @ rs') r" "rtexts rs' = rs"
      using parseredirs_show[of rs f' r acc] assms(3,4) f(2) by auto
    then show ?thesis
      using step True assms(4) f(2)
      by (intro exI[of _ "[(w @ ?R, ?R)]"]) (auto simp: show_args_def pbind_def exec_loop_stop intro!: exI[of _ rs'])
  next
    case False
    then obtain v vs where ws: "ws = v # vs" "good_string v"
      using Cons.prems(2) by (cases ws) auto
    have "peek ?R ''<>'' = (False, skip ?R)"
      using ws by (simp add: show_args_def symbols_def whitespace_def)
    then have "parseredirs f' acc ?R = POK acc (skip ?R)"
      using f(2) by (cases f') auto
    moreover obtain ws' rs' where "exec_loop f' (as @ [(w @ ?R, ?R)]) acc ?R =
        POK (wrap (EXEC ((as @ [(w @ ?R, ?R)]) @ ws')) (acc @ rs')) r" "map wtext ws' = ws" "rtexts rs' = rs"
      using Cons.IH[of "as @ [(w @ ?R, ?R)]" f' acc] Cons.prems f(2) False by auto
    ultimately show ?thesis
      using step by (intro exI[of _ "(w @ ?R, ?R) # ws'"] exI[of _ rs']) (simp add: pbind_def)
  qed
qed

lemma show_unit_wrap [simp]: "show_unit (wrap c rs) = show_unit c @ show_redirs rs"
  by (induction rs arbitrary: c) (auto simp: wrap_def show_redirs_def)

lemma good_cmd_wrap [simp]: "good_cmd (wrap c rs) \<longleftrightarrow> good_cmd c \<and> good_redirs rs"
  by (induction rs arbitrary: c) (auto simp: wrap_def good_redirs_def)

lemma size_wrap: "size c \<le> size (wrap c rs)"
proof (induction rs arbitrary: c)
  case (Cons x rs)
  obtain w m fd where "x = (w, m, fd)"
    by (rule prod_cases3)
  then show ?case
    using Cons[of "REDIR c w m fd"] by (simp add: wrap_def)
qed (simp add: wrap_def)

fun is_redir :: "'w cmd \<Rightarrow> bool" where
  "is_redir (REDIR c w m fd) = True"
| "is_redir _ = False"

lemma unwrap:
  obtains d rs where "c = wrap d rs" "\<not> is_redir d"
proof -
  have "\<exists>d rs. c = wrap d rs \<and> \<not> is_redir d"
  proof (induction c)
    case (REDIR c w m fd)
    then obtain d rs where "c = wrap d rs" "\<not> is_redir d"
      by blast
    then show ?case
      by (intro exI[of _ d] exI[of _ "rs @ [(w, m, fd)]"]) (simp add: wrap_def)
  qed (auto simp: wrap_def intro!: exI[of _ "[]"])
  then show ?thesis
    using that by blast
qed

lemma length_show_args: "length ws \<le> length (show_args ws)"
  by (induction ws) (auto simp: show_args_def)

lemma length_show_redirs: "length rs \<le> length (show_redirs rs)"
  by (induction rs) (auto simp: show_redirs_def redir_sym_def)

definition unit_ok :: "string cmd \<Rightarrow> bool" where
  "unit_ok c \<longleftrightarrow> (\<forall>f r. stops r \<longrightarrow> fuel_for 3 (show_unit c @ r) \<le> f \<longrightarrow> reads (parseexec f (show_unit c @ r)) c r)"

lemma unit_okD: "unit_ok c \<Longrightarrow> stops r \<Longrightarrow> fuel_for 3 (show_unit c @ r) \<le> f \<Longrightarrow> reads (parseexec f (show_unit c @ r)) c r"
  by (simp add: unit_ok_def)

lemma unit_ok_exec:
  assumes g: "length ws < 10" "\<forall>w \<in> set ws. good_string w" "good_redirs rs"
  shows "unit_ok (wrap (EXEC ws) rs)"
  unfolding unit_ok_def
proof (intro allI impI)
  fix f r assume r: "stops r" and f: "fuel_for 3 (show_unit (wrap (EXEC ws) rs) @ r) \<le> f"
  let ?s = "show_args ws @ show_redirs rs @ r"
  have "length ws + length rs + 3 \<le> f"
    using f length_show_args[of ws] length_show_redirs[of rs] by (simp add: fuel_for_def)
  then obtain f' where f': "f = Suc f'" "length ws + length rs + 1 < f'" "length rs < f'"
    by (cases f) auto
  show "reads (parseexec f (show_unit (wrap (EXEC ws) rs) @ r)) (wrap (EXEC ws) rs) r"
  proof (cases ws)
    case Nil
    have "peek (show_redirs rs @ r) ''('' = (False, show_redirs rs @ r)"
      using r g(3) by (cases rs) (auto simp: show_redirs_def good_redirs_def redir_sym_cases)
    moreover obtain rs' where "parseredirs f' [] (show_redirs rs @ r) = POK rs' r" "rtexts rs' = rs"
      using parseredirs_show[of rs f' r "[]"] g(3) r f'(3) by auto
    ultimately show ?thesis
      using Nil r f' by (simp add: show_args_def pbind_def exec_loop_stop)
  next
    case (Cons v vs)
    then have v: "good_string v"
      using g(2) by simp
    have "peek ?s ''('' = (False, skip ?s)" "peek ?s ''<>'' = (False, skip ?s)"
      using v by (simp_all add: Cons show_args_def symbols_def whitespace_def)
    then have "parseredirs f' [] ?s = POK [] (skip ?s)" "peek ?s ''('' = (False, skip ?s)"
      using f'(3) by (cases f'; simp)+
    moreover obtain ws' rs' where "exec_loop f' [] [] ?s = POK (wrap (EXEC ws') rs') r" "map wtext ws' = ws" "rtexts rs' = rs"
      using exec_loop_show[of "[]" ws rs r f' "[]"] g r f'(2) Cons by auto
    ultimately show ?thesis
      using f'(1) by (simp add: pbind_def)
  qed
qed

lemma gettoken_symbol [simp]:
  "c \<in> set ''|();&'' \<Longrightarrow> gettoken (c # s) = (c, c # s, s, skip s)"
  by (auto simp: gettoken_def tok_end_def)

lemma unit_ok_block:
  assumes line: "\<And>f r. fuel_for 5 (show_line c @ CHR '')'' # r) \<le> f \<Longrightarrow>
      reads (parseline f (show_line c @ CHR '')'' # r)) c (CHR '')'' # r)"
    and c: "show_unit c = ''('' @ show_line c @ '')''" and g: "good_redirs rs"
  shows "unit_ok (wrap c rs)"
  unfolding unit_ok_def
proof (intro allI impI)
  fix f r assume r: "stops r" and f: "fuel_for 3 (show_unit (wrap c rs) @ r) \<le> f"
  let ?R = "show_redirs rs @ r"
  obtain f' where f': "f = Suc (Suc f')"
    using f by (cases f rule: nat.exhaust; cases "f - 1") (auto simp: fuel_for_def)
  have "fuel_for 5 (show_line c @ CHR '')'' # ?R) \<le> f'" "length rs < f'"
    using f length_show_redirs[of rs] by (auto simp: f' c fuel_for_def)
  then obtain c' rs' where c': "parseline f' (show_line c @ CHR '')'' # ?R) = POK c' (CHR '')'' # ?R)" "map_cmd wtext c' = c"
      "parseredirs f' [] ?R = POK rs' r" "rtexts rs' = rs"
    using line parseredirs_show[of rs f' r "[]"] g r by (fastforce simp: reads_def)
  show "reads (parseexec f (show_unit (wrap c rs) @ r)) (wrap c rs) r"
    by (simp add: f' c pbind_def c')
qed

lemma parsepipe_unit:
  assumes "unit_ok c" "stops r" "r = [] \<or> hd r \<noteq> CHR ''|''" "fuel_for 4 (show_unit c @ r) \<le> f"
  shows "reads (parsepipe f (show_unit c @ r)) c r"
proof (cases f)
  case (Suc f')
  have pk: "peek r ''|'' = (False, r)"
    using assms(2,3) by (cases r) (auto simp: stops_def)
  have "reads (parseexec f' (show_unit c @ r)) c r"
    using assms(4) by (intro unit_okD[OF assms(1,2)]) (simp add: Suc fuel_for_def)
  then show ?thesis
    unfolding Suc parsepipe.simps by (rule reads_pbind) (simp add: pk)
qed (use assms(4) in \<open>simp add: fuel_for_def\<close>)

text \<open>What may follow a whole line.\<close>

definition line_end :: "string \<Rightarrow> bool" where
  "line_end r \<longleftrightarrow> r = [] \<or> hd r = CHR '')''"

lemma line_end_stops [simp]: "line_end r \<Longrightarrow> stops r"
  by (auto simp: line_end_def stops_def)

lemma line_end_peek [simp]:
  "line_end r \<Longrightarrow> peek r ''&'' = (False, r)" "line_end r \<Longrightarrow> peek r '';'' = (False, r)"
  "line_end r \<Longrightarrow> r = [] \<or> hd r \<noteq> CHR ''|''"
  by (cases r; auto simp: line_end_def)+

lemma back_loop_none: "0 < f \<Longrightarrow> peek r ''&'' = (False, r) \<Longrightarrow> back_loop f c r = POK c r"
  by (cases f) auto

lemma parseline_pipe:
  assumes "reads (parsepipe f s) c r" "line_end r" "0 < f"
  shows "reads (parseline (Suc f) s) c r"
  using assms unfolding parseline.simps
  by (intro reads_pbind[OF assms(1)]) (simp add: back_loop_none pbind_def)

lemma loops_no_leftovers [simp]:
  "parseredirs f rs s \<noteq> Leftovers r" "exec_loop f as rs s \<noteq> Leftovers r" "back_loop f c s \<noteq> Leftovers r"
proof -
  show p: "parseredirs f rs s \<noteq> Leftovers r" for f rs s r
    by (induction f arbitrary: rs s) (auto split: prod.splits)
  show "exec_loop f as rs s \<noteq> Leftovers r"
    by (induction f arbitrary: as rs s) (auto simp: pbind_def p split: prod.splits pres.splits)
  show "back_loop f c s \<noteq> Leftovers r"
    by (induction f arbitrary: c s) (auto split: prod.splits)
qed

lemma parsers_no_leftovers:
  "parseline f s \<noteq> Leftovers r" "parsepipe f s \<noteq> Leftovers r" "parseexec f s \<noteq> Leftovers r" "parseblock f s \<noteq> Leftovers r"
proof -
  have "(\<forall>s. parseline f s \<noteq> Leftovers r) \<and> (\<forall>s. parsepipe f s \<noteq> Leftovers r) \<and> (\<forall>s. parseexec f s \<noteq> Leftovers r) \<and>
      (\<forall>s. parseblock f s \<noteq> Leftovers r)"
    by (induction f) (auto simp: pbind_def split: prod.splits pres.splits)
  then show "parseline f s \<noteq> Leftovers r" "parsepipe f s \<noteq> Leftovers r" "parseexec f s \<noteq> Leftovers r" "parseblock f s \<noteq> Leftovers r"
    by auto
qed

lemma parseline_unit:
  assumes "unit_ok c" "line_end r" "fuel_for 5 (show_unit c @ r) \<le> f"
  shows "reads (parseline f (show_unit c @ r)) c r"
proof (cases f)
  case (Suc f')
  have "fuel_for 4 (show_unit c @ r) \<le> f'"
    using assms(3) by (simp add: Suc fuel_for_def)
  then have "reads (parsepipe f' (show_unit c @ r)) c r" "0 < f'"
    using parsepipe_unit[OF assms(1) line_end_stops[OF assms(2)] line_end_peek(3)[OF assms(2)]] by (auto simp: fuel_for_def)
  then show ?thesis
    unfolding Suc using assms(2) by (intro parseline_pipe)
qed (use assms(3) in \<open>simp add: fuel_for_def\<close>)

lemma parseline_PIPE:
  assumes "unit_ok c" "unit_ok d" "line_end r" "fuel_for 5 (show_unit c @ ''|'' @ show_unit d @ r) \<le> f"
  shows "reads (parseline f (show_unit c @ ''|'' @ show_unit d @ r)) (PIPE c d) r"
proof -
  let ?s = "CHR ''|'' # show_unit d @ r"
  obtain f' where f: "f = Suc (Suc f')" "0 < f'"
    using assms(4) by (cases f; cases "f - 1") (auto simp: fuel_for_def)
  have "reads (parseexec f' (show_unit c @ ?s)) c ?s"
    using assms(4) f by (intro unit_okD[OF assms(1)]) (auto simp: fuel_for_def stops_def)
  moreover have "reads (parsepipe f' (show_unit d @ r)) d r"
    using assms(4) f by (intro parsepipe_unit[OF assms(2) line_end_stops[OF assms(3)] line_end_peek(3)[OF assms(3)]])
      (auto simp: fuel_for_def)
  ultimately have "reads (parsepipe (Suc f') (show_unit c @ ?s)) (PIPE c d) r"
    unfolding parsepipe.simps by (intro reads_pbind) (auto intro!: reads_pbind)
  then show ?thesis
    using parseline_pipe[of "Suc f'" "show_unit c @ ?s" "PIPE c d" r] assms(3) by (simp add: f)
qed

lemma parseline_LIST:
  assumes "unit_ok c" "unit_ok d" "line_end r" "fuel_for 5 (show_unit c @ '';'' @ show_unit d @ r) \<le> f"
  shows "reads (parseline f (show_unit c @ '';'' @ show_unit d @ r)) (LIST c d) r"
proof -
  let ?s = "CHR '';'' # show_unit d @ r"
  obtain f' where f: "f = Suc f'" "0 < f'"
    using assms(4) by (cases f) (auto simp: fuel_for_def)
  have "reads (parsepipe f' (show_unit c @ ?s)) c ?s"
    using assms(4) f by (intro parsepipe_unit[OF assms(1)]) (auto simp: fuel_for_def stops_def)
  moreover have "reads (parseline f' (show_unit d @ r)) d r"
    using assms f by (intro parseline_unit[OF assms(2)]) (auto simp: fuel_for_def)
  moreover have "back_loop f' c' ?s = POK c' ?s" for c'
    using f(2) by (intro back_loop_none) auto
  ultimately show ?thesis
    unfolding f parseline.simps append_Cons append_Nil
    by (intro reads_pbind[of _ c]) (auto simp: pbind_def[of "POK _ _"] intro!: reads_pbind)
qed

lemma parseline_BACK:
  assumes "unit_ok c" "line_end r" "fuel_for 5 (show_unit c @ ''&'' @ r) \<le> f"
  shows "reads (parseline f (show_unit c @ ''&'' @ r)) (BACK c) r"
proof -
  let ?s = "CHR ''&'' # r"
  obtain f' where f: "f = Suc (Suc f')" "0 < f'"
    using assms(3) by (cases f; cases "f - 1") (auto simp: fuel_for_def)
  have p: "reads (parsepipe (Suc f') (show_unit c @ ?s)) c ?s"
    using assms(3) f by (intro parsepipe_unit[OF assms(1)]) (auto simp: fuel_for_def stops_def)
  have b: "back_loop (Suc f') c' ?s = POK (BACK c') r" for c'
    using f(2) assms(2) by (simp add: back_loop_none)
  show ?thesis
    unfolding f parseline.simps append_Cons append_Nil
    by (rule reads_pbind[OF p]) (simp only: b, simp add: pbind_def assms(2))
qed


lemma good_unit_ok: "good_cmd c \<Longrightarrow> unit_ok c"
proof (induction c rule: measure_induct_rule[of size])
  case (less c)
  obtain d rs where c: "c = wrap d rs" "\<not> is_redir d"
    by (rule unwrap)
  have g: "good_cmd d" "good_redirs rs"
    using less.prems c by auto
  have sub: "unit_ok e" if "size e < size d" "good_cmd e" for e
    using less.IH that size_wrap[of d rs] c by simp
  have e: "line_end (CHR '')'' # r)" for r
    by (simp add: line_end_def)
  show ?case
  proof (cases d)
    case (EXEC ws)
    then show ?thesis
      using unit_ok_exec g c by simp
  next
    case (PIPE a b)
    then show ?thesis
      unfolding c using g sub parseline_PIPE[OF _ _ e, of a b] by (intro unit_ok_block) auto
  next
    case (LIST a b)
    then show ?thesis
      unfolding c using g sub parseline_LIST[OF _ _ e, of a b] by (intro unit_ok_block) auto
  next
    case (BACK a)
    then show ?thesis
      unfolding c using g sub parseline_BACK[OF _ e, of a] by (intro unit_ok_block) auto
  qed (use c in simp)
qed

lemma parseline_show:
  assumes "good_cmd c" "line_end r" "fuel_for 5 (show_line c @ r) \<le> f"
  shows "reads (parseline f (show_line c @ r)) c r"
  using assms good_unit_ok parseline_unit[of c r f] parseline_PIPE[of _ _ r f] parseline_LIST[of _ _ r f] parseline_BACK[of _ r f]
  by (cases c) simp_all

lemma parsecmd_show:
  assumes "good_cmd c"
  shows "reads (parsecmd (show_line c)) c []"
proof -
  have "reads (parseline (parse_fuel (show_line c)) (show_line c)) c []"
    using parseline_show[OF assms, of "[]"] by (simp add: line_end_def parse_fuel_def fuel_for_def)
  then show ?thesis
    unfolding parsecmd_def by (rule reads_pbind) simp
qed

lemma good_string_no_nul: "good_string w \<Longrightarrow> CHR 0x00 \<notin> set w"
  by (auto simp: good_string_def)

lemma show_unit_no_nul: "good_cmd c \<Longrightarrow> CHR 0x00 \<notin> set (show_unit c)"
  by (induction c) (auto simp: show_args_def redir_sym_def good_string_no_nul)

lemma show_line_no_nul: "good_cmd c \<Longrightarrow> CHR 0x00 \<notin> set (show_line c)"
  using show_unit_no_nul by (cases c) fastforce+

text \<open>The strings a parsed command is run with are the words of the line.\<close>

lemma nulterminate_words:
  assumes "parsecmd s = POK c r" "CHR 0x00 \<notin> set s"
  shows "map_cmd (\<lambda>(q, e). cstring (nulterminate c (s @ [CHR 0x00])) q) c = map_cmd wtext c"
proof (rule cmd.map_cong0)
  have "words_ok s c"
    using parsecmd_fine[of s] assms(1) by simp
  then show "(case w of (q, e) \<Rightarrow> cstring (nulterminate c (s @ [CHR 0x00])) q) = wtext w" if "w \<in> set_cmd c" for w
    using cstring_nulterminate assms(2) that by (cases w) auto
qed

section \<open>Properties\<close>

text \<open>
  C35: on every line without a NUL the parser of \<^verbatim>\<open>sh.c\<close> returns: it panics, reports leftovers, or builds a command with the whole line
  read, whose every word is a longest run of plain characters of the line; and after \<^verbatim>\<open>nulterminate\<close> the string that starts at a word's
  pointer is exactly that word, although the NULs are written into the line that holds all of them.
\<close>

theorem parsecmd_words:
  assumes "CHR 0x00 \<notin> set s"
  shows "case parsecmd s of
      POK c r \<Rightarrow> r = [] \<and> words_ok s c \<and>
        map_cmd (\<lambda>(q, e). cstring (nulterminate c (s @ [CHR 0x00])) q) c = map_cmd wtext c
    | PPanic e \<Rightarrow> True
    | Leftovers r \<Rightarrow> r \<noteq> []
    | OutOfFuel \<Rightarrow> False"
proof -
  have "case parsecmd s of POK c r \<Rightarrow> r = [] | Leftovers r \<Rightarrow> r \<noteq> [] | _ \<Rightarrow> True"
    using parsers_no_leftovers[of "parse_fuel s" s]
    by (auto simp: parsecmd_def pbind_def peek_def Let_def split: pres.splits)
  then show ?thesis
    using parsecmd_fine[of s] nulterminate_words[OF _ assms] by (cases "parsecmd s") auto
qed

theorem parsecmd_words_witness:
  "map_cmd (\<lambda>(q, e). cstring (nulterminate
     (REDIR (EXEC [(''ls>f'', ''>f'')]) (''f'', []) 0x601 1) (''ls>f'' @ [CHR 0x00])) q)
     (REDIR (EXEC [(''ls>f'', ''>f'')]) (''f'', []) 0x601 1) = REDIR (EXEC [''ls'']) ''f'' 0x601 1"
proof -
  have "parsecmd ''ls>f'' = POK (REDIR (EXEC [(''ls>f'', ''>f'')]) (''f'', []) 0x601 1) []"
    by code_simp
  then show ?thesis
    using parsecmd_words[of "''ls>f''"] by (simp add: wtext_def)
qed

text \<open>
  C34: the shell runs what is typed: for every command whose words are plain, with at most nine arguments each, the line that spells it,
  with compound commands inside other ones in parentheses, is parsed, terminated and run as exactly that command.
\<close>

theorem run_line_runs_typed:
  assumes "good_cmd c"
  shows "run_line (show_line c) = runcmd c"
proof -
  obtain c' where c': "parsecmd (show_line c) = POK c' []" "map_cmd wtext c' = c"
    using parsecmd_show[OF assms] by (auto simp: reads_def)
  then show ?thesis
    using nulterminate_words[OF c'(1) show_line_no_nul[OF assms]] by (simp add: run_line_def Let_def)
qed

theorem run_line_runs_typed_witness:
  "run_line '' cat<README| wc -l'' = runcmd (PIPE (REDIR (EXEC [''cat'']) ''README'' 0 0) (EXEC [''wc'', ''-l'']))"
  using run_line_runs_typed[of "PIPE (REDIR (EXEC [''cat'']) ''README'' 0 0) (EXEC [''wc'', ''-l''])"]
  by (simp add: show_args_def redir_sym_def good_string_def plain_def whitespace_def symbols_def)

end
