(* ===== verification/Spec2Isabelle.thy ===== *)
theory Spec2Isabelle
  imports Boot Copyout Crash Asm Grep Sh
begin

text \<open>
  This development models the operating system of this repository, an xv6 for RISC-V with selectable schedulers (round robin,
  FCFS, priority based PBS, multi-level feedback queue MLFQ, lottery LBS), copy-on-write fork, alarms and system-call tracing, and
  the user programs above it.  Paths are relative to \<^verbatim>\<open>src/\<close>.

  \<^bold>\<open>The program.\<close>  The page allocator hands out physical pages with reference counts.  The virtual-memory code builds
  page tables in such pages; fork shares pages through them and a later write copies.  The process table and the schedulers decide
  what runs on which hart, spin locks protect shared data between harts, and sleep locks let a process wait.  Blocks of the disk
  are read through the buffer cache, written through the log, and hold inodes, directories and files.  Pipes, devices and inodes
  are reached through open files.  System calls enter through the trampoline and the trap handler, fetch their arguments from
  user memory and call those components.  The shell, \<^verbatim>\<open>grep\<close> and the other programs see the kernel through system calls only.

  \<^bold>\<open>How code is modelled.\<close>  A function of the kernel is a HOL function from the state to a result of type \<open>res\<close>: \<open>OK\<close>
  with a value, \<open>Panic\<close> with the message of \<^verbatim>\<open>panic\<close>, or \<open>Block\<close> where the code goes to sleep.  The state is a record that grows from
  component to component: \<open>kmem\<close>, \<open>vmem\<close>, \<open>ptable\<close>, \<open>bcache\<close>, \<open>logst\<close>, \<open>fsst\<close>, \<open>conss\<close>, \<open>pipest\<close>, \<open>filest\<close>, \<open>machine\<close>.  An operation of a
  component takes any extension of its record, so it cannot change what it does not know.  Memory is a map from 64-bit addresses to
  bytes, and page tables, trapframes and the free list live in it.  Integers have the width of the C type where it matters.  A
  critical section is one step, except for the spin locks themselves, which are cut at every access to the lock word.

  \<^bold>\<open>Theories and sources.\<close>

  \<^item> \<open>Prelude\<close>: results, words, little-endian encoding.  \<open>Memory\<close>: memory and \<^verbatim>\<open>kernel/string.c\<close>.  \<open>Riscv\<close>: the macros of
    \<^verbatim>\<open>kernel/riscv.h\<close>, \<^verbatim>\<open>kernel/memlayout.h\<close> and \<^verbatim>\<open>kernel/param.h\<close>.
  \<^item> \<open>Kalloc\<close>: \<^verbatim>\<open>kernel/kalloc.c\<close>.  The locale \<open>page_allocator\<close> is what its clients rely on.
  \<^item> \<open>VM\<close>: \<^verbatim>\<open>kernel/vm.c\<close>.  \<open>Pagetable\<close>, \<open>Pagetree\<close>: what the tables mean.  \<open>Cow\<close>, \<open>Copyout\<close>: sharing at fork, the copy-on-write fault of
    \<^verbatim>\<open>usertrap\<close>, and the kernel's writes to user memory.
  \<^item> \<open>Spinlock\<close>: \<^verbatim>\<open>kernel/spinlock.c\<close>.  \<open>Sleeplock\<close>: \<^verbatim>\<open>kernel/sleeplock.c\<close>.
  \<^item> \<open>Proc\<close>, \<open>Scheduler\<close>, \<open>Process\<close>: \<^verbatim>\<open>kernel/proc.c\<close>, with the clock interrupt of \<^verbatim>\<open>kernel/trap.c\<close>.  The locale \<open>selection\<close> is the scan
    that FCFS, PBS and MLFQ share.  \<open>Sched_Inv\<close>: the step relation of everything that changes the process table.
  \<^item> \<open>Bio\<close>, \<open>Virtio\<close>, \<open>Log\<close>, \<open>Fs\<close>: \<^verbatim>\<open>kernel/bio.c\<close>, \<^verbatim>\<open>kernel/virtio_disk.c\<close>, \<^verbatim>\<open>kernel/log.c\<close>, \<^verbatim>\<open>kernel/fs.c\<close>.  \<open>Cache\<close>, \<open>Crash\<close>: the cache as a
    map from block numbers to blocks, and the disk after a crash.
  \<^item> \<open>Ring\<close>: ring buffers, with the locale \<open>bounded_queue\<close>.  \<open>Kprintf\<close>, \<open>Console\<close>, \<open>Pipe\<close>, \<open>File\<close>: \<^verbatim>\<open>kernel/printf.c\<close>, \<^verbatim>\<open>kernel/console.c\<close> with
    \<^verbatim>\<open>kernel/uart.c\<close>, \<^verbatim>\<open>kernel/pipe.c\<close>, \<^verbatim>\<open>kernel/file.c\<close>.
  \<^item> \<open>Sysproc\<close>, \<open>Sysfile\<close>, \<open>Exec\<close>, \<open>Syscall\<close>: \<^verbatim>\<open>kernel/sysproc.c\<close>, \<^verbatim>\<open>kernel/sysfile.c\<close>, \<^verbatim>\<open>kernel/exec.c\<close>, \<^verbatim>\<open>kernel/syscall.c\<close>.
  \<^item> \<open>Trap\<close>, \<open>Boot\<close>: \<^verbatim>\<open>kernel/trap.c\<close> with \<^verbatim>\<open>kernel/plic.c\<close>; \<^verbatim>\<open>kernel/start.c\<close> and \<^verbatim>\<open>kernel/main.c\<close>.
  \<^item> \<open>Asm\<close>: \<^verbatim>\<open>kernel/trampoline.S\<close>, \<^verbatim>\<open>kernel/swtch.S\<close>, \<^verbatim>\<open>kernel/kernelvec.S\<close>, \<^verbatim>\<open>kernel/entry.S\<close>, as lists of instructions.
  \<^item> \<open>Uio\<close>, \<open>Uprintf\<close>, \<open>Uprogs\<close>: how programs read, \<^verbatim>\<open>user/printf.c\<close>, and the small programs of \<^verbatim>\<open>user/\<close> as trees of system calls.
    \<open>Grep\<close>: \<^verbatim>\<open>user/grep.c\<close>.  \<open>Sh\<close>: \<^verbatim>\<open>user/sh.c\<close>.

  \<^bold>\<open>What is shown.\<close>

  \<^item> Allocator: \<^verbatim>\<open>kinit\<close> sets up a free list that every operation keeps; a page is handed out only when nobody holds it and comes back
    exactly at its last reference; \<^verbatim>\<open>kfree\<close> panics exactly on bad addresses.
  \<^item> Memory: \<^verbatim>\<open>memmove\<close> and \<^verbatim>\<open>safestrcpy\<close> are correct.  \<^verbatim>\<open>mappages\<close> keeps tables well formed.  \<^verbatim>\<open>copyin\<close>, \<^verbatim>\<open>copyinstr\<close> and \<^verbatim>\<open>copyout\<close> move exactly the
    bytes at the user's addresses.  After \<^verbatim>\<open>uvmcopy\<close> parent and child see the same bytes; a write of one is not seen by the other for the
    pages that were writable, and is seen for those that were not.
  \<^item> Locks and scheduling: mutual exclusion of spin locks under every interleaving; a process runs on at most one CPU; each scheduler
    picks what its rule says; the lottery is exact; aging under MLFQ happens; \<^verbatim>\<open>wakeup\<close> wakes exactly the sleepers.
  \<^item> Storage: a crash at any point of a commit leaves all or nothing of the transaction after recovery, which can itself be
    interrupted.
  \<^item> Queues: pipes and the UART's output are bounded first-in first-out queues.  Printed numbers read back.
  \<^item> Assembly: a trap gives the user program its registers back, \<^verbatim>\<open>swtch\<close> resumes the context it is given, interrupts of the kernel are
    transparent, the timer handler rearms itself.
  \<^item> Programs: \<^verbatim>\<open>grep\<close> finds exactly the lines in the language of its pattern, \<^verbatim>\<open>cat\<close> and \<^verbatim>\<open>wc\<close> are right however \<^verbatim>\<open>read\<close> cuts the
    input, the shell's parser always returns and the shell runs the command that is typed.

  \<^bold>\<open>Bounds and fuel.\<close>  Loops over arrays are structural or have termination proofs.  Loops that wait for a device or may not
  end (\<^verbatim>\<open>uartputc_sync\<close>, \<^verbatim>\<open>freerange\<close>, \<^verbatim>\<open>strlen\<close>) are partial functions with None for not returning, and the theorems say when they return.
  \<^verbatim>\<open>free_chain\<close> has one unit of fuel more than the queue has descriptors.  The shell's parser has \<open>8 * length + 8\<close> units, which is
  proved to be enough for every line.  The endless loops of \<^verbatim>\<open>init\<close> and the shell and the read loops of \<^verbatim>\<open>cat\<close> and \<^verbatim>\<open>wc\<close> take a number of
  rounds; for the latter, one round for each byte and one for the end of the file is enough.

  \<^bold>\<open>Parameters.\<close>  The devices (status readings of the UART, the virtio device, the interrupt controller's claims), the address
  of the end of the kernel image, the amounts \<^verbatim>\<open>read\<close> delivers, and what the code called from the assembly does.

  \<^bold>\<open>Not modelled.\<close>  The lock of the kernel's \<^verbatim>\<open>printf\<close> and the freezing of other harts after a panic, which only order output;
  \<^verbatim>\<open>kernel/ramdisk.c\<close>, which is not linked and does not fit the current \<^verbatim>\<open>struct buf\<close>; the linker scripts; the stubs that
  \<^verbatim>\<open>user/usys.pl\<close> generates; the test programs under \<^verbatim>\<open>user/\<close>, which are checks of the kernel and not part of it.  In the
  shell, allocations are taken to succeed.  Weak memory ordering is not modelled: every access is sequentially consistent.
\<close>

end
